(* ===== verification/Neu_Prelude.thy ===== *)
theory Neu_Prelude
  imports Main "HOL-Library.Word" "HOL-Library.AList" "HOL-Library.Multiset" "HOL-Library.Monad_Syntax"
begin

text \<open>
  Shared vocabulary of the development: the integer types of
  \<^verbatim>\<open>include/common/aria_types.h\<close>, the collections of rewrite rules the components
  declare their facts into, and generic lemmas on options, folds and association lists.

  Conventions used everywhere:
  \<^item> a \<^verbatim>\<open>CHECK\<close> that fails, a null dereference or any other abort of the process is the
    value \<^term>\<open>None\<close>; an ordinary \<^verbatim>\<open>return false\<close> is a value of the result type;
  \<^item> \<^verbatim>\<open>DCHECK\<close>, \<^verbatim>\<open>LOG\<close> and \<^verbatim>\<open>DLOG\<close> have no effect in a release build and are left out;
  \<^item> \<^verbatim>\<open>std::string\<close> is \<^typ>\<open>string\<close>, a list of bytes.
\<close>

section \<open>Types of the program\<close>

type_synonym tid_size_t = "64 word"
type_synonym epoch_size_t = "64 word"

text \<open>The collections: laws of finite maps, laws of reservation tables, laws of storage.\<close>

named_theorems map_laws
named_theorems reserve_laws
named_theorems storage_laws

section \<open>Generic lemmas\<close>

lemma bind_eq_SomeE [elim]:
  assumes "Option.bind x f = Some y"
  obtains z where "x = Some z" and "f z = Some y"
  using assms by (auto simp: Option.bind_eq_Some_conv)

lemma distinct_map_fst_card:
  "distinct (map fst xs) \<Longrightarrow> card (fst ` set xs) = length xs"
  using distinct_card[of "map fst xs"] by simp

lemma map_of_in_fst: "map_of xs k = Some v \<Longrightarrow> k \<in> fst ` set xs"
  by (induction xs) (auto split: if_splits)

lemma fst_set_AList_update: "fst ` set (AList.update k v xs) = insert k (fst ` set xs)"
  by (simp add: dom_update)

lemma fst_set_AList_delete: "fst ` set (AList.delete k xs) = fst ` set xs - {k}"
  using delete_keys[of k xs] by (auto simp flip: set_map)

text \<open>A loop whose body may abort the process.\<close>

fun fold_opt :: "('a \<Rightarrow> 's \<Rightarrow> 's option) \<Rightarrow> 'a list \<Rightarrow> 's \<Rightarrow> 's option" where
  "fold_opt f [] s = Some s"
| "fold_opt f (x # xs) s = Option.bind (f x s) (fold_opt f xs)"

lemma fold_opt_append:
  "fold_opt f (xs @ ys) s = Option.bind (fold_opt f xs s) (fold_opt f ys)"
proof (induction xs arbitrary: s)
  case (Cons x xs)
  then show ?case by (cases "f x s") auto
qed simp

text \<open>A fold over independent steps does not depend on the order of the list.\<close>

lemma fold_perm_invariant:
  assumes step: "\<And>x y s. x \<in> set xs \<Longrightarrow> y \<in> set xs \<Longrightarrow> f x (f y s) = f y (f x s)"
    and perm: "mset xs = mset ys"
  shows "fold f xs s = fold f ys s"
  using fold_multiset_equiv[of xs f ys] step perm by (auto simp: comp_def fun_eq_iff)

end
