(* ===== verification/Hash_Map.thy ===== *)
theory Hash_Map
  imports Neu_Prelude
begin

text \<open>
  \<^verbatim>\<open>include/common/hash_map.h\<close>: the bucketed hash map \<^verbatim>\<open>HashMap<KeyType, ValueType, N=997>\<close>
  under the reservation tables and the transaction buffers. The array of
  \<^verbatim>\<open>std::unordered_map\<close> is a function from bucket numbers to association lists with
  distinct keys; \<^verbatim>\<open>std::hash\<close> is an argument. Each public operation takes the bucket's
  mutex for its whole body, so each is one atomic step here.

  The interface its clients rely on is the locale \<open>finite_map\<close>; the interpretation at the
  end discharges its laws for the buckets.
\<close>

section \<open>The interface of a finite map\<close>

locale finite_map =
  fixes invar :: "'m \<Rightarrow> bool"
    and lookup :: "'m \<Rightarrow> 'k \<Rightarrow> 'v option"
    and new :: "'m"
    and put :: "'m \<Rightarrow> 'k \<Rightarrow> 'v \<Rightarrow> 'm"
    and del :: "'m \<Rightarrow> 'k \<Rightarrow> 'm"
  assumes invar_new: "invar new"
    and lookup_new: "lookup new k = None"
    and invar_put: "invar m \<Longrightarrow> invar (put m k v)"
    and lookup_put: "invar m \<Longrightarrow> lookup (put m k v) k' = (if k' = k then Some v else lookup m k')"
    and invar_del: "invar m \<Longrightarrow> invar (del m k)"
    and lookup_del: "invar m \<Longrightarrow> lookup (del m k) k' = (if k' = k then None else lookup m k')"
begin

lemma invar_fold_put: "invar m \<Longrightarrow> invar (fold (\<lambda>(k, v) m. put m k v) kvs m)"
  by (induction kvs arbitrary: m) (auto simp: invar_put)

lemma lookup_fold_put:
  "invar m \<Longrightarrow>
     lookup (fold (\<lambda>(k, v) m. put m k v) kvs m) = lookup m ++ map_of (rev kvs)"
proof (induction kvs arbitrary: m)
  case (Cons kv kvs)
  obtain k v where kv: "kv = (k, v)" by (cases kv)
  have upd: "lookup (put m k v) = (lookup m)(k \<mapsto> v)"
    using Cons.prems by (auto simp: lookup_put)
  have "lookup (fold (\<lambda>(k, v) m. put m k v) kvs (put m k v)) = lookup (put m k v) ++ map_of (rev kvs)"
    using Cons.prems by (intro Cons.IH invar_put)
  then show ?case
    by (simp add: kv upd map_add_def fun_eq_iff split: option.splits)
qed simp

lemma put_commute:
  "invar m \<Longrightarrow> k \<noteq> k' \<Longrightarrow> lookup (put (put m k v) k' v') = lookup (put (put m k' v') k v)"
  by (auto simp: lookup_put invar_put fun_eq_iff)

end

section \<open>The buckets\<close>

record ('k, 'v) hash_map =
  buckets :: "nat \<Rightarrow> ('k \<times> 'v) list"

definition bucket_total :: nat where
  "bucket_total = 997"

definition hm_new :: "('k, 'v) hash_map" where
  "hm_new = \<lparr>buckets = (\<lambda>_. [])\<rparr>"

definition get_map_ref :: "('k \<Rightarrow> nat) \<Rightarrow> 'k \<Rightarrow> nat" where
  "get_map_ref hash key = hash key mod bucket_total"

definition hm_remove :: "('k \<Rightarrow> nat) \<Rightarrow> ('k, 'v) hash_map \<Rightarrow> 'k \<Rightarrow> bool \<times> ('k, 'v) hash_map" where
  "hm_remove hash m key =
     (let i = get_map_ref hash key; mp = buckets m i
      in case map_of mp key of
           None \<Rightarrow> (False, m)
         | Some _ \<Rightarrow> (True, m\<lparr>buckets := (buckets m)(i := AList.delete key mp)\<rparr>))"

definition hm_contains :: "('k \<Rightarrow> nat) \<Rightarrow> ('k, 'v) hash_map \<Rightarrow> 'k \<Rightarrow> bool" where
  "hm_contains hash m key = (map_of (buckets m (get_map_ref hash key)) key \<noteq> None)"

definition hm_insert ::
  "('k \<Rightarrow> nat) \<Rightarrow> ('k, 'v) hash_map \<Rightarrow> 'k \<Rightarrow> 'v \<Rightarrow> bool \<times> ('k, 'v) hash_map" where
  "hm_insert hash m key value =
     (let i = get_map_ref hash key; mp = buckets m i
      in case map_of mp key of
           Some _ \<Rightarrow> (False, m)
         | None \<Rightarrow> (True, m\<lparr>buckets := (buckets m)(i := AList.update key value mp)\<rparr>))"

text \<open>
  \<^verbatim>\<open>operator[]\<close> hands out a reference. Reading through it is \<open>hm_index\<close>, which leaves a
  default-constructed value \<open>dflt\<close> behind for a missing key; writing through it is
  \<open>hm_assign\<close>.
\<close>

definition hm_index ::
  "('k \<Rightarrow> nat) \<Rightarrow> 'v \<Rightarrow> ('k, 'v) hash_map \<Rightarrow> 'k \<Rightarrow> 'v \<times> ('k, 'v) hash_map" where
  "hm_index hash dflt m key =
     (let i = get_map_ref hash key; mp = buckets m i
      in case map_of mp key of
           Some v \<Rightarrow> (v, m)
         | None \<Rightarrow> (dflt, m\<lparr>buckets := (buckets m)(i := AList.update key dflt mp)\<rparr>))"

definition hm_assign :: "('k \<Rightarrow> nat) \<Rightarrow> ('k, 'v) hash_map \<Rightarrow> 'k \<Rightarrow> 'v \<Rightarrow> ('k, 'v) hash_map" where
  "hm_assign hash m key value =
     (let i = get_map_ref hash key
      in m\<lparr>buckets := (buckets m)(i := AList.update key value (buckets m i))\<rparr>)"

definition hm_size :: "('k, 'v) hash_map \<Rightarrow> nat" where
  "hm_size m = sum_list (map (\<lambda>i. length (buckets m i)) [0..<bucket_total])"

definition hm_clear :: "('k, 'v) hash_map \<Rightarrow> ('k, 'v) hash_map" where
  "hm_clear m = m\<lparr>buckets := (\<lambda>i. if i < bucket_total then [] else buckets m i)\<rparr>"

section \<open>The map the buckets stand for\<close>

definition hm_lookup :: "('k \<Rightarrow> nat) \<Rightarrow> ('k, 'v) hash_map \<Rightarrow> 'k \<Rightarrow> 'v option" where
  "hm_lookup hash m key = map_of (buckets m (get_map_ref hash key)) key"

definition bucket_keys :: "('k, 'v) hash_map \<Rightarrow> nat \<Rightarrow> 'k set" where
  "bucket_keys m i = fst ` set (buckets m i)"

definition hm_inv :: "('k \<Rightarrow> nat) \<Rightarrow> ('k, 'v) hash_map \<Rightarrow> bool" where
  "hm_inv hash m \<longleftrightarrow>
     (\<forall>i. distinct (map fst (buckets m i)) \<and>
          (\<forall>k \<in> bucket_keys m i. get_map_ref hash k = i))"

lemma bucket_keys_upd:
  "bucket_keys (m\<lparr>buckets := (buckets m)(i := xs)\<rparr>) j = (if j = i then fst ` set xs else bucket_keys m j)"
  by (simp add: bucket_keys_def)

lemma get_map_ref_bound: "get_map_ref hash k < bucket_total"
  by (simp add: get_map_ref_def bucket_total_def)

lemma hm_inv_new [simp]: "hm_inv hash hm_new"
  by (simp add: hm_inv_def hm_new_def bucket_keys_def)

lemma hm_lookup_new [simp]: "hm_lookup hash hm_new k = None"
  by (simp add: hm_lookup_def hm_new_def)

lemma hm_inv_assign: "hm_inv hash m \<Longrightarrow> hm_inv hash (hm_assign hash m k v)"
  by (auto simp: hm_inv_def hm_assign_def Let_def bucket_keys_upd fst_set_AList_update
      distinct_update simp flip: bucket_keys_def)

lemma hm_lookup_assign:
  "hm_lookup hash (hm_assign hash m k v) k' = (if k' = k then Some v else hm_lookup hash m k')"
  by (simp add: hm_lookup_def hm_assign_def Let_def update_conv')

lemma hm_index_value:
  "fst (hm_index hash d m k) = (case hm_lookup hash m k of Some v \<Rightarrow> v | None \<Rightarrow> d)"
  by (simp add: hm_index_def hm_lookup_def Let_def split: option.splits)

lemma hm_index_state:
  "snd (hm_index hash d m k) = (if hm_lookup hash m k = None then hm_assign hash m k d else m)"
  by (auto simp: hm_index_def hm_lookup_def hm_assign_def Let_def split: option.splits)

lemma hm_remove_state: "hm_inv hash m \<Longrightarrow> hm_inv hash (snd (hm_remove hash m k))"
  by (auto simp: hm_inv_def hm_remove_def Let_def bucket_keys_upd fst_set_AList_delete
      distinct_delete simp flip: bucket_keys_def split: option.splits)

lemma hm_lookup_remove:
  "hm_lookup hash (snd (hm_remove hash m k)) k' = (if k' = k then None else hm_lookup hash m k')"
  by (auto simp: hm_lookup_def hm_remove_def Let_def delete_conv' split: option.splits)

interpretation hm: finite_map "hm_inv hash" "hm_lookup hash" hm_new "hm_assign hash"
  "\<lambda>m k. snd (hm_remove hash m k)" for hash
  by unfold_locales
    (simp_all add: hm_inv_assign hm_lookup_assign hm_remove_state hm_lookup_remove)

lemmas [map_laws] = hm_inv_assign hm_lookup_assign hm_remove_state hm_lookup_remove
  hm_index_value hm_index_state

section \<open>Properties\<close>

lemma bucket_keys_ref: "hm_inv hash m \<Longrightarrow> k \<in> bucket_keys m i \<Longrightarrow> i = get_map_ref hash k"
  by (simp add: hm_inv_def)

lemma hm_lookup_dom: "k \<in> dom (hm_lookup hash m) \<longleftrightarrow> k \<in> bucket_keys m (get_map_ref hash k)"
  by (simp add: hm_lookup_def bucket_keys_def map_of_eq_None_iff domIff)

lemma dom_hm_lookup:
  assumes "hm_inv hash m"
  shows "dom (hm_lookup hash m) = (\<Union>i<bucket_total. bucket_keys m i)"
proof (intro set_eqI iffI)
  fix k assume "k \<in> dom (hm_lookup hash m)"
  then have "k \<in> bucket_keys m (get_map_ref hash k)"
    by (simp only: hm_lookup_dom)
  then show "k \<in> (\<Union>i<bucket_total. bucket_keys m i)"
    using get_map_ref_bound[of hash k] by blast
next
  fix k assume "k \<in> (\<Union>i<bucket_total. bucket_keys m i)"
  then obtain i where "k \<in> bucket_keys m i" by blast
  moreover from this have "i = get_map_ref hash k"
    by (rule bucket_keys_ref[OF assms])
  ultimately show "k \<in> dom (hm_lookup hash m)"
    by (simp only: hm_lookup_dom)
qed

lemma hm_size_card:
  assumes "hm_inv hash m"
  shows "hm_size m = card (dom (hm_lookup hash m))"
proof -
  have "hm_size m = (\<Sum>i<bucket_total. card (bucket_keys m i))"
    using assms
    by (simp add: hm_size_def hm_inv_def bucket_keys_def distinct_map_fst_card interv_sum_list_conv_sum_set_nat
        atLeast0LessThan)
  also have "\<dots> = card (\<Union>i<bucket_total. bucket_keys m i)"
  proof (rule card_UN_disjoint[symmetric])
    show "\<forall>i\<in>{..<bucket_total}. \<forall>j\<in>{..<bucket_total}. i \<noteq> j \<longrightarrow> bucket_keys m i \<inter> bucket_keys m j = {}"
      using bucket_keys_ref[OF assms] by blast
  qed (auto simp: bucket_keys_def)
  finally show ?thesis
    by (simp add: dom_hm_lookup[OF assms])
qed

lemma hm_clear_lookup: "hm_lookup hash (hm_clear m) k = None"
  by (simp add: hm_lookup_def hm_clear_def get_map_ref_bound)

lemma hm_clear_inv: "hm_inv hash m \<Longrightarrow> hm_inv hash (hm_clear m)"
  by (auto simp: hm_inv_def hm_clear_def bucket_keys_def)

end
