(* ===== verification/Transaction_Model.thy ===== *)
theory Transaction_Model
  imports Neu_Prelude
begin

text \<open>
  The data every component passes around: the read-write set of
  \<^verbatim>\<open>include/proto/kv_rwset.proto\<close>, the payload of \<^verbatim>\<open>include/proto/transaction.proto\<close>, the
  class \<^verbatim>\<open>Transaction\<close> (\<^verbatim>\<open>include/block_server/transaction/transaction.h\<close>) with its only
  implementation \<^verbatim>\<open>MockTransaction\<close>, and the result of a dependency analysis.

  A transaction is a value here; the code's \<^verbatim>\<open>Transaction*\<close> lists become lists of values that
  each step returns updated. The one pointer that is shared between transactions,
  \<^verbatim>\<open>invalidBit\<close>, is kept as an address (the ip of the proxy) into a table of flags.
\<close>

section \<open>Read-write sets\<close>

record kv_read =
  r_table :: string
  r_key :: string
  r_value :: string

record kv_write =
  w_table :: string
  w_key :: string
  w_value :: string
  w_is_delete :: bool

record kvrwset =
  reads :: "kv_read list"
  writes :: "kv_write list"

type_synonym cell = "string \<times> string"

definition kvrwset_clear :: kvrwset where
  "kvrwset_clear = \<lparr>reads = [], writes = []\<rparr>"

definition read_cells :: "kvrwset \<Rightarrow> cell list" where
  "read_cells rw = map (\<lambda>r. (r_table r, r_key r)) (reads rw)"

definition write_cells :: "kvrwset \<Rightarrow> cell list" where
  "write_cells rw = map (\<lambda>w. (w_table w, w_key w)) (writes rw)"

lemma cells_clear [simp]: "read_cells kvrwset_clear = []" "write_cells kvrwset_clear = []"
  by (simp_all add: read_cells_def write_cells_def kvrwset_clear_def)

section \<open>Transactions\<close>

datatype transaction_result = COMMIT | PENDING | ABORT | ABORT_NO_RETRY

record payload =
  p_header :: string
  p_payload :: string
  p_nonce :: "64 word"
  p_digest :: string

record transaction =
  tx_epoch :: epoch_size_t
  tx_tid :: tid_size_t
  readOnlyFlag :: bool
  kvRWSet :: kvrwset
  transactionResult :: transaction_result
  transactionPayload :: payload
  invalidBit :: "string option"

definition payload_clear :: payload where
  "payload_clear = \<lparr>p_header = [], p_payload = [], p_nonce = 0, p_digest = []\<rparr>"

definition newMockTransaction :: transaction where
  "newMockTransaction =
     \<lparr>tx_epoch = 0, tx_tid = 0, readOnlyFlag = True, kvRWSet = kvrwset_clear,
      transactionResult = PENDING, transactionPayload = payload_clear, invalidBit = None\<rparr>"

definition makeTransaction :: "epoch_size_t \<Rightarrow> tid_size_t \<Rightarrow> bool \<Rightarrow> transaction" where
  "makeTransaction epoch tid ro =
     newMockTransaction\<lparr>tx_epoch := epoch, tx_tid := tid, readOnlyFlag := ro\<rparr>"

definition resetTransaction :: "transaction \<Rightarrow> transaction" where
  "resetTransaction tx =
     tx\<lparr>tx_epoch := 0, kvRWSet := kvrwset_clear, transactionResult := PENDING\<rparr>"

definition resetRWSet :: "transaction \<Rightarrow> transaction" where
  "resetRWSet tx = tx\<lparr>kvRWSet := kvrwset_clear\<rparr>"

definition resetTransactionPayload :: "transaction \<Rightarrow> transaction" where
  "resetTransactionPayload tx = tx\<lparr>transactionPayload := payload_clear\<rparr>"

definition setInvalidBit :: "string \<Rightarrow> transaction \<Rightarrow> transaction" where
  "setInvalidBit ip tx = tx\<lparr>invalidBit := Some ip\<rparr>"

text \<open>
  \<^verbatim>\<open>isValid\<close> reads the shared flag \<^verbatim>\<open>(epoch, atomic<bool>)\<close> of the proxy the transaction came
  from; \<open>flags\<close> is that table (\<^verbatim>\<open>ClientProxy::invalidBits\<close>).
\<close>

definition isValid :: "(string \<Rightarrow> epoch_size_t \<times> bool) \<Rightarrow> transaction \<Rightarrow> bool" where
  "isValid flags tx =
     (case invalidBit tx of
        None \<Rightarrow> True
      | Some ip \<Rightarrow> (if \<not> snd (flags ip) then \<not> (fst (flags ip) \<le> tx_epoch tx) else True))"

section \<open>Dependencies\<close>

record transaction_dependency =
  waw :: bool
  war :: bool
  raw :: bool

text \<open>
  The verdict of \<^verbatim>\<open>TransactionExecutor::commitList\<close> on the three flags: a write-after-write
  dependency aborts, and so do a write-after-read and a read-after-write together.
\<close>

definition dep_commits :: "transaction_dependency \<Rightarrow> bool" where
  "dep_commits d \<longleftrightarrow> \<not> waw d \<and> (\<not> war d \<or> \<not> raw d)"

end
