(* ===== verification/Storage_Layer.thy ===== *)
theory Storage_Layer
  imports Hash_Map Transaction_Model
begin

text \<open>
  The state database: the class \<^verbatim>\<open>DBStorage\<close> with its two key-value implementations
  \<^verbatim>\<open>HashMapStorage\<close> and \<^verbatim>\<open>LevelDBStorage\<close>, and \<^verbatim>\<open>DatabaseImpl\<close>, which buffers the read-write
  sets of an epoch and applies those that commit.

  The virtual functions of \<^verbatim>\<open>DBStorage\<close> are the record \<open>storage_ops\<close>. LevelDB itself is not part
  of the repository: its calls are the record \<open>leveldb\<close>, and \<open>leveldb_ok\<close> names what its
  documentation promises. The laws the transaction layer needs are the locales \<open>db_store\<close> and
  \<open>db_storage\<close>.
\<close>

section \<open>Tables\<close>

datatype orm_field_type =
    AutoField | BinaryField | BooleanField | IntegerFiled | PositiveIntegerFiled | CharFiled
  | TextFiled | DateTimeField | FloatFiled | DecimalFiled | ForeignKey | OneToOneField
  | ManyToManyField

record orm_field =
  fieldType :: orm_field_type
  columnName :: string
  f_primary :: bool
  f_unique :: bool
  f_nil :: bool
  f_index :: bool
  f_maxLength :: "nat option"

definition intField :: "string \<Rightarrow> bool \<Rightarrow> orm_field" where
  "intField column_name nil =
     \<lparr>fieldType = IntegerFiled, columnName = column_name, f_primary = False, f_unique = False,
      f_nil = nil, f_index = False, f_maxLength = None\<rparr>"

definition charField :: "string \<Rightarrow> nat \<Rightarrow> bool \<Rightarrow> orm_field" where
  "charField column_name max_length nil =
     \<lparr>fieldType = CharFiled, columnName = column_name, f_primary = False, f_unique = False,
      f_nil = nil, f_index = False, f_maxLength = Some max_length\<rparr>"

record orm_table =
  tableName :: string
  fieldList :: "orm_field list"

definition addField :: "orm_table \<Rightarrow> orm_field \<Rightarrow> orm_table" where
  "addField tb f = tb\<lparr>fieldList := fieldList tb @ [f]\<rparr>"

definition getField :: "orm_table \<Rightarrow> nat \<Rightarrow> orm_field option" where
  "getField tb i = (if i \<ge> length (fieldList tb) then None else Some (fieldList tb ! i))"

section \<open>The interface of a storage\<close>

text \<open>Arguments in the order of the source: key, table for a lookup; key, value, table for an update.\<close>

record 's storage_ops =
  st_createTable :: "'s \<Rightarrow> string \<Rightarrow> string \<Rightarrow> string \<Rightarrow> 's"
  st_select :: "'s \<Rightarrow> string \<Rightarrow> string \<Rightarrow> (string \<times> 's) option"
  st_remove :: "'s \<Rightarrow> string \<Rightarrow> string \<Rightarrow> 's option"
  st_update :: "'s \<Rightarrow> string \<Rightarrow> string \<Rightarrow> string \<Rightarrow> 's option"

text \<open>
  A storage is observed through \<open>view\<close>: the value a lookup of a location returns, the empty
  string where nothing is stored. \<open>loc\<close> says at which location an implementation keeps the
  row \<open>key\<close> of a table.
\<close>

locale db_store =
  fixes S :: "'s storage_ops"
    and sinv :: "'s \<Rightarrow> bool"
    and view :: "'s \<Rightarrow> 'c \<Rightarrow> string"
    and loc :: "cell \<Rightarrow> 'c"
  assumes select: "sinv s \<Longrightarrow>
      \<exists>s'. st_select S s k t = Some (view s (loc (t, k)), s') \<and> sinv s' \<and> view s' = view s"
    and update: "sinv s \<Longrightarrow>
      \<exists>s'. st_update S s k v t = Some s' \<and> sinv s' \<and> view s' = (view s)(loc (t, k) := v)"
    and create: "sinv s \<Longrightarrow>
      sinv (st_createTable S s n c1 c2) \<and> view (st_createTable S s n c1 c2) = view s"

locale db_storage = db_store S sinv view loc
  for S :: "'s storage_ops" and sinv :: "'s \<Rightarrow> bool"
    and view :: "'s \<Rightarrow> 'c \<Rightarrow> string" and loc :: "cell \<Rightarrow> 'c" +
  assumes remove: "sinv s \<Longrightarrow>
      \<exists>s'. st_remove S s k t = Some s' \<and> sinv s' \<and> view s' = (view s)(loc (t, k) := [])"
    and inj_loc: "inj loc"

text \<open>What a list of writes does to the locations.\<close>

definition write_effect :: "kv_write \<Rightarrow> cell \<times> string" where
  "write_effect w = ((w_table w, w_key w), if w_is_delete w then [] else w_value w)"

definition apply_effects :: "kv_write list \<Rightarrow> (cell \<Rightarrow> string) \<Rightarrow> cell \<Rightarrow> string" where
  "apply_effects ws v = fold (\<lambda>w v. v(fst (write_effect w) := snd (write_effect w))) ws v"

definition apply_write :: "'s storage_ops \<Rightarrow> kv_write \<Rightarrow> 's \<Rightarrow> 's option" where
  "apply_write S w s =
     (if w_is_delete w then st_remove S s (w_key w) (w_table w)
      else st_update S s (w_key w) (w_value w) (w_table w))"

context db_storage
begin

text \<open>The rows as the transactions see them.\<close>

abbreviation rows :: "'s \<Rightarrow> cell \<Rightarrow> string" where
  "rows s \<equiv> (\<lambda>c. view s (loc c))"

lemma rows_upd: "view s' = (view s)(loc c := v) \<Longrightarrow> rows s' = (rows s)(c := v)"
  using inj_loc by (auto simp: fun_eq_iff inj_eq)

lemma apply_write_rows:
  assumes "sinv s"
  shows "\<exists>s'. apply_write S w s = Some s' \<and> sinv s' \<and>
    rows s' = (rows s)(fst (write_effect w) := snd (write_effect w))"
proof (cases "w_is_delete w")
  case True
  obtain s' where "st_remove S s (w_key w) (w_table w) = Some s'" "sinv s'"
    and v: "view s' = (view s)(loc (w_table w, w_key w) := [])"
    using remove[OF assms] by blast
  then show ?thesis
    using True rows_upd[OF v] by (simp add: apply_write_def write_effect_def)
next
  case False
  obtain s' where "st_update S s (w_key w) (w_value w) (w_table w) = Some s'" "sinv s'"
    and v: "view s' = (view s)(loc (w_table w, w_key w) := w_value w)"
    using update[OF assms] by blast
  then show ?thesis
    using False rows_upd[OF v] by (simp add: apply_write_def write_effect_def)
qed

lemma apply_writes_rows:
  "sinv s \<Longrightarrow> \<exists>s'. fold_opt (apply_write S) ws s = Some s' \<and> sinv s' \<and>
     rows s' = apply_effects ws (rows s)"
proof (induction ws arbitrary: s)
  case (Cons w ws)
  obtain s1 where s1: "apply_write S w s = Some s1" "sinv s1"
    "rows s1 = (rows s)(fst (write_effect w) := snd (write_effect w))"
    using apply_write_rows[OF Cons.prems] by blast
  then show ?case
    using Cons.IH[OF s1(2)] by (simp add: apply_effects_def)
qed (simp add: apply_effects_def)

end

lemma apply_effects_other: "c \<notin> fst ` write_effect ` set ws \<Longrightarrow> apply_effects ws v c = v c"
  unfolding apply_effects_def by (induction ws arbitrary: v) auto

lemma apply_effects_Cons:
  "apply_effects (w # ws) v = apply_effects ws (v(fst (write_effect w) := snd (write_effect w)))"
  by (simp add: apply_effects_def del: fun_upd_apply)

lemma apply_effects_cong:
  "c \<in> fst ` write_effect ` set ws \<Longrightarrow> apply_effects ws v c = apply_effects ws v' c"
proof (induction ws arbitrary: v v')
  case (Cons w ws)
  show ?case
  proof (cases "c \<in> fst ` write_effect ` set ws")
    case True
    then show ?thesis unfolding apply_effects_Cons by (rule Cons.IH)
  next
    case False
    then have "c = fst (write_effect w)" using Cons.prems by auto
    then show ?thesis
      using apply_effects_other[OF False] by (simp add: apply_effects_Cons)
  qed
qed simp

lemma fst_write_effect: "fst ` write_effect ` set (writes rw) = set (write_cells rw)"
  by (auto simp: write_effect_def write_cells_def image_iff)

section \<open>HashMapStorage\<close>

text \<open>
  One flat hash map: the table argument is ignored. \<^verbatim>\<open>removeWriteSet\<close> performs its removal inside
  a \<^verbatim>\<open>DCHECK\<close>, so the effect depends on the build: with assertions on (\<open>debug\<close>) it removes the row
  and aborts when there is none, in a release build the expression is not evaluated.
\<close>

type_synonym hash_map_storage = "(string, string) hash_map"

definition hms_createTable :: "hash_map_storage \<Rightarrow> string \<Rightarrow> string \<Rightarrow> string \<Rightarrow> hash_map_storage" where
  "hms_createTable db tname key value = db"

definition hms_selectDB ::
  "(string \<Rightarrow> nat) \<Rightarrow> hash_map_storage \<Rightarrow> string \<Rightarrow> string \<Rightarrow> (string \<times> hash_map_storage) option" where
  "hms_selectDB hash db key table = Some (hm_index hash [] db key)"

definition hms_removeWriteSet ::
  "bool \<Rightarrow> (string \<Rightarrow> nat) \<Rightarrow> hash_map_storage \<Rightarrow> string \<Rightarrow> string \<Rightarrow> hash_map_storage option" where
  "hms_removeWriteSet debug hash db key table =
     (if debug
      then (let (ok, db') = hm_remove hash db key in if ok then Some db' else None)
      else Some db)"

definition hms_updateWriteSet ::
  "(string \<Rightarrow> nat) \<Rightarrow> hash_map_storage \<Rightarrow> string \<Rightarrow> string \<Rightarrow> string \<Rightarrow> hash_map_storage option" where
  "hms_updateWriteSet hash db key value table = Some (hm_assign hash db key value)"

definition hash_map_storage_ops :: "bool \<Rightarrow> (string \<Rightarrow> nat) \<Rightarrow> hash_map_storage storage_ops" where
  "hash_map_storage_ops debug hash =
     \<lparr>st_createTable = hms_createTable, st_select = hms_selectDB hash,
      st_remove = hms_removeWriteSet debug hash, st_update = hms_updateWriteSet hash\<rparr>"

definition hms_view :: "(string \<Rightarrow> nat) \<Rightarrow> hash_map_storage \<Rightarrow> string \<Rightarrow> string" where
  "hms_view hash db key = (case hm_lookup hash db key of None \<Rightarrow> [] | Some v \<Rightarrow> v)"

interpretation hms: db_store "hash_map_storage_ops debug hash" "hm_inv hash" "hms_view hash" snd
  for debug hash
  by unfold_locales
    (auto simp: hash_map_storage_ops_def hms_selectDB_def hms_updateWriteSet_def hms_createTable_def
      hms_view_def map_laws fun_eq_iff prod_eq_iff split: option.splits)

section \<open>LevelDBStorage\<close>

record 'p leveldb =
  ldb_open :: "string \<Rightarrow> 'p option"
  ldb_get :: "'p \<Rightarrow> string \<Rightarrow> string option"
  ldb_put :: "'p \<Rightarrow> string \<Rightarrow> string \<Rightarrow> 'p"
  ldb_delete :: "'p \<Rightarrow> string \<Rightarrow> 'p"

definition leveldb_ok :: "'p leveldb \<Rightarrow> bool" where
  "leveldb_ok L \<longleftrightarrow>
     (\<forall>t. ldb_open L t \<noteq> None) \<and>
     (\<forall>p k v k'. ldb_get L (ldb_put L p k v) k' = (if k' = k then Some v else ldb_get L p k')) \<and>
     (\<forall>p k k'. ldb_get L (ldb_delete L p k) k' = (if k' = k then None else ldb_get L p k'))"

type_synonym 'p level_db_storage = "(string, 'p) hash_map"

text \<open>\<^verbatim>\<open>getTable\<close>: open the partition on first use and remember it; the second test under the lock
  is for a concurrent opener.\<close>

definition getTable ::
  "(string \<Rightarrow> nat) \<Rightarrow> 'p leveldb \<Rightarrow> 'p level_db_storage \<Rightarrow> string \<Rightarrow> ('p \<times> 'p level_db_storage) option" where
  "getTable hash L db table =
     (case hm_lookup hash db table of
        Some p \<Rightarrow> Some (p, db)
      | None \<Rightarrow> (case ldb_open L table of
                  None \<Rightarrow> None
                | Some p \<Rightarrow> Some (p, hm_assign hash db table p)))"

definition ldb_selectDB ::
  "(string \<Rightarrow> nat) \<Rightarrow> 'p leveldb \<Rightarrow> 'p level_db_storage \<Rightarrow> string \<Rightarrow> string \<Rightarrow>
     (string \<times> 'p level_db_storage) option" where
  "ldb_selectDB hash L db key table =
     do {
       (partition, db1) \<leftarrow> getTable hash L db table;
       Some (case ldb_get L partition key of None \<Rightarrow> [] | Some value \<Rightarrow> value, db1)
     }"

definition ldb_removeWriteSet ::
  "(string \<Rightarrow> nat) \<Rightarrow> 'p leveldb \<Rightarrow> 'p level_db_storage \<Rightarrow> string \<Rightarrow> string \<Rightarrow> 'p level_db_storage option" where
  "ldb_removeWriteSet hash L db key table =
     do {
       (partition, db1) \<leftarrow> getTable hash L db table;
       Some (hm_assign hash db1 table (ldb_delete L partition key))
     }"

definition ldb_updateWriteSet ::
  "(string \<Rightarrow> nat) \<Rightarrow> 'p leveldb \<Rightarrow> 'p level_db_storage \<Rightarrow> string \<Rightarrow> string \<Rightarrow> string \<Rightarrow>
     'p level_db_storage option" where
  "ldb_updateWriteSet hash L db key value table =
     do {
       (partition, db1) \<leftarrow> getTable hash L db table;
       Some (hm_assign hash db1 table (ldb_put L partition key value))
     }"

definition ldb_createTable :: "'p level_db_storage \<Rightarrow> string \<Rightarrow> string \<Rightarrow> string \<Rightarrow> 'p level_db_storage" where
  "ldb_createTable db tname key value = db"

definition level_db_ops :: "(string \<Rightarrow> nat) \<Rightarrow> 'p leveldb \<Rightarrow> 'p level_db_storage storage_ops" where
  "level_db_ops hash L =
     \<lparr>st_createTable = ldb_createTable, st_select = ldb_selectDB hash L,
      st_remove = ldb_removeWriteSet hash L, st_update = ldb_updateWriteSet hash L\<rparr>"

definition ldb_view :: "(string \<Rightarrow> nat) \<Rightarrow> 'p leveldb \<Rightarrow> 'p level_db_storage \<Rightarrow> cell \<Rightarrow> string" where
  "ldb_view hash L db c =
     (case getTable hash L db (fst c) of
        None \<Rightarrow> []
      | Some (p, _) \<Rightarrow> (case ldb_get L p (snd c) of None \<Rightarrow> [] | Some v \<Rightarrow> v))"

lemma getTable_ok:
  assumes "leveldb_ok L" and "hm_inv hash db"
  shows "\<exists>p db1. getTable hash L db t = Some (p, db1) \<and> hm_inv hash db1 \<and>
    hm_lookup hash db1 t = Some p \<and> ldb_view hash L db1 = ldb_view hash L db \<and>
    (\<forall>p' t' k'. ldb_view hash L (hm_assign hash db1 t p') (t', k') =
       (if t' = t then (case ldb_get L p' k' of None \<Rightarrow> [] | Some v \<Rightarrow> v)
        else ldb_view hash L db (t', k')))"
proof -
  obtain q where "ldb_open L t = Some q"
    using assms(1) unfolding leveldb_ok_def by blast
  then show ?thesis
    using assms(2)
    by (cases "hm_lookup hash db t")
      (auto simp: getTable_def ldb_view_def map_laws fun_eq_iff split: option.splits)
qed

lemma leveldb_view_get:
  "getTable hash L db t = Some (p, db1) \<Longrightarrow>
     (case ldb_get L p k of None \<Rightarrow> [] | Some v \<Rightarrow> v) = ldb_view hash L db (t, k)"
  by (simp add: ldb_view_def)

text \<open>For every LevelDB that behaves as documented, the storage meets its interface.\<close>

lemma level_db_storage_ok:
  assumes "leveldb_ok L"
  shows "db_storage (level_db_ops hash L) (hm_inv hash) (ldb_view hash L) (\<lambda>c. c)"
proof (unfold_locales, goal_cases)
  case (1 s k t)
  then show ?case
    using getTable_ok[OF assms, of hash s t]
    by (auto simp: level_db_ops_def ldb_selectDB_def leveldb_view_get)
next
  case (2 s k v t)
  obtain p db1 where tab: "getTable hash L s t = Some (p, db1)" "hm_inv hash db1"
    and vw: "\<And>p' t' k'. ldb_view hash L (hm_assign hash db1 t p') (t', k') =
       (if t' = t then (case ldb_get L p' k' of None \<Rightarrow> [] | Some v \<Rightarrow> v)
        else ldb_view hash L s (t', k'))"
    using getTable_ok[OF assms 2] by blast
  show ?case
    using assms tab
    by (auto simp: level_db_ops_def ldb_updateWriteSet_def fun_eq_iff vw map_laws leveldb_ok_def
        leveldb_view_get[OF tab(1)])
next
  case (3 s n c1 c2)
  then show ?case by (simp add: level_db_ops_def ldb_createTable_def)
next
  case (4 s k t)
  obtain p db1 where tab: "getTable hash L s t = Some (p, db1)" "hm_inv hash db1"
    and vw: "\<And>p' t' k'. ldb_view hash L (hm_assign hash db1 t p') (t', k') =
       (if t' = t then (case ldb_get L p' k' of None \<Rightarrow> [] | Some v \<Rightarrow> v)
        else ldb_view hash L s (t', k'))"
    using getTable_ok[OF assms 4] by blast
  show ?case
    using assms tab
    by (auto simp: level_db_ops_def ldb_removeWriteSet_def fun_eq_iff vw map_laws leveldb_ok_def
        leveldb_view_get[OF tab(1)])
qed (simp add: inj_on_def)

locale level_db_lib =
  fixes L :: "'p leveldb" and hash :: "string \<Rightarrow> nat"
  assumes lib_ok: "leveldb_ok L"

sublocale level_db_lib \<subseteq> ldb: db_storage "level_db_ops hash L" "hm_inv hash" "ldb_view hash L" "\<lambda>c. c"
  by (rule level_db_storage_ok[OF lib_ok])

text \<open>An in-memory library with the documented behaviour: a partition is an association list.\<close>

definition mem_leveldb :: "(string \<times> string) list leveldb" where
  "mem_leveldb =
     \<lparr>ldb_open = (\<lambda>_. Some []), ldb_get = map_of, ldb_put = (\<lambda>p k v. AList.update k v p),
      ldb_delete = (\<lambda>p k. AList.delete k p)\<rparr>"

lemma mem_leveldb_ok: "leveldb_ok mem_leveldb"
  by (auto simp: leveldb_ok_def mem_leveldb_def update_conv delete_conv)

interpretation mem: level_db_lib mem_leveldb hash for hash
  by unfold_locales (rule mem_leveldb_ok)

section \<open>DatabaseImpl\<close>

text \<open>
  \<^verbatim>\<open>rwSetBuffer\<close> holds the address of a transaction's read-write set; the set is complete when it is
  buffered and is not changed before the commit, so the buffer keeps its value. The two buffers are
  hash maps keyed by the transaction id; they are used as maps only.
\<close>

record 's database =
  commitPhase :: bool
  storage :: 's
  rwSetBuffer :: "tid_size_t \<rightharpoonup> kvrwset"
  tableListBuffer :: "tid_size_t \<rightharpoonup> orm_table list"

definition newDatabaseImpl :: "'s \<Rightarrow> 's database" where
  "newDatabaseImpl st =
     \<lparr>commitPhase = False, storage = st, rwSetBuffer = Map.empty, tableListBuffer = Map.empty\<rparr>"

definition clearBufferThreadSafe :: "'s database \<Rightarrow> 's database" where
  "clearBufferThreadSafe db =
     (if commitPhase db
      then db\<lparr>rwSetBuffer := Map.empty, tableListBuffer := Map.empty, commitPhase := False\<rparr>
      else db)"

definition bufferUpdates ::
  "'s database \<Rightarrow> tid_size_t \<Rightarrow> kvrwset \<Rightarrow> orm_table list \<Rightarrow> bool \<times> 's database" where
  "bufferUpdates db tid rw tables =
     (let db1 = (if commitPhase db then clearBufferThreadSafe db else db)
      in (True, db1\<lparr>rwSetBuffer := (rwSetBuffer db1)(tid \<mapsto> rw),
                    tableListBuffer := (tableListBuffer db1)(tid \<mapsto> tables)\<rparr>))"

definition create_one :: "'s storage_ops \<Rightarrow> orm_table \<Rightarrow> 's \<Rightarrow> 's option" where
  "create_one S tb s =
     (if length (fieldList tb) \<noteq> 2 then None
      else do {
        f0 \<leftarrow> getField tb 0;
        f1 \<leftarrow> getField tb 1;
        Some (st_createTable S s (tableName tb) (columnName f0) (columnName f1))
      })"

definition commitUpdate ::
  "'s storage_ops \<Rightarrow> 's database \<Rightarrow> tid_size_t \<Rightarrow> (bool \<times> 's database) option" where
  "commitUpdate S db0 tid =
     (let db = db0\<lparr>commitPhase := True\<rparr>;
          tables = (case tableListBuffer db tid of None \<Rightarrow> [] | Some l \<Rightarrow> l)
      in do {
        s1 \<leftarrow> fold_opt (create_one S) tables (storage db);
        rw \<leftarrow> rwSetBuffer db tid;
        s2 \<leftarrow> fold_opt (apply_write S) (writes rw) s1;
        Some (True, db\<lparr>storage := s2, tableListBuffer := (tableListBuffer db)(tid \<mapsto> tables)\<rparr>)
      })"

definition abortUpdate :: "'s database \<Rightarrow> tid_size_t \<Rightarrow> 's database" where
  "abortUpdate db tid = db\<lparr>commitPhase := True\<rparr>"

context db_storage
begin

lemma create_tables_rows:
  "sinv s \<Longrightarrow> \<forall>tb \<in> set tbs. length (fieldList tb) = 2 \<Longrightarrow>
     \<exists>s'. fold_opt (create_one S) tbs s = Some s' \<and> sinv s' \<and> rows s' = rows s"
proof (induction tbs arbitrary: s)
  case (Cons tb tbs)
  let ?s = "st_createTable S s (tableName tb) (columnName (fieldList tb ! 0))
    (columnName (fieldList tb ! 1))"
  have s: "sinv ?s" "rows ?s = rows s"
    using create[OF Cons.prems(1)] by simp_all
  have "create_one S tb s = Some ?s"
    using Cons.prems(2) by (simp add: create_one_def getField_def)
  then show ?case
    using Cons.IH[OF s(1)] Cons.prems(2) s(2) by simp
qed simp

lemma commitUpdate_rows:
  assumes "sinv (storage db)" and "rwSetBuffer db tid = Some rw"
    and "tableListBuffer db tid = Some tbs" and "\<forall>tb \<in> set tbs. length (fieldList tb) = 2"
  shows "\<exists>db'. commitUpdate S db tid = Some (True, db') \<and> sinv (storage db') \<and>
    rows (storage db') = apply_effects (writes rw) (rows (storage db)) \<and>
    rwSetBuffer db' = rwSetBuffer db \<and> tableListBuffer db' = tableListBuffer db"
proof -
  obtain s1 where s1: "fold_opt (create_one S) tbs (storage db) = Some s1" "sinv s1"
    "rows s1 = rows (storage db)"
    using create_tables_rows[OF assms(1,4)] by blast
  obtain s2 where "fold_opt (apply_write S) (writes rw) s1 = Some s2" "sinv s2"
    "rows s2 = apply_effects (writes rw) (rows s1)"
    using apply_writes_rows[OF s1(2)] by blast
  then show ?thesis
    using assms(2,3) s1 by (auto simp: commitUpdate_def Let_def fun_eq_iff)
qed

end

end
