(* ===== verification/C_Strings.thy ===== *)
theory C_Strings
  imports Neu_Prelude
begin

text \<open>
  The parts of the C and C++ standard libraries the chaincodes compute with: \<^verbatim>\<open>std::to_string\<close>
  for integers, \<^verbatim>\<open>strtol(s, nullptr, 10)\<close>, the conversion of a \<^verbatim>\<open>long\<close> to an \<^verbatim>\<open>int\<close> and
  \<^verbatim>\<open>int\<close> arithmetic, whose overflow is undefined (\<^term>\<open>None\<close>).
\<close>

section \<open>Decimal numerals\<close>

definition digit_char :: "nat \<Rightarrow> char" where
  "digit_char d = char_of (48 + d)"

definition digit_of :: "char \<Rightarrow> nat option" where
  "digit_of c = (let n = of_char c :: nat in if 48 \<le> n \<and> n \<le> 57 then Some (n - 48) else None)"

fun to_string_nat :: "nat \<Rightarrow> string" where
  "to_string_nat n =
     (if n < 10 then [digit_char n] else to_string_nat (n div 10) @ [digit_char (n mod 10)])"

declare to_string_nat.simps [simp del]

definition to_string_int :: "int \<Rightarrow> string" where
  "to_string_int i =
     (if i < 0 then CHR ''-'' # to_string_nat (nat (- i)) else to_string_nat (nat i))"

fun dec_value :: "nat \<Rightarrow> string \<Rightarrow> nat" where
  "dec_value acc [] = acc"
| "dec_value acc (c # cs) =
     (case digit_of c of None \<Rightarrow> acc | Some d \<Rightarrow> dec_value (10 * acc + d) cs)"

definition c_isspace :: "char \<Rightarrow> bool" where
  "c_isspace c = (let n = of_char c :: nat in n = 32 \<or> (9 \<le> n \<and> n \<le> 13))"

definition long_clamp :: "int \<Rightarrow> int" where
  "long_clamp x = max (- (2 ^ 63)) (min (2 ^ 63 - 1) x)"

definition c_strtol :: "string \<Rightarrow> int" where
  "c_strtol s =
     (case dropWhile c_isspace s of
        [] \<Rightarrow> 0
      | c # cs \<Rightarrow>
          (if c = CHR ''-'' then long_clamp (- int (dec_value 0 cs))
           else if c = CHR ''+'' then long_clamp (int (dec_value 0 cs))
           else long_clamp (int (dec_value 0 (c # cs)))))"

section \<open>The type int\<close>

definition int_range :: "int \<Rightarrow> bool" where
  "int_range x \<longleftrightarrow> - (2 ^ 31) \<le> x \<and> x < 2 ^ 31"

definition long_to_int :: "int \<Rightarrow> int" where
  "long_to_int x = signed_take_bit 31 x"

definition strtol_int :: "string \<Rightarrow> int" where
  "strtol_int s = long_to_int (c_strtol s)"

definition int_op :: "int \<Rightarrow> int option" where
  "int_op x = (if int_range x then Some x else None)"

lemma long_to_int_range: "int_range (long_to_int x)"
  using signed_take_bit_int_less_exp[of 31 x] signed_take_bit_int_greater_eq_minus_exp[of 31 x]
  by (simp add: int_range_def long_to_int_def)

lemma strtol_int_range: "int_range (strtol_int s)"
  by (simp add: strtol_int_def long_to_int_range)

lemma long_to_int_id: "int_range x \<Longrightarrow> long_to_int x = x"
  unfolding int_range_def long_to_int_def by (intro signed_take_bit_int_eq_self) auto

lemma int_op_SomeD: "int_op x = Some y \<Longrightarrow> y = x \<and> int_range x"
  by (auto simp: int_op_def split: if_splits)

section \<open>Printing and reading back\<close>

lemma digit_of_digit_char [simp]: "d < 10 \<Longrightarrow> digit_of (digit_char d) = Some d"
  by (simp add: digit_of_def digit_char_def Let_def)

lemma to_string_nat_digits: "\<forall>c \<in> set (to_string_nat n). digit_of c \<noteq> None"
proof (induction n rule: to_string_nat.induct)
  case (1 n)
  show ?case
  proof (cases "n < 10")
    case True
    then show ?thesis by (simp add: to_string_nat.simps[of n])
  next
    case False
    then show ?thesis using 1 by (auto simp: to_string_nat.simps[of n])
  qed
qed

lemma to_string_nat_nonempty: "to_string_nat n \<noteq> []"
  by (subst to_string_nat.simps) simp

lemma dec_value_append:
  "\<forall>c \<in> set xs. digit_of c \<noteq> None \<Longrightarrow> dec_value acc (xs @ ys) = dec_value (dec_value acc xs) ys"
  by (induction xs arbitrary: acc) (auto split: option.splits)

lemma dec_value_to_string: "dec_value 0 (to_string_nat n) = n"
proof (induction n rule: to_string_nat.induct)
  case (1 n)
  show ?case
  proof (cases "n < 10")
    case True
    then show ?thesis by (simp add: to_string_nat.simps[of n])
  next
    case False
    then have "dec_value 0 (to_string_nat n) = 10 * (n div 10) + n mod 10"
      using 1 by (simp add: to_string_nat.simps[of n] dec_value_append to_string_nat_digits)
    then show ?thesis by simp
  qed
qed

lemma digit_not_space: "digit_of c \<noteq> None \<Longrightarrow> \<not> c_isspace c \<and> c \<noteq> CHR ''-'' \<and> c \<noteq> CHR ''+''"
  by (auto simp: digit_of_def c_isspace_def Let_def split: if_splits)

lemma c_strtol_nat: "c_strtol (to_string_nat n) = long_clamp (int n)"
proof -
  obtain c cs where s: "to_string_nat n = c # cs"
    using to_string_nat_nonempty[of n] by (cases "to_string_nat n") auto
  have "digit_of c \<noteq> None" using to_string_nat_digits[of n] s by simp
  then show ?thesis
    using s digit_not_space dec_value_to_string[of n] by (simp add: c_strtol_def)
qed

lemma strtol_to_string: "int_range i \<Longrightarrow> strtol_int (to_string_int i) = i"
proof -
  assume r: "int_range i"
  have "c_strtol (to_string_int i) = long_clamp i"
    using dec_value_to_string[of "nat (- i)"] c_strtol_nat[of "nat i"]
    by (auto simp: to_string_int_def c_strtol_def c_isspace_def)
  also have "\<dots> = i" using r by (simp add: long_clamp_def int_range_def)
  finally show ?thesis by (simp add: strtol_int_def long_to_int_id r)
qed

lemma to_string_int_nonempty: "to_string_int i \<noteq> []"
  by (simp add: to_string_int_def to_string_nat_nonempty)

end
