(* ===== verification/Orm_Layer.thy ===== *)
theory Orm_Layer
  imports Storage_Layer C_Strings
begin

text \<open>
  The object mapper the chaincodes run on (\<^verbatim>\<open>src/block_server/database/orm\<close>): \<^verbatim>\<open>CCORMHelper\<close>
  collects the read-write set of one transaction, \<^verbatim>\<open>QueryImpl\<close> and \<^verbatim>\<open>LevelDBResultsIterator\<close>
  record reads, \<^verbatim>\<open>InsertImpl\<close> records writes.

  A chaincode is a state transformer over the helper and the storage that may abort the process.
  The contract the transaction executor needs of a chaincode is \<open>cc_ok\<close>: it leaves the stored
  rows alone, and what it returns and records is determined by the rows it recorded as read. Every
  operation of this theory meets it and sequencing keeps it, so a chaincode composed of them
  does too.
\<close>

section \<open>The state of a running chaincode\<close>

record cc_helper =
  h_tid :: tid_size_t
  h_readOnly :: bool
  h_rw :: kvrwset
  h_tables :: "orm_table list"

record 's cc_state =
  helper :: cc_helper
  cc_storage :: 's

type_synonym ('a, 's) cc = "'s cc_state \<Rightarrow> ('a \<times> 's cc_state) option"

definition cc_return :: "'a \<Rightarrow> ('a, 's) cc" where
  "cc_return a st = Some (a, st)"

definition cc_bind :: "('a, 's) cc \<Rightarrow> ('a \<Rightarrow> ('b, 's) cc) \<Rightarrow> ('b, 's) cc" where
  "cc_bind m k st = Option.bind (m st) (\<lambda>(a, st'). k a st')"

text \<open>An undefined operation (int overflow, a missing argument) ends the process.\<close>

definition cc_lift :: "'a option \<Rightarrow> ('a, 's) cc" where
  "cc_lift x st = map_option (\<lambda>a. (a, st)) x"

fun cc_iter :: "('a \<Rightarrow> (unit, 's) cc) \<Rightarrow> 'a list \<Rightarrow> (unit, 's) cc" where
  "cc_iter body [] = cc_return ()"
| "cc_iter body (x # xs) = cc_bind (body x) (\<lambda>_. cc_iter body xs)"

section \<open>CCORMHelper\<close>

definition newCCORMHelper :: "tid_size_t \<Rightarrow> kvrwset \<Rightarrow> bool \<Rightarrow> cc_helper" where
  "newCCORMHelper tid rw ro = \<lparr>h_tid = tid, h_readOnly = ro, h_rw = rw, h_tables = []\<rparr>"

definition ARIA_SYS_TABLE :: string where
  "ARIA_SYS_TABLE = ''aria_sys_table''"

definition add_write :: "kv_write \<Rightarrow> cc_helper \<Rightarrow> cc_helper" where
  "add_write w h = h\<lparr>h_rw := (h_rw h)\<lparr>writes := writes (h_rw h) @ [w]\<rparr>\<rparr>"

definition add_read :: "kv_read \<Rightarrow> cc_helper \<Rightarrow> cc_helper" where
  "add_read r h = h\<lparr>h_rw := (h_rw h)\<lparr>reads := reads (h_rw h) @ [r]\<rparr>\<rparr>"

text \<open>\<^verbatim>\<open>createTable\<close> returns a pointer to the new table, here its index in \<open>h_tables\<close>.\<close>

definition createTable :: "string \<Rightarrow> (nat, 's) cc" where
  "createTable tname st =
     (let h = helper st;
          w = \<lparr>w_table = ARIA_SYS_TABLE, w_key = tname,
               w_value = ''place holder of '' @ to_string_nat (unat (h_tid h)), w_is_delete = False\<rparr>;
          h1 = add_write w h
      in Some (length (h_tables h),
               st\<lparr>helper := h1\<lparr>h_tables := h_tables h1 @ [\<lparr>tableName = tname, fieldList = []\<rparr>]\<rparr>\<rparr>))"

definition table_addField :: "nat \<Rightarrow> orm_field \<Rightarrow> (unit, 's) cc" where
  "table_addField i f st =
     (let h = helper st
      in if i < length (h_tables h)
         then Some ((), st\<lparr>helper := h\<lparr>h_tables := (h_tables h)[i := addField (h_tables h ! i) f]\<rparr>\<rparr>)
         else None)"

section \<open>Queries\<close>

record orm_query =
  q_table :: string
  q_col :: string

record results_iterator =
  it_key :: string
  it_value :: string
  it_table :: string
  it_index :: int
  it_readKeys :: "string list"

definition newQuery :: "string \<Rightarrow> orm_query" where
  "newQuery tname = \<lparr>q_table = tname, q_col = []\<rparr>"

definition query_filter :: "string \<Rightarrow> string \<Rightarrow> orm_query \<Rightarrow> orm_query" where
  "query_filter attr arg q = q\<lparr>q_col := arg\<rparr>"

definition executeQuery :: "'s storage_ops \<Rightarrow> orm_query \<Rightarrow> (results_iterator, 's) cc" where
  "executeQuery S q st =
     do {
       (value, s1) \<leftarrow> st_select S (cc_storage st) (q_col q) (q_table q);
       Some (\<lparr>it_key = q_col q, it_value = value, it_table = q_table q, it_index = 0, it_readKeys = []\<rparr>,
             st\<lparr>cc_storage := s1\<rparr>)
     }"

definition it_hasNext :: "results_iterator \<Rightarrow> bool" where
  "it_hasNext it = (1 - it_index it \<noteq> 0)"

definition it_next :: "results_iterator \<Rightarrow> bool \<times> results_iterator" where
  "it_next it =
     (if it_hasNext it then (it_index it + 1 \<noteq> 0, it\<lparr>it_index := it_index it + 1\<rparr>) else (False, it))"

definition it_getString :: "string \<Rightarrow> results_iterator \<Rightarrow> (string \<times> results_iterator, 's) cc" where
  "it_getString attr it st =
     (let (it1, st1) =
        (if it_key it \<notin> set (it_readKeys it)
         then (it\<lparr>it_readKeys := it_key it # it_readKeys it\<rparr>,
               st\<lparr>helper := add_read \<lparr>r_table = it_table it, r_key = it_key it, r_value = it_value it\<rparr>
                              (helper st)\<rparr>)
         else (it, st))
      in Some ((if attr = ''key'' then it_key it else it_value it, it1), st1))"

section \<open>Inserts\<close>

record orm_insert =
  ins_table :: string
  ins_key :: string

definition newInsert :: "string \<Rightarrow> (orm_insert, 's) cc" where
  "newInsert tname st =
     (if h_readOnly (helper st) then None else Some (\<lparr>ins_table = tname, ins_key = []\<rparr>, st))"

definition insert_set :: "string \<Rightarrow> string \<Rightarrow> orm_insert \<Rightarrow> (bool \<times> orm_insert, 's) cc" where
  "insert_set attr value ins st =
     (if attr = ''key'' then Some ((True, ins\<lparr>ins_key := value\<rparr>), st)
      else if attr = ''value'' then
        (if list_ex (\<lambda>w. w_key w = ins_key ins) (writes (h_rw (helper st))) then None
         else Some ((True, ins),
                st\<lparr>helper := add_write \<lparr>w_table = ins_table ins, w_key = ins_key ins, w_value = value,
                                        w_is_delete = False\<rparr> (helper st)\<rparr>))
      else Some ((False, ins), st))"

section \<open>The contract of a chaincode\<close>

definition reads_in :: "'s cc_state \<Rightarrow> cell set" where
  "reads_in st = set (read_cells (h_rw (helper st)))"

definition cc_ok :: "('s \<Rightarrow> bool) \<Rightarrow> ('s \<Rightarrow> cell \<Rightarrow> string) \<Rightarrow> ('a, 's) cc \<Rightarrow> bool" where
  "cc_ok sinv vw m \<longleftrightarrow>
     (\<forall>st a st'. sinv (cc_storage st) \<longrightarrow> m st = Some (a, st') \<longrightarrow>
        sinv (cc_storage st') \<and> vw (cc_storage st') = vw (cc_storage st) \<and>
        reads_in st \<subseteq> reads_in st' \<and>
        h_tid (helper st') = h_tid (helper st) \<and> h_readOnly (helper st') = h_readOnly (helper st) \<and>
        (\<forall>st2. sinv (cc_storage st2) \<longrightarrow> helper st2 = helper st \<longrightarrow>
           (\<forall>c \<in> reads_in st'. vw (cc_storage st2) c = vw (cc_storage st) c) \<longrightarrow>
           (\<exists>st2'. m st2 = Some (a, st2') \<and> helper st2' = helper st' \<and>
                   sinv (cc_storage st2') \<and> vw (cc_storage st2') = vw (cc_storage st2))))"

lemma cc_okD:
  assumes "cc_ok sinv vw m" and "sinv (cc_storage st)" and "m st = Some (a, st')"
  shows "sinv (cc_storage st')" and "vw (cc_storage st') = vw (cc_storage st)"
    and "reads_in st \<subseteq> reads_in st'" and "h_tid (helper st') = h_tid (helper st)"
    and "h_readOnly (helper st') = h_readOnly (helper st)"
  using assms unfolding cc_ok_def by blast+

lemma cc_ok_rerun:
  assumes "cc_ok sinv vw m" and "sinv (cc_storage st)" and "m st = Some (a, st')"
    and "sinv (cc_storage st2)" and "helper st2 = helper st"
    and "\<forall>c \<in> reads_in st'. vw (cc_storage st2) c = vw (cc_storage st) c"
  obtains st2' where "m st2 = Some (a, st2')" and "helper st2' = helper st'"
    and "sinv (cc_storage st2')" and "vw (cc_storage st2') = vw (cc_storage st2)"
  using assms unfolding cc_ok_def by blast

named_theorems cc_intros

lemma cc_ok_return [cc_intros]: "cc_ok sinv vw (cc_return a)"
  by (auto simp: cc_ok_def cc_return_def)

lemma cc_ok_lift [cc_intros]: "cc_ok sinv vw (cc_lift x)"
  by (auto simp: cc_ok_def cc_lift_def)

lemma cc_ok_bind [cc_intros]:
  assumes m: "cc_ok sinv vw m" and k: "\<And>a. cc_ok sinv vw (k a)"
  shows "cc_ok sinv vw (cc_bind m k)"
  unfolding cc_ok_def
proof (intro allI impI)
  fix st b st''
  assume inv: "sinv (cc_storage st)" and run: "cc_bind m k st = Some (b, st'')"
  from run obtain a st' where m1: "m st = Some (a, st')" and k1: "k a st' = Some (b, st'')"
    by (auto simp: cc_bind_def Option.bind_eq_Some_conv)
  note A = cc_okD[OF m inv m1]
  note B = cc_okD[OF k A(1) k1]
  have rerun: "\<exists>st2'. cc_bind m k st2 = Some (b, st2') \<and> helper st2' = helper st'' \<and>
      sinv (cc_storage st2') \<and> vw (cc_storage st2') = vw (cc_storage st2)"
    if st2: "sinv (cc_storage st2)" "helper st2 = helper st"
      and agree: "\<forall>c \<in> reads_in st''. vw (cc_storage st2) c = vw (cc_storage st) c" for st2
  proof -
    have "\<forall>c \<in> reads_in st'. vw (cc_storage st2) c = vw (cc_storage st) c"
      using agree B(3) by blast
    then obtain s1 where s1: "m st2 = Some (a, s1)" "helper s1 = helper st'" "sinv (cc_storage s1)"
      "vw (cc_storage s1) = vw (cc_storage st2)"
      using cc_ok_rerun[OF m inv m1 st2] by blast
    have "\<forall>c \<in> reads_in st''. vw (cc_storage s1) c = vw (cc_storage st') c"
      using agree s1(4) A(2) by simp
    then obtain s2 where "k a s1 = Some (b, s2)" "helper s2 = helper st''" "sinv (cc_storage s2)"
      "vw (cc_storage s2) = vw (cc_storage s1)"
      using cc_ok_rerun[OF k A(1) k1 s1(3,2)] by blast
    then show ?thesis using s1 by (auto simp: cc_bind_def)
  qed
  show "sinv (cc_storage st'') \<and> vw (cc_storage st'') = vw (cc_storage st) \<and>
        reads_in st \<subseteq> reads_in st'' \<and>
        h_tid (helper st'') = h_tid (helper st) \<and> h_readOnly (helper st'') = h_readOnly (helper st) \<and>
        (\<forall>st2. sinv (cc_storage st2) \<longrightarrow> helper st2 = helper st \<longrightarrow>
           (\<forall>c \<in> reads_in st''. vw (cc_storage st2) c = vw (cc_storage st) c) \<longrightarrow>
           (\<exists>st2'. cc_bind m k st2 = Some (b, st2') \<and> helper st2' = helper st'' \<and>
              sinv (cc_storage st2') \<and> vw (cc_storage st2') = vw (cc_storage st2)))"
    using A B rerun by auto
qed

lemma cc_ok_iter [cc_intros]: "(\<And>x. cc_ok sinv vw (body x)) \<Longrightarrow> cc_ok sinv vw (cc_iter body xs)"
  by (induction xs) (auto intro: cc_intros)

lemma cc_ok_if [cc_intros]:
  "cc_ok sinv vw m1 \<Longrightarrow> cc_ok sinv vw m2 \<Longrightarrow> cc_ok sinv vw (if b then m1 else m2)"
  by simp

text \<open>Operations that only touch the helper.\<close>

lemma reads_add_write [simp]: "read_cells (h_rw (add_write w h)) = read_cells (h_rw h)"
  by (simp add: add_write_def read_cells_def)

lemma reads_add_read [simp]:
  "read_cells (h_rw (add_read r h)) = read_cells (h_rw h) @ [(r_table r, r_key r)]"
  by (simp add: add_read_def read_cells_def)

lemma helper_add [simp]:
  "h_tid (add_write w h) = h_tid h" "h_readOnly (add_write w h) = h_readOnly h"
  "h_tid (add_read r h) = h_tid h" "h_readOnly (add_read r h) = h_readOnly h"
  "h_tables (add_write w h) = h_tables h" "h_tables (add_read r h) = h_tables h"
  "writes (h_rw (add_write w h)) = writes (h_rw h) @ [w]"
  "writes (h_rw (add_read r h)) = writes (h_rw h)"
  by (simp_all add: add_write_def add_read_def)

lemma cc_ok_createTable [cc_intros]: "cc_ok sinv vw (createTable t)"
  by (auto simp: cc_ok_def createTable_def Let_def reads_in_def)

lemma cc_ok_addField [cc_intros]: "cc_ok sinv vw (table_addField i f)"
  by (auto simp: cc_ok_def table_addField_def Let_def reads_in_def split: if_splits)

lemma cc_ok_newInsert [cc_intros]: "cc_ok sinv vw (newInsert t)"
  by (auto simp: cc_ok_def newInsert_def reads_in_def split: if_splits)

lemma cc_ok_insert_set [cc_intros]: "cc_ok sinv vw (insert_set attr v ins)"
  by (auto simp: cc_ok_def insert_set_def reads_in_def split: if_splits)

text \<open>
  A query alone does not meet the contract: it reads a row without recording it until
  \<open>it_getString\<close> is called. Query and first read together do.
\<close>

definition query_read :: "'s storage_ops \<Rightarrow> orm_query \<Rightarrow> string \<Rightarrow> (string \<times> results_iterator, 's) cc" where
  "query_read S q attr = cc_bind (executeQuery S q) (it_getString attr)"

context db_storage
begin

lemma query_read_run:
  assumes "sinv (cc_storage st)"
  shows "\<exists>s'. query_read S q attr st =
      Some ((if attr = ''key'' then q_col q else rows (cc_storage st) (q_table q, q_col q),
             \<lparr>it_key = q_col q, it_value = rows (cc_storage st) (q_table q, q_col q), it_table = q_table q,
              it_index = 0, it_readKeys = [q_col q]\<rparr>),
            st\<lparr>cc_storage := s',
               helper := add_read \<lparr>r_table = q_table q, r_key = q_col q,
                 r_value = rows (cc_storage st) (q_table q, q_col q)\<rparr> (helper st)\<rparr>) \<and> sinv s' \<and> view s' = view (cc_storage st)"
proof -
  obtain s' where "st_select S (cc_storage st) (q_col q) (q_table q) =
      Some (rows (cc_storage st) (q_table q, q_col q), s')" "sinv s'" "view s' = view (cc_storage st)"
    using select[OF assms] by blast
  then show ?thesis
    by (intro exI[of _ s']) (simp add: query_read_def cc_bind_def executeQuery_def it_getString_def)
qed

lemma cc_ok_query_read [cc_intros]: "cc_ok sinv rows (query_read S q attr)"
  unfolding cc_ok_def
proof (intro allI impI, goal_cases)
  case (1 st a st')
  obtain s' where s': "query_read S q attr st =
      Some ((if attr = ''key'' then q_col q else rows (cc_storage st) (q_table q, q_col q),
             \<lparr>it_key = q_col q, it_value = rows (cc_storage st) (q_table q, q_col q), it_table = q_table q,
              it_index = 0, it_readKeys = [q_col q]\<rparr>),
            st\<lparr>cc_storage := s',
               helper := add_read \<lparr>r_table = q_table q, r_key = q_col q,
                 r_value = rows (cc_storage st) (q_table q, q_col q)\<rparr> (helper st)\<rparr>)" "sinv s'" "view s' = view (cc_storage st)"
    using query_read_run[OF 1(1)] by blast
  have "\<exists>st2'. query_read S q attr st2 = Some (a, st2') \<and> helper st2' = helper st' \<and>
      sinv (cc_storage st2') \<and> rows (cc_storage st2') = rows (cc_storage st2)"
    if "sinv (cc_storage st2)" "helper st2 = helper st"
      "\<forall>c \<in> reads_in st'. rows (cc_storage st2) c = rows (cc_storage st) c" for st2
  proof -
    have "rows (cc_storage st2) (q_table q, q_col q) = rows (cc_storage st) (q_table q, q_col q)"
      using that(3) 1(2) s'(1) by (auto simp: reads_in_def)
    then show ?thesis
      using query_read_run[OF that(1), of q attr] that(2) 1(2) s'(1) by auto
  qed
  then show ?case
    using 1(2) s' by (auto simp: reads_in_def)
qed

end

end
