(* ===== verification/Reserve_Table.thy ===== *)
theory Reserve_Table
  imports Hash_Map Transaction_Model
begin

text \<open>
  The reservation tables of the Aria protocol: the class \<^verbatim>\<open>ReserveTable\<close> and its
  implementation \<^verbatim>\<open>MockReserveTable\<close> over nested hash maps
  (\<^verbatim>\<open>src/block_server/reserve_table/mock/mock_reserve_table.cpp\<close>), and the provider that
  hands out one table per epoch (\<^verbatim>\<open>reserve_table.cpp\<close>).

  A register holds the smallest transaction id that reserved its cell, 0 while nobody did.
  The two virtual functions are the record \<open>reserve_ops\<close>; what the executor relies on is the
  locale \<open>reserve_table\<close>, interpreted at the end on the nested hash maps.
\<close>

section \<open>Registers\<close>

text \<open>
  The compare-exchange loop, run without interference: keep the old id if it is set and not
  larger, write the new one otherwise. Interleaved runs of the loop are the subject of
  \<open>Reserve_Cas\<close>.
\<close>

definition reserve_reg :: "tid_size_t \<Rightarrow> tid_size_t \<Rightarrow> tid_size_t" where
  "reserve_reg old tid = (if old \<le> tid \<and> old \<noteq> 0 then old else tid)"

text \<open>The test of the dependency analysis: the cell was reserved by a smaller id.\<close>

definition reg_earlier :: "tid_size_t \<Rightarrow> tid_size_t \<Rightarrow> bool" where
  "reg_earlier old tid \<longleftrightarrow> old < tid \<and> old \<noteq> 0"

lemma reg_earlier_zero [simp]: "\<not> reg_earlier 0 t"
  by (simp add: reg_earlier_def)

lemma reg_earlier_reserve:
  "t' \<noteq> 0 \<Longrightarrow> reg_earlier (reserve_reg old t') t \<longleftrightarrow> reg_earlier old t \<or> t' < t"
  by (auto simp: reserve_reg_def reg_earlier_def)

lemma reserve_reg_comm:
  "t \<noteq> 0 \<Longrightarrow> t' \<noteq> 0 \<Longrightarrow> reserve_reg (reserve_reg old t) t' = reserve_reg (reserve_reg old t') t"
  by (auto simp: reserve_reg_def)

lemma reserve_reg_idem: "reserve_reg (reserve_reg old t) t = reserve_reg old t"
  by (auto simp: reserve_reg_def)

section \<open>The interface of a reservation table\<close>

text \<open>
  \<open>rt_reserve\<close> and \<open>rt_analyse\<close> are the two pure virtual functions; the analysis is optional
  because an implementation may dereference a register that does not exist.
\<close>

record 'r reserve_ops =
  rt_new :: "epoch_size_t \<Rightarrow> 'r"
  rt_epoch_of :: "'r \<Rightarrow> epoch_size_t"
  rt_reserve :: "'r \<Rightarrow> kvrwset \<Rightarrow> tid_size_t \<Rightarrow> bool \<times> 'r"
  rt_analyse :: "'r \<Rightarrow> kvrwset \<Rightarrow> tid_size_t \<Rightarrow> (transaction_dependency \<times> 'r) option"

text \<open>The dependency a table must report, from the registers it holds.\<close>

definition dep_of ::
  "(cell \<Rightarrow> tid_size_t) \<Rightarrow> (cell \<Rightarrow> tid_size_t) \<Rightarrow> kvrwset \<Rightarrow> tid_size_t \<Rightarrow> transaction_dependency" where
  "dep_of rts wts rw tid =
     \<lparr>waw = list_ex (\<lambda>c. reg_earlier (wts c) tid) (write_cells rw),
      war = list_ex (\<lambda>c. reg_earlier (rts c) tid) (write_cells rw),
      raw = list_ex (\<lambda>c. reg_earlier (wts c) tid) (read_cells rw)\<rparr>"

definition reserve_all :: "'r reserve_ops \<Rightarrow> (kvrwset \<times> tid_size_t) list \<Rightarrow> 'r \<Rightarrow> 'r" where
  "reserve_all R xs r = fold (\<lambda>(rw, t) r. snd (rt_reserve R r rw t)) xs r"

locale reservation =
  fixes R :: "'r reserve_ops"
    and rinv :: "'r \<Rightarrow> bool"
    and rts :: "'r \<Rightarrow> cell \<Rightarrow> tid_size_t"
    and wts :: "'r \<Rightarrow> cell \<Rightarrow> tid_size_t"
  assumes rinv_new: "rinv (rt_new R e)"
    and epoch_new: "rt_epoch_of R (rt_new R e) = e"
    and rts_new: "rts (rt_new R e) c = 0"
    and wts_new: "wts (rt_new R e) c = 0"
    and rinv_reserve: "rinv r \<Longrightarrow> rinv (snd (rt_reserve R r rw t))"
    and epoch_reserve: "rt_epoch_of R (snd (rt_reserve R r rw t)) = rt_epoch_of R r"
    and rts_reserve: "rinv r \<Longrightarrow> rts (snd (rt_reserve R r rw t)) c =
          (if c \<in> set (read_cells rw) then reserve_reg (rts r c) t else rts r c)"
    and wts_reserve: "rinv r \<Longrightarrow> wts (snd (rt_reserve R r rw t)) c =
          (if c \<in> set (write_cells rw) then reserve_reg (wts r c) t else wts r c)"
begin

lemma rinv_reserve_all: "rinv r \<Longrightarrow> rinv (reserve_all R xs r)"
  unfolding reserve_all_def by (induction xs arbitrary: r) (auto simp: rinv_reserve)

lemma epoch_reserve_all: "rt_epoch_of R (reserve_all R xs r) = rt_epoch_of R r"
  unfolding reserve_all_def by (induction xs arbitrary: r) (auto simp: epoch_reserve)

text \<open>
  What the registers know after any number of reservations: whether somebody with a smaller
  id reserved the cell, whatever the order of the calls.
\<close>

lemma rts_reserve_all:
  assumes "rinv r" and "\<forall>(rw, t) \<in> set xs. t \<noteq> 0"
  shows "reg_earlier (rts (reserve_all R xs r) c) tid \<longleftrightarrow>
    reg_earlier (rts r c) tid \<or> (\<exists>(rw, t) \<in> set xs. c \<in> set (read_cells rw) \<and> t < tid)"
  using assms unfolding reserve_all_def
proof (induction xs arbitrary: r)
  case (Cons x xs)
  then show ?case
    by (cases x) (auto simp: rinv_reserve rts_reserve reg_earlier_reserve)
qed simp

lemma wts_reserve_all:
  assumes "rinv r" and "\<forall>(rw, t) \<in> set xs. t \<noteq> 0"
  shows "reg_earlier (wts (reserve_all R xs r) c) tid \<longleftrightarrow>
    reg_earlier (wts r c) tid \<or> (\<exists>(rw, t) \<in> set xs. c \<in> set (write_cells rw) \<and> t < tid)"
  using assms unfolding reserve_all_def
proof (induction xs arbitrary: r)
  case (Cons x xs)
  then show ?case
    by (cases x) (auto simp: rinv_reserve wts_reserve reg_earlier_reserve)
qed simp

end

locale reserve_table = reservation +
  assumes analyse: "rinv r \<Longrightarrow> \<exists>r'. rt_analyse R r rw t = Some (dep_of (rts r) (wts r) rw t, r') \<and>
          rinv r' \<and> rts r' = rts r \<and> wts r' = wts r \<and> rt_epoch_of R r' = rt_epoch_of R r"

text \<open>
  \<^verbatim>\<open>ReserveTableProvider::getReserveTable\<close>: the provider owns one table and replaces it when
  it is asked for another epoch. \<^verbatim>\<open>getHashMapReserveTable\<close> and \<^verbatim>\<open>getMVCCReserveTable\<close> differ
  only in the class they construct.
\<close>

definition getReserveTable :: "'r reserve_ops \<Rightarrow> 'r option \<Rightarrow> epoch_size_t \<Rightarrow> 'r" where
  "getReserveTable R slot epoch =
     (case slot of
        None \<Rightarrow> rt_new R epoch
      | Some r \<Rightarrow> (if epoch \<noteq> rt_epoch_of R r then rt_new R epoch else r))"

section \<open>MockReserveTable\<close>

type_synonym register_map = "(string, (string, tid_size_t) hash_map) hash_map"

record mock_reserve_table =
  rt_epoch :: epoch_size_t
  readTableList :: register_map
  writeTableList :: register_map

definition newMockReserveTable :: "epoch_size_t \<Rightarrow> mock_reserve_table" where
  "newMockReserveTable e = \<lparr>rt_epoch = e, readTableList = hm_new, writeTableList = hm_new\<rparr>"

text \<open>
  \<^verbatim>\<open>tableList[table][key]\<close>: both levels create a missing entry, the inner one with the
  value-initialised atomic 0. Storing goes through the same two references.
\<close>

definition reg_load ::
  "(string \<Rightarrow> nat) \<Rightarrow> register_map \<Rightarrow> string \<Rightarrow> string \<Rightarrow> tid_size_t \<times> register_map" where
  "reg_load hash tm table key =
     (let (inner, tm1) = hm_index hash hm_new tm table;
          (old, inner1) = hm_index hash 0 inner key
      in (old, hm_assign hash tm1 table inner1))"

definition reg_store ::
  "(string \<Rightarrow> nat) \<Rightarrow> register_map \<Rightarrow> string \<Rightarrow> string \<Rightarrow> tid_size_t \<Rightarrow> register_map" where
  "reg_store hash tm table key v =
     (let (inner, tm1) = hm_index hash hm_new tm table
      in hm_assign hash tm1 table (hm_assign hash inner key v))"

definition reserve_cell ::
  "(string \<Rightarrow> nat) \<Rightarrow> tid_size_t \<Rightarrow> cell \<Rightarrow> register_map \<Rightarrow> register_map" where
  "reserve_cell hash tid c tm =
     (let (old, tm1) = reg_load hash tm (fst c) (snd c)
      in if old \<le> tid \<and> old \<noteq> 0 then tm1 else reg_store hash tm1 (fst c) (snd c) tid)"

definition reserveRWSet ::
  "(string \<Rightarrow> nat) \<Rightarrow> mock_reserve_table \<Rightarrow> kvrwset \<Rightarrow> tid_size_t \<Rightarrow> bool \<times> mock_reserve_table" where
  "reserveRWSet hash rt rw tid =
     (True, rt\<lparr>readTableList := fold (reserve_cell hash tid) (read_cells rw) (readTableList rt),
               writeTableList := fold (reserve_cell hash tid) (write_cells rw) (writeTableList rt)\<rparr>)"

fun dep_scan ::
  "(string \<Rightarrow> nat) \<Rightarrow> tid_size_t \<Rightarrow> cell list \<Rightarrow> register_map \<Rightarrow> bool \<times> register_map" where
  "dep_scan hash tid [] tm = (False, tm)"
| "dep_scan hash tid (c # cs) tm =
     (let (old, tm1) = reg_load hash tm (fst c) (snd c)
      in if old < tid \<and> old \<noteq> 0 then (True, tm1) else dep_scan hash tid cs tm1)"

definition dependencyAnalysis ::
  "(string \<Rightarrow> nat) \<Rightarrow> mock_reserve_table \<Rightarrow> kvrwset \<Rightarrow> tid_size_t \<Rightarrow>
     transaction_dependency \<times> mock_reserve_table" where
  "dependencyAnalysis hash rt rw tid =
     (let (waw1, wt1) = dep_scan hash tid (write_cells rw) (writeTableList rt);
          (war1, rt1) = dep_scan hash tid (write_cells rw) (readTableList rt);
          (raw1, wt2) = dep_scan hash tid (read_cells rw) wt1
      in (\<lparr>waw = waw1, war = war1, raw = raw1\<rparr>,
          rt\<lparr>readTableList := rt1, writeTableList := wt2\<rparr>))"

definition mock_reserve_ops :: "(string \<Rightarrow> nat) \<Rightarrow> mock_reserve_table reserve_ops" where
  "mock_reserve_ops hash =
     \<lparr>rt_new = newMockReserveTable, rt_epoch_of = rt_epoch,
      rt_reserve = reserveRWSet hash,
      rt_analyse = (\<lambda>rt rw tid. Some (dependencyAnalysis hash rt rw tid))\<rparr>"

section \<open>The nested maps as registers\<close>

definition reg_val :: "(string \<Rightarrow> nat) \<Rightarrow> register_map \<Rightarrow> cell \<Rightarrow> tid_size_t" where
  "reg_val hash tm c =
     (case hm_lookup hash tm (fst c) of
        None \<Rightarrow> 0
      | Some inner \<Rightarrow> (case hm_lookup hash inner (snd c) of None \<Rightarrow> 0 | Some v \<Rightarrow> v))"

definition reg_inv :: "(string \<Rightarrow> nat) \<Rightarrow> register_map \<Rightarrow> bool" where
  "reg_inv hash tm \<longleftrightarrow> hm_inv hash tm \<and>
     (\<forall>table inner. hm_lookup hash tm table = Some inner \<longrightarrow> hm_inv hash inner)"

lemma reg_inv_new [simp]: "reg_inv hash hm_new"
  by (simp add: reg_inv_def)

lemma reg_val_new [simp]: "reg_val hash hm_new c = 0"
  by (simp add: reg_val_def)

lemma reg_load_spec:
  assumes "reg_inv hash tm"
  shows "fst (reg_load hash tm t k) = reg_val hash tm (t, k)"
    and "reg_val hash (snd (reg_load hash tm t k)) c = reg_val hash tm c"
    and "reg_inv hash (snd (reg_load hash tm t k))"
  using assms
  by (auto simp: reg_load_def reg_val_def reg_inv_def map_laws split_beta Let_def
      split: option.splits)

lemma reg_store_spec:
  assumes "reg_inv hash tm"
  shows "reg_val hash (reg_store hash tm t k v) c = (if c = (t, k) then v else reg_val hash tm c)"
    and "reg_inv hash (reg_store hash tm t k v)"
  using assms
  by (auto simp: reg_store_def reg_val_def reg_inv_def map_laws split_beta Let_def
      split: option.splits if_splits)

lemma reserve_cell_spec:
  assumes "reg_inv hash tm"
  shows "reg_val hash (reserve_cell hash tid c tm) c' =
      (if c' = c then reserve_reg (reg_val hash tm c) tid else reg_val hash tm c')"
    and "reg_inv hash (reserve_cell hash tid c tm)"
  using assms reg_load_spec[OF assms] reg_store_spec
  by (auto simp: reserve_cell_def reserve_reg_def split_beta Let_def)

lemma fold_reserve_cell_inv:
  "reg_inv hash tm \<Longrightarrow> reg_inv hash (fold (reserve_cell hash tid) cs tm)"
  by (induction cs arbitrary: tm) (auto simp: reserve_cell_spec)

lemma fold_reserve_cell_val:
  "reg_inv hash tm \<Longrightarrow> reg_val hash (fold (reserve_cell hash tid) cs tm) c =
     (if c \<in> set cs then reserve_reg (reg_val hash tm c) tid else reg_val hash tm c)"
  by (induction cs arbitrary: tm) (auto simp: reserve_cell_spec reserve_reg_idem)

lemma dep_scan_all:
  "reg_inv hash tm \<Longrightarrow>
     fst (dep_scan hash tid cs tm) = list_ex (\<lambda>c. reg_earlier (reg_val hash tm c) tid) cs \<and>
     reg_val hash (snd (dep_scan hash tid cs tm)) = reg_val hash tm \<and>
     reg_inv hash (snd (dep_scan hash tid cs tm))"
proof (induction cs arbitrary: tm)
  case (Cons c cs)
  note load = reg_load_spec[OF Cons.prems, of "fst c" "snd c"]
  have same: "reg_val hash (snd (reg_load hash tm (fst c) (snd c))) = reg_val hash tm"
    by (rule ext) (rule load(2))
  show ?case
    using Cons.IH[OF load(3)] load(1,3)
    by (auto simp: split_beta Let_def reg_earlier_def same)
qed simp

lemmas dep_scan_spec = dep_scan_all [THEN conjunct1] dep_scan_all [THEN conjunct2, THEN conjunct1]
  dep_scan_all [THEN conjunct2, THEN conjunct2]

definition mock_rinv :: "(string \<Rightarrow> nat) \<Rightarrow> mock_reserve_table \<Rightarrow> bool" where
  "mock_rinv hash rt \<longleftrightarrow> reg_inv hash (readTableList rt) \<and> reg_inv hash (writeTableList rt)"

interpretation mock_rt: reserve_table "mock_reserve_ops hash" "mock_rinv hash"
  "\<lambda>rt. reg_val hash (readTableList rt)" "\<lambda>rt. reg_val hash (writeTableList rt)" for hash
  by unfold_locales
    (auto simp: mock_reserve_ops_def mock_rinv_def newMockReserveTable_def reserveRWSet_def
      fold_reserve_cell_inv fold_reserve_cell_val dependencyAnalysis_def dep_of_def
      dep_scan_spec split_beta Let_def)

section \<open>The analysis is exact\<close>

lemma earlier_meets:
  "(\<exists>c \<in> set cs. \<exists>(rw', t) \<in> set xs. c \<in> set (f rw') \<and> t < tid) \<longleftrightarrow>
     (\<exists>(rw', t) \<in> set xs. t < tid \<and> set cs \<inter> set (f rw') \<noteq> {})"
  by (auto simp: split_beta)

text \<open>
  C3. The reservation table reports exactly the conflicts with earlier transactions: after any
  reservations, in any order, on a new table, the analysis of a read-write set finds a
  write-after-write (write-after-read, read-after-write) dependency if and only if a transaction
  with a smaller id reserved a write (read, write) of one of its written (written, read) cells.
\<close>

theorem dependencyAnalysis_exact:
  assumes "\<forall>(rw', t) \<in> set xs. t \<noteq> 0"
  shows "fst (dependencyAnalysis hash (reserve_all (mock_reserve_ops hash) xs (newMockReserveTable e)) rw tid) =
    \<lparr>waw = (\<exists>(rw', t) \<in> set xs. t < tid \<and> set (write_cells rw) \<inter> set (write_cells rw') \<noteq> {}),
     war = (\<exists>(rw', t) \<in> set xs. t < tid \<and> set (write_cells rw) \<inter> set (read_cells rw') \<noteq> {}),
     raw = (\<exists>(rw', t) \<in> set xs. t < tid \<and> set (read_cells rw) \<inter> set (write_cells rw') \<noteq> {})\<rparr>"
proof -
  let ?fresh = "newMockReserveTable e" and ?r = "reserve_all (mock_reserve_ops hash) xs (newMockReserveTable e)"
  have new: "newMockReserveTable e = rt_new (mock_reserve_ops hash) e" by (simp add: mock_reserve_ops_def)
  have inv: "mock_rinv hash ?fresh" unfolding new by (rule mock_rt.rinv_new)
  have zero: "reg_val hash (readTableList ?fresh) c = 0" "reg_val hash (writeTableList ?fresh) c = 0" for c
    by (simp_all add: newMockReserveTable_def)
  have "fst (dependencyAnalysis hash ?r rw tid) =
      dep_of (reg_val hash (readTableList ?r)) (reg_val hash (writeTableList ?r)) rw tid"
    using mock_rt.analyse[OF mock_rt.rinv_reserve_all[OF inv], of xs rw tid] by (auto simp: mock_reserve_ops_def)
  then show ?thesis
    unfolding dep_of_def list_ex_iff mock_rt.rts_reserve_all[OF inv assms] mock_rt.wts_reserve_all[OF inv assms]
    by (simp only: zero reg_earlier_zero earlier_meets simp_thms)
qed

lemma dependencyAnalysis_exact_witness:
  "raw (fst (dependencyAnalysis length
      (reserve_all (mock_reserve_ops length)
        [(\<lparr>reads = [], writes = [\<lparr>w_table = ''t'', w_key = ''k'', w_value = [], w_is_delete = False\<rparr>]\<rparr>, 4)]
        (newMockReserveTable 1))
      \<lparr>reads = [\<lparr>r_table = ''t'', r_key = ''k'', r_value = []\<rparr>], writes = []\<rparr> 6))"
  by (subst dependencyAnalysis_exact) (simp_all add: read_cells_def write_cells_def)

end
