(* ===== verification/Aria_Spec.thy ===== *)
theory Aria_Spec
  imports Storage_Layer
begin

text \<open>
  What the Aria protocol promises for one epoch, independently of tables, workers and order: a
  set-level specification of the dependencies, the verdict on each executed transaction, and a
  serial order of those that commit. \<open>Executor\<close> proves that the code computes this verdict.

  The transactions here have been executed: \<open>kvRWSet\<close> is filled and a failed chaincode has set
  \<open>ABORT_NO_RETRY\<close>.
\<close>

section \<open>Dependencies and verdicts\<close>

definition failed :: "transaction \<Rightarrow> bool" where
  "failed x \<longleftrightarrow> transactionResult x = ABORT_NO_RETRY"

definition shares :: "cell list \<Rightarrow> cell list \<Rightarrow> bool" where
  "shares as bs = list_ex (\<lambda>c. c \<in> set bs) as"

definition reads_of :: "transaction \<Rightarrow> cell list" where
  "reads_of x = read_cells (kvRWSet x)"

definition writes_of :: "transaction \<Rightarrow> cell list" where
  "writes_of x = write_cells (kvRWSet x)"

definition spec_dep :: "transaction list \<Rightarrow> transaction \<Rightarrow> transaction_dependency" where
  "spec_dep xs x =
     (let earlier = filter (\<lambda>y. \<not> failed y \<and> tx_tid y < tx_tid x) xs
      in \<lparr>waw = list_ex (\<lambda>y. shares (writes_of x) (writes_of y)) earlier,
          war = list_ex (\<lambda>y. shares (writes_of x) (reads_of y)) earlier,
          raw = list_ex (\<lambda>y. shares (reads_of x) (writes_of y)) earlier\<rparr>)"

definition spec_result :: "transaction list \<Rightarrow> transaction \<Rightarrow> transaction_result" where
  "spec_result xs x =
     (if failed x then ABORT_NO_RETRY
      else if dep_commits (spec_dep xs x) then COMMIT else ABORT)"

definition spec_committed :: "transaction list \<Rightarrow> transaction list" where
  "spec_committed xs = filter (\<lambda>x. spec_result xs x = COMMIT) xs"

text \<open>
  The serial order: by ascending id, a transaction that read a row some earlier one writes goes
  before all earlier ones, any other after them.
\<close>

definition serial_place :: "transaction list \<Rightarrow> transaction \<Rightarrow> transaction list \<Rightarrow> transaction list" where
  "serial_place xs x acc = (if raw (spec_dep xs x) then x # acc else acc @ [x])"

definition serial_order :: "transaction list \<Rightarrow> transaction list" where
  "serial_order xs = fold (serial_place xs) (sort_key tx_tid (spec_committed xs)) []"

definition batch_rows :: "transaction list \<Rightarrow> (cell \<Rightarrow> string) \<Rightarrow> cell \<Rightarrow> string" where
  "batch_rows xs v = fold (\<lambda>x. apply_effects (writes (kvRWSet x))) xs v"

section \<open>The specification does not depend on the order of the transactions\<close>

lemma shares_iff: "shares as bs \<longleftrightarrow> set as \<inter> set bs \<noteq> {}"
  by (auto simp: shares_def list_ex_iff)

lemma spec_dep_sel:
  "waw (spec_dep xs x) \<longleftrightarrow> (\<exists>y \<in> set xs. \<not> failed y \<and> tx_tid y < tx_tid x \<and>
     set (writes_of x) \<inter> set (writes_of y) \<noteq> {})"
  "war (spec_dep xs x) \<longleftrightarrow> (\<exists>y \<in> set xs. \<not> failed y \<and> tx_tid y < tx_tid x \<and>
     set (writes_of x) \<inter> set (reads_of y) \<noteq> {})"
  "raw (spec_dep xs x) \<longleftrightarrow> (\<exists>y \<in> set xs. \<not> failed y \<and> tx_tid y < tx_tid x \<and>
     set (reads_of x) \<inter> set (writes_of y) \<noteq> {})"
  by (auto simp: spec_dep_def Let_def list_ex_iff shares_iff)

lemma spec_dep_set: "set xs = set ys \<Longrightarrow> spec_dep xs x = spec_dep ys x"
  by (simp add: transaction_dependency.equality spec_dep_sel)

lemma spec_result_set: "set xs = set ys \<Longrightarrow> spec_result xs x = spec_result ys x"
  by (simp add: spec_result_def spec_dep_set[of xs ys])

lemma spec_committed_mset: "mset xs = mset ys \<Longrightarrow> mset (spec_committed xs) = mset (spec_committed ys)"
proof -
  assume perm: "mset xs = mset ys"
  then have "set xs = set ys" by (rule mset_eq_setD)
  then show ?thesis
    using perm by (simp add: spec_committed_def spec_result_set[of xs ys] mset_filter)
qed

lemma committedD:
  assumes "x \<in> set (spec_committed xs)"
  shows "x \<in> set xs" and "\<not> failed x" and "\<not> waw (spec_dep xs x)"
    and "\<not> war (spec_dep xs x) \<or> \<not> raw (spec_dep xs x)"
  using assms by (auto simp: spec_committed_def spec_result_def dep_commits_def split: if_splits)

text \<open>Committed transactions never write the same row.\<close>

lemma committed_disjoint:
  assumes "x \<in> set (spec_committed xs)" and "y \<in> set (spec_committed xs)"
    and "tx_tid x \<noteq> tx_tid y"
  shows "set (writes_of x) \<inter> set (writes_of y) = {}"
proof (cases "tx_tid y < tx_tid x")
  case True
  then show ?thesis
    using committedD(3)[OF assms(1)] committedD(1,2)[OF assms(2)] by (auto simp: spec_dep_sel)
next
  case False
  then have "tx_tid x < tx_tid y" using assms(3) by simp
  then show ?thesis
    using committedD(3)[OF assms(2)] committedD(1,2)[OF assms(1)] by (auto simp: spec_dep_sel)
qed

section \<open>Writes to different rows commute\<close>

definition pairwise_disjoint :: "transaction list \<Rightarrow> bool" where
  "pairwise_disjoint xs \<longleftrightarrow>
     (\<forall>x \<in> set xs. \<forall>y \<in> set xs. x \<noteq> y \<longrightarrow> set (writes_of x) \<inter> set (writes_of y) = {})"

lemma apply_effects_commute:
  assumes "set (write_cells a) \<inter> set (write_cells b) = {}"
  shows "apply_effects (writes a) (apply_effects (writes b) v) =
    apply_effects (writes b) (apply_effects (writes a) v)"
proof
  fix c
  consider "c \<in> set (write_cells a)" "c \<notin> set (write_cells b)"
    | "c \<in> set (write_cells b)" "c \<notin> set (write_cells a)"
    | "c \<notin> set (write_cells a)" "c \<notin> set (write_cells b)"
    using assms by blast
  then show "apply_effects (writes a) (apply_effects (writes b) v) c =
      apply_effects (writes b) (apply_effects (writes a) v) c"
    by cases (auto simp: apply_effects_other fst_write_effect intro!: apply_effects_cong)
qed

lemma batch_rows_perm:
  assumes "pairwise_disjoint xs" and "mset xs = mset ys"
  shows "batch_rows xs v = batch_rows ys v"
  unfolding batch_rows_def
proof (rule fold_perm_invariant[OF _ assms(2)])
  fix x y v
  assume "x \<in> set xs" "y \<in> set xs"
  then show "apply_effects (writes (kvRWSet x)) (apply_effects (writes (kvRWSet y)) v) =
      apply_effects (writes (kvRWSet y)) (apply_effects (writes (kvRWSet x)) v)"
    using assms(1) apply_effects_commute[of "kvRWSet x" "kvRWSet y" v]
    by (cases "x = y") (auto simp: pairwise_disjoint_def writes_of_def)
qed

lemma batch_rows_other:
  "(\<forall>x \<in> set xs. c \<notin> set (writes_of x)) \<Longrightarrow> batch_rows xs v c = v c"
  unfolding batch_rows_def
  by (induction xs arbitrary: v) (auto simp: apply_effects_other fst_write_effect writes_of_def)

section \<open>The serial order\<close>

lemma fold_serial_place_mset:
  "mset (fold (serial_place xs) l acc) = mset l + mset acc"
  by (induction l arbitrary: acc) (auto simp: serial_place_def)

lemma serial_order_mset: "mset (serial_order xs) = mset (spec_committed xs)"
  by (simp add: serial_order_def fold_serial_place_mset)

lemma serial_order_set: "set (serial_order xs) = set (spec_committed xs)"
  using serial_order_mset mset_eq_setD by blast

text \<open>No transaction of the order reads a row that one before it writes.\<close>

definition no_read_after_write :: "transaction list \<Rightarrow> bool" where
  "no_read_after_write l = sorted_wrt (\<lambda>x y. set (writes_of x) \<inter> set (reads_of y) = {}) l"

lemma serial_place_no_raw:
  assumes "no_read_after_write acc"
    and x: "x \<in> set (spec_committed xs)"
    and smaller: "\<forall>y \<in> set acc. y \<in> set xs \<and> \<not> failed y \<and> tx_tid y < tx_tid x"
  shows "no_read_after_write (serial_place xs x acc)"
proof (cases "raw (spec_dep xs x)")
  case True
  then have "\<not> war (spec_dep xs x)" using committedD(4)[OF x] by simp
  then have "\<forall>y \<in> set acc. set (writes_of x) \<inter> set (reads_of y) = {}"
    using smaller by (auto simp: spec_dep_sel)
  then show ?thesis
    using True assms(1) by (simp add: no_read_after_write_def serial_place_def)
next
  case False
  then have "\<forall>y \<in> set acc. set (reads_of x) \<inter> set (writes_of y) = {}"
    using smaller by (auto simp: spec_dep_sel)
  then show ?thesis
    using False assms(1)
    by (auto simp: no_read_after_write_def serial_place_def sorted_wrt_append)
qed

lemma serial_place_set: "set (serial_place xs x acc) = insert x (set acc)"
  by (auto simp: serial_place_def)

lemma fold_serial_place_no_raw:
  assumes "no_read_after_write acc" and "set l \<subseteq> set (spec_committed xs)"
    and "sorted_wrt (\<lambda>x y. tx_tid x < tx_tid y) l"
    and "\<forall>y \<in> set acc. y \<in> set (spec_committed xs) \<and> (\<forall>x \<in> set l. tx_tid y < tx_tid x)"
  shows "no_read_after_write (fold (serial_place xs) l acc)"
  using assms
proof (induction l arbitrary: acc)
  case (Cons x l)
  have step: "no_read_after_write (serial_place xs x acc)"
    using Cons.prems committedD(1,2)
    by (intro serial_place_no_raw) auto
  have "no_read_after_write (fold (serial_place xs) l (serial_place xs x acc))"
    using Cons.prems by (intro Cons.IH[OF step]) (auto simp: serial_place_set)
  then show ?case by simp
qed simp

lemma sorted_tid_strict:
  assumes "distinct (map tx_tid xs)"
  shows "sorted_wrt (\<lambda>x y. tx_tid x < tx_tid y) (sort_key tx_tid (spec_committed xs))"
proof -
  let ?l = "sort_key tx_tid (spec_committed xs)"
  have "distinct (map tx_tid (spec_committed xs))"
    using assms by (simp add: spec_committed_def distinct_map_filter)
  then have "distinct (map tx_tid ?l)"
    by (metis mset_map mset_sort mset_eq_imp_distinct_iff)
  moreover have "sorted (map tx_tid ?l)" by simp
  ultimately have "sorted_wrt (<) (map tx_tid ?l)"
    by (simp add: strict_sorted_iff)
  then show ?thesis by (simp add: sorted_wrt_map)
qed

lemma serial_order_no_raw:
  assumes "distinct (map tx_tid xs)"
  shows "no_read_after_write (serial_order xs)"
  unfolding serial_order_def
  by (rule fold_serial_place_no_raw)
    (auto simp: no_read_after_write_def sorted_tid_strict[OF assms])

lemma committed_pairwise_disjoint:
  assumes "distinct (map tx_tid xs)"
  shows "pairwise_disjoint (spec_committed xs)"
  unfolding pairwise_disjoint_def
proof (intro ballI impI)
  fix x y
  assume xy: "x \<in> set (spec_committed xs)" "y \<in> set (spec_committed xs)" "x \<noteq> y"
  then have "tx_tid x \<noteq> tx_tid y"
    using assms committedD(1) by (metis distinct_map inj_on_def)
  then show "set (writes_of x) \<inter> set (writes_of y) = {}"
    by (rule committed_disjoint[OF xy(1,2)])
qed

text \<open>
  Applying the writes of the committed transactions in any order gives the rows that the
  serial order gives.
\<close>

lemma batch_rows_serial:
  assumes "distinct (map tx_tid xs)" and "mset ys = mset (spec_committed xs)"
  shows "batch_rows ys v = batch_rows (serial_order xs) v"
proof (rule batch_rows_perm)
  show "mset ys = mset (serial_order xs)" using assms(2) by (simp add: serial_order_mset)
  have "set ys = set (spec_committed xs)" using assms(2) by (rule mset_eq_setD)
  then show "pairwise_disjoint ys"
    using committed_pairwise_disjoint[OF assms(1)] by (simp add: pairwise_disjoint_def)
qed

end
