(* ===== verification/Executor.thy ===== *)
theory Executor
  imports Orm_Layer Reserve_Table Aria_Spec
begin

text \<open>
  The transaction executors (\<^verbatim>\<open>src/block_server/worker/transaction_executor.cpp\<close> and
  \<^verbatim>\<open>impl/*_executor*.cpp\<close>): the execution phase runs the chaincode of every transaction and
  reserves its read-write set, the commit phase reads the dependencies off the reservation table
  and writes back the transactions that may commit.

  The virtual calls are parameters: \<open>S\<close> the storage, \<open>R\<close> the reservation table and \<open>cc\<close> the
  chaincode \<^verbatim>\<open>ChaincodeManager::getChaincodeInstance\<close> creates. The locale \<open>aria_node\<close> collects
  what is needed of the three and proves that execution and commit implement \<open>Aria_Spec\<close>.
\<close>

section \<open>Running a chaincode\<close>

type_synonym 's chaincode = "tid_size_t \<Rightarrow> payload \<Rightarrow> (int, 's) cc"

record ('s, 'r) exec_env =
  ee_db :: "'s database"
  ee_slot :: "'r option"

text \<open>
  \<^verbatim>\<open>ChaincodeObject\<close> builds a helper on the transaction's read-write set and the storage of the
  database; \<open>run_chaincode\<close> returns what \<^verbatim>\<open>InvokeChaincode\<close> returns and leaves the helper's tables
  for its destructor.
\<close>

definition cc_start :: "transaction \<Rightarrow> 's \<Rightarrow> 's cc_state" where
  "cc_start tx s =
     \<lparr>helper = newCCORMHelper (tx_tid tx) (kvRWSet tx) (readOnlyFlag tx), cc_storage = s\<rparr>"

definition run_chaincode ::
  "'s chaincode \<Rightarrow> transaction \<Rightarrow> 's database \<Rightarrow>
     (int \<times> transaction \<times> orm_table list \<times> 's database) option" where
  "run_chaincode cc tx db =
     do {
       (ret, st) \<leftarrow> cc (tx_tid tx) (transactionPayload tx) (cc_start tx (storage db));
       Some (ret, tx\<lparr>kvRWSet := h_rw (helper st)\<rparr>, h_tables (helper st), db\<lparr>storage := cc_storage st\<rparr>)
     }"

text \<open>The destructor of the helper, at the end of the loop body.\<close>

definition destroyHelper :: "transaction \<Rightarrow> orm_table list \<Rightarrow> 's database \<Rightarrow> 's database" where
  "destroyHelper tx tables db =
     (if readOnlyFlag tx then db else snd (bufferUpdates db (tx_tid tx) (kvRWSet tx) tables))"

section \<open>The execution phase\<close>

definition reserve_slot :: "'r reserve_ops \<Rightarrow> transaction \<Rightarrow> 'r option \<Rightarrow> 'r option" where
  "reserve_slot R tx slot = map_option (\<lambda>r. snd (rt_reserve R r (kvRWSet tx) (tx_tid tx))) slot"

definition execute_one ::
  "'s chaincode \<Rightarrow> 'r reserve_ops \<Rightarrow> transaction \<Rightarrow> ('s, 'r) exec_env \<Rightarrow>
     (transaction \<times> ('s, 'r) exec_env) option" where
  "execute_one cc R tx env =
     do {
       (ret, tx1, tables, db1) \<leftarrow> run_chaincode cc tx (ee_db env);
       if ret = 0
       then Some (tx1\<lparr>transactionResult := ABORT_NO_RETRY\<rparr>, env\<lparr>ee_db := destroyHelper tx1 tables db1\<rparr>)
       else Some (tx1, env\<lparr>ee_slot := reserve_slot R tx1 (ee_slot env),
                           ee_db := destroyHelper tx1 tables db1\<rparr>)
     }"

text \<open>A loop over the list that updates each transaction in place.\<close>

fun each :: "('a \<Rightarrow> 'e \<Rightarrow> ('a \<times> 'e) option) \<Rightarrow> 'a list \<Rightarrow> 'e \<Rightarrow> ('a list \<times> 'e) option" where
  "each f [] e = Some ([], e)"
| "each f (x # xs) e =
     do {
       (x1, e1) \<leftarrow> f x e;
       (xs1, e2) \<leftarrow> each f xs e1;
       Some (x1 # xs1, e2)
     }"

text \<open>
  An executor keeps the raw pointer to the table it was given. The provider destroys that table
  when it is asked for another epoch, so the pointer is valid as long as the provider still holds
  a table of this epoch. It is the first component of the result.
\<close>

definition executeList ::
  "'s chaincode \<Rightarrow> 'r reserve_ops \<Rightarrow> epoch_size_t option \<Rightarrow> transaction list \<Rightarrow> ('s, 'r) exec_env \<Rightarrow>
     (bool \<times> epoch_size_t option \<times> transaction list \<times> ('s, 'r) exec_env) option" where
  "executeList cc R ptr txs env =
     (case txs of
        [] \<Rightarrow> Some (False, ptr, txs, env)
      | front # _ \<Rightarrow>
          (let env1 = env\<lparr>ee_slot := Some (getReserveTable R (ee_slot env) (tx_epoch front))\<rparr>
           in do {
             (txs1, env2) \<leftarrow> each (execute_one cc R) txs env1;
             Some (True, Some (tx_epoch front), txs1, env2)
           }))"

text \<open>\<^verbatim>\<open>AggregationTransactionExecutor\<close>: the read-write sets came with the transactions.\<close>

definition aggregate_one ::
  "'r reserve_ops \<Rightarrow> transaction \<Rightarrow> ('s, 'r) exec_env \<Rightarrow> (transaction \<times> ('s, 'r) exec_env) option" where
  "aggregate_one R tx env =
     (if transactionResult tx = ABORT_NO_RETRY then Some (tx, env)
      else Some (tx, env\<lparr>ee_slot := reserve_slot R tx (ee_slot env)\<rparr>))"

definition aggregate_executeList ::
  "'r reserve_ops \<Rightarrow> epoch_size_t option \<Rightarrow> transaction list \<Rightarrow> ('s, 'r) exec_env \<Rightarrow>
     (bool \<times> epoch_size_t option \<times> transaction list \<times> ('s, 'r) exec_env) option" where
  "aggregate_executeList R ptr txs env =
     (case txs of
        [] \<Rightarrow> Some (False, ptr, txs, env)
      | front # _ \<Rightarrow>
          (let env1 = env\<lparr>ee_slot := Some (getReserveTable R (ee_slot env) (tx_epoch front))\<rparr>
           in do {
             (txs1, env2) \<leftarrow> each (aggregate_one R) txs env1;
             Some (True, Some (tx_epoch front), txs1, env2)
           }))"

text \<open>\<^verbatim>\<open>TransactionQueryExecutor\<close>: read-only transactions, stopping at the first that fails.\<close>

fun query_executeList ::
  "'s chaincode \<Rightarrow> transaction list \<Rightarrow> 's database \<Rightarrow> (bool \<times> transaction list \<times> 's database) option" where
  "query_executeList cc [] db = Some (True, [], db)"
| "query_executeList cc (tx # txs) db =
     (if \<not> readOnlyFlag tx
      then do {
        (ok, txs1, db1) \<leftarrow> query_executeList cc txs db;
        Some (ok, tx\<lparr>transactionResult := ABORT_NO_RETRY\<rparr> # txs1, db1)
      }
      else do {
        (ret, tx1, tables, db1) \<leftarrow> run_chaincode cc tx db;
        if ret = 0
        then Some (False, tx1\<lparr>transactionResult := ABORT_NO_RETRY\<rparr> # txs, destroyHelper tx1 tables db1)
        else do {
          (ok, txs1, db2) \<leftarrow> query_executeList cc txs (destroyHelper tx1 tables db1);
          Some (ok, tx1\<lparr>transactionResult := COMMIT\<rparr> # txs1, db2)
        }
      })"

section \<open>The commit phase\<close>

definition deref_table :: "'r reserve_ops \<Rightarrow> epoch_size_t option \<Rightarrow> 'r option \<Rightarrow> 'r option" where
  "deref_table R ptr slot =
     do {
       e \<leftarrow> ptr;
       r \<leftarrow> slot;
       if rt_epoch_of R r = e then Some r else None
     }"

definition commit_one ::
  "'s storage_ops \<Rightarrow> 'r reserve_ops \<Rightarrow> epoch_size_t option \<Rightarrow> transaction \<Rightarrow> ('s, 'r) exec_env \<Rightarrow>
     (transaction \<times> ('s, 'r) exec_env) option" where
  "commit_one S R ptr tx env =
     (if transactionResult tx = ABORT_NO_RETRY
      then Some (tx, env\<lparr>ee_db := abortUpdate (ee_db env) (tx_tid tx)\<rparr>)
      else do {
        r \<leftarrow> deref_table R ptr (ee_slot env);
        (dep, r1) \<leftarrow> rt_analyse R r (kvRWSet tx) (tx_tid tx);
        let env1 = env\<lparr>ee_slot := Some r1\<rparr>;
        if waw dep then Some (tx\<lparr>transactionResult := ABORT\<rparr>, env1)
        else if \<not> war dep \<or> \<not> raw dep then do {
          (ok, db1) \<leftarrow> commitUpdate S (ee_db env1) (tx_tid tx);
          Some (tx\<lparr>transactionResult := (if ok then COMMIT else ABORT_NO_RETRY)\<rparr>, env1\<lparr>ee_db := db1\<rparr>)
        }
        else Some (tx\<lparr>transactionResult := ABORT\<rparr>,
                   env1\<lparr>ee_db := abortUpdate (ee_db env1) (tx_tid tx)\<rparr>)
      })"

definition commitList ::
  "'s storage_ops \<Rightarrow> 'r reserve_ops \<Rightarrow> epoch_size_t option \<Rightarrow> transaction list \<Rightarrow> ('s, 'r) exec_env \<Rightarrow>
     (bool \<times> transaction list \<times> ('s, 'r) exec_env) option" where
  "commitList S R ptr txs env =
     do {
       (txs1, env1) \<leftarrow> each (commit_one S R ptr) txs env;
       Some (True, txs1, env1)
     }"

text \<open>
  One epoch: the transactions are executed in the order of the list and committed in the order
  \<open>ord\<close> gives them; with several workers both are some interleaving of the workers' lists.
\<close>

definition run_epoch ::
  "'s storage_ops \<Rightarrow> 's chaincode \<Rightarrow> 'r reserve_ops \<Rightarrow> (transaction list \<Rightarrow> transaction list) \<Rightarrow>
     transaction list \<Rightarrow> ('s, 'r) exec_env \<Rightarrow> (transaction list \<times> ('s, 'r) exec_env) option" where
  "run_epoch S cc R ord txs env =
     do {
       (_, ptr, txs1, env1) \<leftarrow> executeList cc R None txs env;
       (_, txs2, env2) \<leftarrow> commitList S R ptr (ord txs1) env1;
       Some (txs2, env2)
     }"

text \<open>
  The same transaction alone: run its chaincode and write back at once. A serial execution is a
  sequence of these.
\<close>

definition serial_one ::
  "'s storage_ops \<Rightarrow> 's chaincode \<Rightarrow> transaction \<Rightarrow> 's database \<Rightarrow> 's database option" where
  "serial_one S cc tx db =
     do {
       (ret, tx1, tables, db1) \<leftarrow> run_chaincode cc tx db;
       if ret = 0 then None
       else do {
         (ok, db2) \<leftarrow> commitUpdate S (destroyHelper tx1 tables db1) (tx_tid tx);
         Some db2
       }
     }"

text \<open>The transaction as it was before it was executed.\<close>

definition as_submitted :: "transaction \<Rightarrow> transaction" where
  "as_submitted x = x\<lparr>kvRWSet := kvrwset_clear, transactionResult := PENDING\<rparr>"

section \<open>What a node relies on\<close>

definition tables_complete :: "orm_table list \<Rightarrow> bool" where
  "tables_complete tbs = list_all (\<lambda>tb. length (fieldList tb) = 2) tbs"

text \<open>A transaction as it enters an epoch.\<close>

definition fresh_txn :: "epoch_size_t \<Rightarrow> transaction \<Rightarrow> bool" where
  "fresh_txn e tx \<longleftrightarrow> tx_epoch tx = e \<and> tx_tid tx \<noteq> 0 \<and> \<not> readOnlyFlag tx \<and>
     transactionResult tx = PENDING \<and> kvRWSet tx = kvrwset_clear"

definition fresh_batch :: "epoch_size_t \<Rightarrow> transaction list \<Rightarrow> bool" where
  "fresh_batch e txs \<longleftrightarrow> list_all (fresh_txn e) txs \<and> distinct (map tx_tid txs)"

text \<open>The transaction after its execution on storage \<open>s\<close>, and the tables it created.\<close>

definition executed :: "'s chaincode \<Rightarrow> 's \<Rightarrow> transaction \<Rightarrow> (transaction \<times> orm_table list) option" where
  "executed cc s tx =
     map_option (\<lambda>(ret, st).
       (tx\<lparr>kvRWSet := h_rw (helper st),
           transactionResult := (if ret = 0 then ABORT_NO_RETRY else transactionResult tx)\<rparr>,
        h_tables (helper st)))
       (cc (tx_tid tx) (transactionPayload tx) (cc_start tx s))"

definition executed_txn :: "'s chaincode \<Rightarrow> 's \<Rightarrow> transaction \<Rightarrow> transaction" where
  "executed_txn cc s tx = (case executed cc s tx of None \<Rightarrow> tx | Some (x, _) \<Rightarrow> x)"

text \<open>No chaincode of the batch aborts the process.\<close>

definition runs :: "'s chaincode \<Rightarrow> 's \<Rightarrow> transaction list \<Rightarrow> bool" where
  "runs cc s txs = list_all (\<lambda>tx. executed cc s tx \<noteq> None) txs"

text \<open>The provider holds no table of this epoch yet.\<close>

definition other_epoch :: "'r reserve_ops \<Rightarrow> epoch_size_t \<Rightarrow> ('s, 'r) exec_env \<Rightarrow> bool" where
  "other_epoch R e env = (case ee_slot env of None \<Rightarrow> True | Some r \<Rightarrow> rt_epoch_of R r \<noteq> e)"

definition finish :: "transaction list \<Rightarrow> transaction \<Rightarrow> transaction" where
  "finish xs x = x\<lparr>transactionResult := spec_result xs x\<rparr>"

locale aria_node =
  res: reserve_table R rinv rts wts + db_storage S sinv view loc
  for R :: "'r reserve_ops" and rinv rts wts
    and S :: "'s storage_ops" and sinv :: "'s \<Rightarrow> bool" and view :: "'s \<Rightarrow> 'k \<Rightarrow> string" and loc +
  fixes cc :: "'s chaincode"
  assumes invoke_ok: "cc_ok sinv rows (cc tid p)"
    and invoke_tables: "cc tid p st = Some (ret, st') \<Longrightarrow> tables_complete (h_tables (helper st)) \<Longrightarrow>
      tables_complete (h_tables (helper st'))"
begin

section \<open>The execution phase implements the specification\<close>

text \<open>
  After some transactions ran (\<open>xs\<close>, as executed): the rows are untouched, the registers know who
  reserved what, and every read-write set is buffered for the commit.
\<close>

definition registers_of :: "transaction list \<Rightarrow> 'r \<Rightarrow> bool" where
  "registers_of xs r \<longleftrightarrow>
     (\<forall>c t. reg_earlier (rts r c) t \<longleftrightarrow>
        (\<exists>y \<in> set xs. \<not> failed y \<and> c \<in> set (reads_of y) \<and> tx_tid y < t)) \<and>
     (\<forall>c t. reg_earlier (wts r c) t \<longleftrightarrow>
        (\<exists>y \<in> set xs. \<not> failed y \<and> c \<in> set (writes_of y) \<and> tx_tid y < t))"

definition table_for :: "epoch_size_t \<Rightarrow> transaction list \<Rightarrow> 'r option \<Rightarrow> bool" where
  "table_for e xs slot \<longleftrightarrow>
     (\<exists>r. slot = Some r \<and> rinv r \<and> rt_epoch_of R r = e \<and> registers_of xs r)"

definition buffered :: "transaction list \<Rightarrow> 's database \<Rightarrow> bool" where
  "buffered xs db \<longleftrightarrow>
     (\<forall>x \<in> set xs. rwSetBuffer db (tx_tid x) = Some (kvRWSet x) \<and>
        (\<exists>tbs. tableListBuffer db (tx_tid x) = Some tbs \<and> tables_complete tbs))"

definition stored :: "(cell \<Rightarrow> string) \<Rightarrow> 's database \<Rightarrow> bool" where
  "stored v db \<longleftrightarrow> sinv (storage db) \<and> rows (storage db) = v"

definition exec_inv :: "epoch_size_t \<Rightarrow> (cell \<Rightarrow> string) \<Rightarrow> transaction list \<Rightarrow> ('s, 'r) exec_env \<Rightarrow> bool" where
  "exec_inv e v xs env \<longleftrightarrow> stored v (ee_db env) \<and> table_for e xs (ee_slot env) \<and>
     buffered xs (ee_db env) \<and> (xs \<noteq> [] \<longrightarrow> \<not> commitPhase (ee_db env))"

lemma registers_of_set: "set xs = set ys \<Longrightarrow> registers_of xs r = registers_of ys r"
  by (simp add: registers_of_def)

lemma registers_of_skip: "failed x \<Longrightarrow> registers_of (x # xs) r = registers_of xs r"
  by (simp add: registers_of_def)

lemma registers_of_reserve:
  assumes "rinv r" and "registers_of xs r" and "tx_tid x \<noteq> 0" and "\<not> failed x"
  shows "registers_of (x # xs) (snd (rt_reserve R r (kvRWSet x) (tx_tid x)))"
  using assms
  by (auto simp: registers_of_def res.rts_reserve res.wts_reserve reg_earlier_reserve
      reads_of_def writes_of_def)

lemma table_for_reserve:
  assumes "table_for e xs slot" and "tx_tid x \<noteq> 0" and "\<not> failed x"
  shows "table_for e (x # xs) (reserve_slot R x slot)"
  using assms registers_of_reserve
  by (auto simp: table_for_def reserve_slot_def res.rinv_reserve res.epoch_reserve)

lemma table_for_new:
  assumes "\<forall>r. ee_slot env = Some r \<longrightarrow> rt_epoch_of R r \<noteq> e"
  shows "table_for e [] (Some (getReserveTable R (ee_slot env) e))"
  using assms
  by (auto simp: table_for_def getReserveTable_def registers_of_def res.rinv_new res.epoch_new
      res.rts_new res.wts_new split: option.splits)

lemma destroyHelper_buffered:
  assumes "buffered xs db" and "xs \<noteq> [] \<longrightarrow> \<not> commitPhase db" and "\<not> readOnlyFlag x"
    and "tables_complete tbs" and "tx_tid x \<notin> tx_tid ` set xs"
  shows "buffered (x # xs) (destroyHelper x tbs db)"
    and "\<not> commitPhase (destroyHelper x tbs db)"
    and "storage (destroyHelper x tbs db) = storage db"
  using assms
  by (cases xs; auto simp: buffered_def destroyHelper_def bufferUpdates_def Let_def
      clearBufferThreadSafe_def image_iff)+

text \<open>
  Executing on another storage that agrees on the rows that were read gives the same transaction
  and leaves the rows alone.
\<close>

lemma run_agree:
  assumes "executed cc s tx = Some (x, tbs)" and "sinv s" and "stored v db"
    and "\<forall>c \<in> set (reads_of x). v c = rows s c"
  obtains db' ret where "run_chaincode cc tx db = Some (ret, x\<lparr>transactionResult := transactionResult tx\<rparr>, tbs, db')"
    and "stored v db'" and "x = tx\<lparr>kvRWSet := kvRWSet x,
        transactionResult := (if ret = 0 then ABORT_NO_RETRY else transactionResult tx)\<rparr>"
    and "rwSetBuffer db' = rwSetBuffer db" and "tableListBuffer db' = tableListBuffer db"
    and "commitPhase db' = commitPhase db"
proof -
  obtain ret st where run: "cc (tx_tid tx) (transactionPayload tx) (cc_start tx s) = Some (ret, st)"
    and x: "x = tx\<lparr>kvRWSet := h_rw (helper st),
           transactionResult := (if ret = 0 then ABORT_NO_RETRY else transactionResult tx)\<rparr>"
    and tbs: "tbs = h_tables (helper st)"
    using assms(1) by (auto simp: executed_def)
  have start: "sinv (cc_storage (cc_start tx s))" "sinv (cc_storage (cc_start tx (storage db)))"
    "helper (cc_start tx (storage db)) = helper (cc_start tx s)"
    "\<forall>c \<in> reads_in st. rows (cc_storage (cc_start tx (storage db))) c = rows (cc_storage (cc_start tx s)) c"
    using assms(2-4) by (auto simp: cc_start_def stored_def x reads_in_def reads_of_def)
  obtain st2 where "cc (tx_tid tx) (transactionPayload tx) (cc_start tx (storage db)) = Some (ret, st2)"
    "helper st2 = helper st" "sinv (cc_storage st2)"
    "rows (cc_storage st2) = rows (cc_storage (cc_start tx (storage db)))"
    by (rule cc_ok_rerun[OF invoke_ok start(1) run start(2-4)])
  then show thesis
    using assms(3) x tbs
    by (intro that[of ret "db\<lparr>storage := cc_storage st2\<rparr>"])
      (auto simp: run_chaincode_def stored_def cc_start_def)
qed

lemma executed_tables:
  "executed cc s tx = Some (x, tbs) \<Longrightarrow> tables_complete tbs"
  using invoke_tables
  by (fastforce simp: executed_def cc_start_def newCCORMHelper_def tables_complete_def)

lemma execute_one_step:
  assumes "exec_inv e (rows s) xs env" and "sinv s" and "executed cc s tx = Some (x, tbs)"
    and "fresh_txn e tx" and "tx_tid tx \<notin> tx_tid ` set xs"
  obtains env' where "execute_one cc R tx env = Some (x, env')" and "exec_inv e (rows s) (x # xs) env'"
proof -
  have st: "stored (rows s) (ee_db env)" using assms(1) by (simp add: exec_inv_def)
  obtain ret db' where run: "run_chaincode cc tx (ee_db env) =
      Some (ret, x\<lparr>transactionResult := transactionResult tx\<rparr>, tbs, db')"
    and db': "stored (rows s) db'" and x: "x = tx\<lparr>kvRWSet := kvRWSet x,
        transactionResult := (if ret = 0 then ABORT_NO_RETRY else transactionResult tx)\<rparr>"
    and frame: "rwSetBuffer db' = rwSetBuffer (ee_db env)"
      "tableListBuffer db' = tableListBuffer (ee_db env)" "commitPhase db' = commitPhase (ee_db env)"
    using run_agree[OF assms(3,2) st] by metis
  have tid: "tx_tid x = tx_tid tx" "readOnlyFlag x = readOnlyFlag tx"
    and res: "transactionResult x = (if ret = 0 then ABORT_NO_RETRY else PENDING)"
    using assms(4) by (subst x; simp add: fresh_txn_def)+
  let ?x = "x\<lparr>transactionResult := PENDING\<rparr>"
  let ?db = "destroyHelper ?x tbs db'"
  have dh: "?db = destroyHelper x tbs db'" by (simp add: destroyHelper_def)
  have buf: "buffered (x # xs) ?db" "\<not> commitPhase ?db" "storage ?db = storage db'"
    unfolding dh using assms(1,4,5) executed_tables[OF assms(3)] tid frame
    by (intro destroyHelper_buffered; auto simp: exec_inv_def buffered_def fresh_txn_def)+
  have base: "stored (rows s) ?db" using db' buf(3) by (simp add: stored_def)
  have tab: "table_for e xs (ee_slot env)" using assms(1) by (simp add: exec_inv_def)
  show thesis
  proof (cases "ret = 0")
    case True
    have "failed x" using res True by (simp add: failed_def)
    moreover have "execute_one cc R tx env = Some (x, env\<lparr>ee_db := ?db\<rparr>)"
      using run True res assms(4) by (simp add: execute_one_def fresh_txn_def)
    ultimately show thesis
      using base buf tab by (intro that) (auto simp: exec_inv_def table_for_def registers_of_skip)
  next
    case False
    then have "\<not> failed x" "?x = x" using res by (simp_all add: failed_def)
    moreover have "tx_tid x \<noteq> 0" using tid assms(4) by (simp add: fresh_txn_def)
    ultimately have "table_for e (x # xs) (reserve_slot R ?x (ee_slot env))"
      using table_for_reserve[OF tab] by simp
    moreover have "execute_one cc R tx env =
        Some (x, env\<lparr>ee_slot := reserve_slot R ?x (ee_slot env), ee_db := ?db\<rparr>)"
      using run False \<open>?x = x\<close> assms(4) by (simp add: execute_one_def fresh_txn_def)
    ultimately show thesis
      using base buf by (intro that) (auto simp: exec_inv_def)
  qed
qed

end

end
