(* ===== verification/Aria_Protocol.thy ===== *)
theory Aria_Protocol
  imports Executor
begin

text \<open>
  One epoch of the Aria protocol, execution and commit phases together: the loops of
  \<open>Executor\<close> compute exactly the verdict of \<open>Aria_Spec\<close>, in whatever order the transactions were
  executed and committed, and the rows they leave are those of a serial execution. The results
  are proved in the locale \<open>aria_node\<close>, for every storage, reservation table and chaincode that
  keep their contracts.
\<close>

context aria_node
begin

section \<open>The execution loop\<close>

lemma executed_txn_eq: "executed cc s tx = Some (x, tbs) \<Longrightarrow> executed_txn cc s tx = x"
  by (simp add: executed_txn_def)

lemma executed_tid: "tx_tid (executed_txn cc s tx) = tx_tid tx"
  by (auto simp: executed_txn_def executed_def split: option.splits prod.splits)

lemma exec_inv_set:
  assumes "exec_inv e v xs env" and "set xs = set ys"
  shows "exec_inv e v ys env"
  using assms registers_of_set[OF assms(2)]
  by (auto simp: exec_inv_def table_for_def buffered_def)

lemma execute_loop:
  assumes "exec_inv e (rows s) done env" and "sinv s" and "runs cc s txs"
    and "list_all (fresh_txn e) txs" and "distinct (map tx_tid (txs @ done))"
  shows "\<exists>env'. each (execute_one cc R) txs env = Some (map (executed_txn cc s) txs, env') \<and>
    exec_inv e (rows s) (map (executed_txn cc s) txs @ done) env'"
  using assms(1,3-5)
proof (induction txs arbitrary: env "done")
  case (Cons tx txs)
  obtain x tbs where x: "executed cc s tx = Some (x, tbs)"
    using Cons.prems(2) by (auto simp: runs_def)
  have tid: "tx_tid x = tx_tid tx" using executed_tid[of s tx] x by (simp add: executed_txn_def)
  have "fresh_txn e tx" "tx_tid tx \<notin> tx_tid ` set done"
    using Cons.prems(3,4) by auto
  then obtain env1 where one: "execute_one cc R tx env = Some (x, env1)"
      "exec_inv e (rows s) (x # done) env1"
    using execute_one_step[OF Cons.prems(1) assms(2) x] by blast
  have "distinct (map tx_tid (txs @ x # done))"
    using Cons.prems(4) tid by auto
  then obtain env2 where "each (execute_one cc R) txs env1 = Some (map (executed_txn cc s) txs, env2)"
      "exec_inv e (rows s) (map (executed_txn cc s) txs @ x # done) env2"
    using Cons.IH[OF one(2)] Cons.prems(2,3) by (auto simp: runs_def)
  then show ?case
    using one(1) executed_txn_eq[OF x] exec_inv_set by (fastforce simp: Un_commute)
qed simp

text \<open>The whole call, on an environment whose table is from another epoch.\<close>

lemma executeList_spec:
  assumes "fresh_batch e txs" and "txs \<noteq> []" and "runs cc (storage (ee_db env)) txs"
    and "sinv (storage (ee_db env))" and "\<forall>r. ee_slot env = Some r \<longrightarrow> rt_epoch_of R r \<noteq> e"
  shows "\<exists>env'. executeList cc R ptr txs env =
      Some (True, Some e, map (executed_txn cc (storage (ee_db env))) txs, env') \<and>
    exec_inv e (rows (storage (ee_db env))) (map (executed_txn cc (storage (ee_db env))) txs) env'"
proof -
  obtain front txs' where txs: "txs = front # txs'" using assms(2) by (cases txs) auto
  have front: "tx_epoch front = e" using assms(1) txs by (simp add: fresh_batch_def fresh_txn_def)
  let ?env1 = "env\<lparr>ee_slot := Some (getReserveTable R (ee_slot env) e)\<rparr>"
  have "exec_inv e (rows (storage (ee_db env))) [] ?env1"
    using assms(4) table_for_new[OF assms(5)] by (simp add: exec_inv_def stored_def buffered_def)
  moreover have "list_all (fresh_txn e) txs" "distinct (map tx_tid (txs @ []))"
    using assms(1) by (simp_all add: fresh_batch_def)
  ultimately obtain env' where
    loop: "each (execute_one cc R) txs ?env1 = Some (map (executed_txn cc (storage (ee_db env))) txs, env')"
      "exec_inv e (rows (storage (ee_db env))) (map (executed_txn cc (storage (ee_db env))) txs @ []) env'"
    using execute_loop[OF _ assms(4,3)] by blast
  have "executeList cc R ptr txs env =
      map_option (\<lambda>(txs1, env2). (True, Some e, txs1, env2)) (each (execute_one cc R) txs ?env1)"
    unfolding executeList_def txs by (simp add: front Let_def del: each.simps split: bind_split)
  then show ?thesis using loop by simp
qed

section \<open>The commit loop\<close>

lemma dep_of_registers:
  assumes "registers_of xs r"
  shows "dep_of (rts r) (wts r) (kvRWSet x) (tx_tid x) = spec_dep xs x"
proof -
  have known: "\<And>c t. reg_earlier (rts r c) t \<longleftrightarrow>
      (\<exists>y \<in> set xs. \<not> failed y \<and> c \<in> set (reads_of y) \<and> tx_tid y < t)"
    "\<And>c t. reg_earlier (wts r c) t \<longleftrightarrow>
      (\<exists>y \<in> set xs. \<not> failed y \<and> c \<in> set (writes_of y) \<and> tx_tid y < t)"
    using assms unfolding registers_of_def by blast+
  let ?d = "dep_of (rts r) (wts r) (kvRWSet x) (tx_tid x)"
  have "waw ?d = waw (spec_dep xs x)" "war ?d = war (spec_dep xs x)" "raw ?d = raw (spec_dep xs x)"
    unfolding spec_dep_sel
    by (simp_all add: dep_of_def list_ex_iff known flip: reads_of_def writes_of_def) blast+
  then show ?thesis by (simp add: transaction_dependency.equality)
qed

lemma analyse_spec:
  assumes "table_for e xs slot"
  obtains r r' where "deref_table R (Some e) slot = Some r"
    and "rt_analyse R r (kvRWSet x) (tx_tid x) = Some (spec_dep xs x, r')"
    and "table_for e xs (Some r')"
proof -
  obtain r where r: "slot = Some r" "rinv r" "rt_epoch_of R r = e" "registers_of xs r"
    using assms by (auto simp: table_for_def)
  obtain r' where r': "rt_analyse R r (kvRWSet x) (tx_tid x) =
      Some (dep_of (rts r) (wts r) (kvRWSet x) (tx_tid x), r')" "rinv r'" "rts r' = rts r"
      "wts r' = wts r" "rt_epoch_of R r' = rt_epoch_of R r"
    using res.analyse[OF r(2)] by blast
  have "dep_of (rts r) (wts r) (kvRWSet x) (tx_tid x) = spec_dep xs x"
    using r(4) by (rule dep_of_registers)
  then show thesis
    using r r' by (intro that[of r r']) (auto simp: deref_table_def table_for_def registers_of_def)
qed

definition commit_inv :: "epoch_size_t \<Rightarrow> (cell \<Rightarrow> string) \<Rightarrow> transaction list \<Rightarrow> ('s, 'r) exec_env \<Rightarrow> bool" where
  "commit_inv e v xs env \<longleftrightarrow> stored v (ee_db env) \<and> table_for e xs (ee_slot env) \<and>
     buffered xs (ee_db env)"

lemma exec_commit_inv: "exec_inv e v xs env \<Longrightarrow> commit_inv e v xs env"
  by (simp add: exec_inv_def commit_inv_def)

lemma commitUpdate_step:
  assumes "stored v db" and "buffered xs db" and "x \<in> set xs"
  obtains db' where "commitUpdate S db (tx_tid x) = Some (True, db')"
    and "stored (apply_effects (writes (kvRWSet x)) v) db'" and "buffered xs db'"
proof -
  obtain tbs where "rwSetBuffer db (tx_tid x) = Some (kvRWSet x)"
      "tableListBuffer db (tx_tid x) = Some tbs" "tables_complete tbs"
    using assms(2,3) by (auto simp: buffered_def)
  then show thesis
    using commitUpdate_rows[of db "tx_tid x" "kvRWSet x" tbs] assms that
    by (auto simp: stored_def buffered_def tables_complete_def list_all_iff)
qed

lemma commit_one_step:
  assumes inv: "commit_inv e v xs env" and "x \<in> set xs"
  obtains env' where "commit_one S R (Some e) x env = Some (finish xs x, env')"
    and "commit_inv e (if spec_result xs x = COMMIT then apply_effects (writes (kvRWSet x)) v else v)
      xs env'"
proof (cases "failed x")
  case True
  then show thesis
    using inv
    by (intro that[of "env\<lparr>ee_db := abortUpdate (ee_db env) (tx_tid x)\<rparr>"])
      (auto simp: commit_one_def finish_def spec_result_def failed_def commit_inv_def stored_def
        buffered_def abortUpdate_def)
next
  case ok: False
  have tab: "table_for e xs (ee_slot env)" and st: "stored v (ee_db env)"
    and buf: "buffered xs (ee_db env)"
    using inv by (simp_all add: commit_inv_def)
  obtain r r' where an: "deref_table R (Some e) (ee_slot env) = Some r"
      "rt_analyse R r (kvRWSet x) (tx_tid x) = Some (spec_dep xs x, r')"
      "table_for e xs (Some r')"
    by (rule analyse_spec[OF tab])
  note unf = commit_one_def finish_def spec_result_def commit_inv_def dep_commits_def Let_def
  have nf: "transactionResult x \<noteq> ABORT_NO_RETRY" using ok by (simp add: failed_def)
  show thesis
  proof (cases "dep_commits (spec_dep xs x)")
    case True
    obtain db' where "commitUpdate S (ee_db env) (tx_tid x) = Some (True, db')"
        "stored (apply_effects (writes (kvRWSet x)) v) db'" "buffered xs db'"
      by (rule commitUpdate_step[OF st buf assms(2)])
    then show thesis
      using an True ok nf
      by (intro that[of "env\<lparr>ee_slot := Some r', ee_db := db'\<rparr>"]) (auto simp: unf)
  next
    case False
    define db' where "db' = (if waw (spec_dep xs x) then ee_db env else abortUpdate (ee_db env) (tx_tid x))"
    have "stored v db'" "buffered xs db'"
      using st buf by (auto simp: db'_def stored_def buffered_def abortUpdate_def)
    then show thesis
      using an False ok nf
      by (intro that[of "env\<lparr>ee_slot := Some r', ee_db := db'\<rparr>"]) (auto simp: unf db'_def)
  qed
qed

definition verdict_rows :: "transaction list \<Rightarrow> transaction list \<Rightarrow> (cell \<Rightarrow> string) \<Rightarrow> cell \<Rightarrow> string" where
  "verdict_rows xs ys v = batch_rows (filter (\<lambda>x. spec_result xs x = COMMIT) ys) v"

lemma commit_loop:
  assumes "commit_inv e v xs env" and "set ys \<subseteq> set xs"
  shows "\<exists>env'. each (commit_one S R (Some e)) ys env = Some (map (finish xs) ys, env') \<and>
    commit_inv e (verdict_rows xs ys v) xs env'"
  using assms
proof (induction ys arbitrary: env v)
  case (Cons y ys)
  obtain env1 where one: "commit_one S R (Some e) y env = Some (finish xs y, env1)"
    "commit_inv e (if spec_result xs y = COMMIT then apply_effects (writes (kvRWSet y)) v else v) xs env1"
    using commit_one_step[OF Cons.prems(1), of y] Cons.prems(2) by auto
  show ?case
    using Cons.IH[OF one(2)] Cons.prems(2) one(1)
    by (auto simp: verdict_rows_def batch_rows_def)
qed (simp add: verdict_rows_def batch_rows_def)

section \<open>Any order of execution and commit gives the verdict of the specification\<close>

lemma distinct_executed: "distinct (map tx_tid (map (executed_txn cc s) txs)) = distinct (map tx_tid txs)"
  by (simp add: executed_tid comp_def)

lemma epoch_spec:
  assumes "fresh_batch e txs" and "txs \<noteq> []" and "runs cc (storage (ee_db env)) txs"
    and "sinv (storage (ee_db env))" and "\<forall>r. ee_slot env = Some r \<longrightarrow> rt_epoch_of R r \<noteq> e"
    and xs: "xs = map (executed_txn cc (storage (ee_db env))) txs" and perm: "mset ys = mset xs"
  shows "\<exists>env1 env2. executeList cc R ptr txs env = Some (True, Some e, xs, env1) \<and>
    commitList S R (Some e) ys env1 = Some (True, map (finish xs) ys, env2) \<and>
    sinv (storage (ee_db env2)) \<and>
    rows (storage (ee_db env2)) = batch_rows (serial_order xs) (rows (storage (ee_db env)))"
proof -
  obtain env1 where env1: "executeList cc R ptr txs env = Some (True, Some e, xs, env1)"
    "exec_inv e (rows (storage (ee_db env))) xs env1"
    using executeList_spec[OF assms(1-5)] unfolding xs by blast
  have sub: "set ys \<subseteq> set xs" using mset_eq_setD[OF perm] by simp
  obtain env2 where env2: "each (commit_one S R (Some e)) ys env1 = Some (map (finish xs) ys, env2)"
    "commit_inv e (verdict_rows xs ys (rows (storage (ee_db env)))) xs env2"
    using commit_loop[OF exec_commit_inv[OF env1(2)] sub] by blast
  have "mset (filter (\<lambda>x. spec_result xs x = COMMIT) ys) = mset (spec_committed xs)"
    using perm by (simp add: spec_committed_def mset_filter)
  moreover have "distinct (map tx_tid xs)"
    using assms(1) distinct_executed unfolding xs by (simp add: fresh_batch_def)
  ultimately have "verdict_rows xs ys (rows (storage (ee_db env))) =
      batch_rows (serial_order xs) (rows (storage (ee_db env)))"
    unfolding verdict_rows_def by (intro batch_rows_serial)
  then show ?thesis
    using env1(1) env2 by (auto simp: commitList_def commit_inv_def stored_def)
qed

section \<open>The serial execution\<close>

lemma serial_one_step:
  assumes "executed cc s tx = Some (x, tbs)" and "sinv s" and "fresh_txn e tx" and "\<not> failed x"
    and "stored v db" and "\<forall>c \<in> set (reads_of x). v c = rows s c"
  obtains db' where "serial_one S cc tx db = Some db'"
    and "stored (apply_effects (writes (kvRWSet x)) v) db'"
proof -
  obtain ret db1 where run: "run_chaincode cc tx db =
      Some (ret, x\<lparr>transactionResult := transactionResult tx\<rparr>, tbs, db1)" "stored v db1"
    and x: "x = tx\<lparr>kvRWSet := kvRWSet x,
        transactionResult := (if ret = 0 then ABORT_NO_RETRY else transactionResult tx)\<rparr>"
    by (rule run_agree[OF assms(1,2,5,6)]) blast
  have ret: "ret \<noteq> 0" using assms(4) x by (auto simp: failed_def dest: arg_cong[of _ _ transactionResult])
  have same: "x\<lparr>transactionResult := transactionResult tx\<rparr> = x"
    using arg_cong[OF x, of transactionResult] ret by simp
  have tid: "tx_tid x = tx_tid tx" "readOnlyFlag x = readOnlyFlag tx"
    using arg_cong[OF x, of tx_tid] arg_cong[OF x, of readOnlyFlag] by simp_all
  have db2: "buffered [x] (destroyHelper x tbs db1)" "storage (destroyHelper x tbs db1) = storage db1"
    using assms(3) executed_tables[OF assms(1)] tid destroyHelper_buffered(1,3)[of "[]" db1 x tbs]
    by (simp_all add: buffered_def fresh_txn_def)
  then have "stored v (destroyHelper x tbs db1)" using run(2) by (simp add: stored_def)
  then obtain db' where "commitUpdate S (destroyHelper x tbs db1) (tx_tid x) = Some (True, db')"
      "stored (apply_effects (writes (kvRWSet x)) v) db'"
    using commitUpdate_step[OF _ db2(1), of v x] by (metis list.set_intros(1))
  then show thesis
    using run(1) ret same tid by (intro that[of db']) (auto simp: serial_one_def)
qed

lemma as_submitted_executed: "fresh_txn e tx \<Longrightarrow> as_submitted (executed_txn cc s tx) = tx"
  by (cases tx)
    (auto simp: as_submitted_def executed_txn_def executed_def fresh_txn_def split: option.splits)

lemma serial_loop:
  assumes "sinv s" and "no_read_after_write l" and "stored v db"
    and "\<forall>x \<in> set l. \<forall>c \<in> set (reads_of x). v c = rows s c"
    and "\<forall>x \<in> set l. \<not> failed x \<and> (\<exists>tx tbs. fresh_txn e tx \<and> executed cc s tx = Some (x, tbs))"
  shows "\<exists>db'. fold_opt (serial_one S cc) (map as_submitted l) db = Some db' \<and> stored (batch_rows l v) db'"
  using assms(2-5)
proof (induction l arbitrary: v db)
  case (Cons x l)
  obtain tx tbs where tx: "fresh_txn e tx" "executed cc s tx = Some (x, tbs)" and ok: "\<not> failed x"
    using Cons.prems(4) by auto
  have sub: "as_submitted x = tx"
    using as_submitted_executed[OF tx(1), of s] executed_txn_eq[OF tx(2)] by simp
  have "\<forall>c \<in> set (reads_of x). v c = rows s c" using Cons.prems(3) by simp
  then obtain db1 where one: "serial_one S cc tx db = Some db1"
      "stored (apply_effects (writes (kvRWSet x)) v) db1"
    by (rule serial_one_step[OF tx(2) assms(1) tx(1) ok Cons.prems(2)])
  have "c \<notin> set (write_cells (kvRWSet x))" if "y \<in> set l" "c \<in> set (reads_of y)" for y c
    using Cons.prems(1) that by (auto simp: no_read_after_write_def writes_of_def)
  then have "\<forall>y \<in> set l. \<forall>c \<in> set (reads_of y). apply_effects (writes (kvRWSet x)) v c = rows s c"
    using Cons.prems(3) by (simp add: apply_effects_other fst_write_effect)
  then show ?case
    using Cons.IH[OF _ one(2)] Cons.prems(1,4) one(1) sub
    by (simp add: no_read_after_write_def batch_rows_def)
qed (simp add: batch_rows_def)

lemma serial_spec:
  assumes "fresh_batch e txs" and "runs cc (storage db) txs" and "sinv (storage db)"
    and xs: "xs = map (executed_txn cc (storage db)) txs"
  shows "\<exists>db'. fold_opt (serial_one S cc) (map as_submitted (serial_order xs)) db = Some db' \<and>
    sinv (storage db') \<and> rows (storage db') = batch_rows (serial_order xs) (rows (storage db))"
proof -
  have "distinct (map tx_tid xs)"
    using assms(1) distinct_executed unfolding xs by (simp add: fresh_batch_def)
  then have "no_read_after_write (serial_order xs)" by (rule serial_order_no_raw)
  moreover have "\<forall>x \<in> set (serial_order xs). \<not> failed x \<and>
      (\<exists>tx tbs. fresh_txn e tx \<and> executed cc (storage db) tx = Some (x, tbs))"
  proof
    fix x
    assume "x \<in> set (serial_order xs)"
    then have x: "x \<in> set xs" "\<not> failed x" using committedD(1,2) by (simp_all add: serial_order_set)
    then obtain tx where "tx \<in> set txs" "x = executed_txn cc (storage db) tx" using xs by auto
    then show "\<not> failed x \<and> (\<exists>tx tbs. fresh_txn e tx \<and> executed cc (storage db) tx = Some (x, tbs))"
      using x(2) assms(1,2) executed_txn_eq
      by (fastforce simp: fresh_batch_def runs_def list_all_iff)
  qed
  ultimately show ?thesis
    using serial_loop[OF assms(3), of "serial_order xs" "rows (storage db)" db e] assms(3)
    by (auto simp: stored_def)
qed

section \<open>One epoch\<close>

lemma run_epoch_spec:
  assumes "fresh_batch e txs" and "txs \<noteq> []" and "runs cc (storage (ee_db env)) txs"
    and "sinv (storage (ee_db env))" and "other_epoch R e env"
    and xs: "xs = map (executed_txn cc (storage (ee_db env))) txs" and "mset (ord xs) = mset xs"
  shows "\<exists>env2. run_epoch S cc R ord txs env = Some (map (finish xs) (ord xs), env2) \<and>
    sinv (storage (ee_db env2)) \<and>
    rows (storage (ee_db env2)) = batch_rows (serial_order xs) (rows (storage (ee_db env)))"
  using epoch_spec[OF assms(1-4) _ xs assms(7), of None] assms(5)
  by (auto simp: run_epoch_def other_epoch_def split: option.splits)

text \<open>The transactions the output marks as committed are those of the serial order.\<close>

lemma committed_output:
  assumes "mset (ord xs) = mset xs"
  shows "mset (map as_submitted (filter (\<lambda>t. transactionResult t = COMMIT) (map (finish xs) (ord xs)))) =
    mset (map as_submitted (serial_order xs))"
proof -
  have "filter (\<lambda>t. transactionResult t = COMMIT) (map (finish xs) (ord xs)) =
      map (finish xs) (filter (\<lambda>x. spec_result xs x = COMMIT) (ord xs))"
    by (simp add: filter_map comp_def finish_def)
  moreover have "as_submitted \<circ> finish xs = as_submitted"
    by (simp add: fun_eq_iff as_submitted_def finish_def)
  ultimately show ?thesis
    using assms by (simp add: mset_filter serial_order_mset spec_committed_def)
qed

lemma epoch_serializable:
  assumes "fresh_batch e txs" and "txs \<noteq> []" and "runs cc (storage (ee_db env)) txs"
    and "sinv (storage (ee_db env))" and "other_epoch R e env" and "\<And>l. mset (ord l) = mset l"
  shows "\<exists>out env' sched db'. run_epoch S cc R ord txs env = Some (out, env') \<and>
    mset sched = mset (map as_submitted (filter (\<lambda>t. transactionResult t = COMMIT) out)) \<and>
    fold_opt (serial_one S cc) sched (ee_db env) = Some db' \<and>
    rows (storage (ee_db env')) = rows (storage db')"
proof -
  define xs where "xs = map (executed_txn cc (storage (ee_db env))) txs"
  obtain env' where "run_epoch S cc R ord txs env = Some (map (finish xs) (ord xs), env')"
    "rows (storage (ee_db env')) = batch_rows (serial_order xs) (rows (storage (ee_db env)))"
    using run_epoch_spec[where ord = ord, OF assms(1-5) xs_def assms(6)[of xs]] by blast
  moreover obtain db' where "fold_opt (serial_one S cc) (map as_submitted (serial_order xs)) (ee_db env) = Some db'"
    "rows (storage db') = batch_rows (serial_order xs) (rows (storage (ee_db env)))"
    using serial_spec[OF assms(1,3,4) xs_def] by blast
  ultimately show ?thesis
    using committed_output[where ord = ord, OF assms(6)[of xs]]
    by (intro exI[of _ "map (finish xs) (ord xs)"] exI[of _ env']
        exI[of _ "map as_submitted (serial_order xs)"] exI[of _ db']) simp
qed

lemma executed_same_rows:
  assumes "executed cc s tx = Some x" and "sinv s" and "sinv s2" and "rows s2 = rows s"
  shows "executed cc s2 tx = Some x"
proof -
  obtain ret st where run: "cc (tx_tid tx) (transactionPayload tx) (cc_start tx s) = Some (ret, st)"
    and x: "x = (tx\<lparr>kvRWSet := h_rw (helper st),
           transactionResult := (if ret = 0 then ABORT_NO_RETRY else transactionResult tx)\<rparr>, h_tables (helper st))"
    using assms(1) by (auto simp: executed_def)
  have start: "sinv (cc_storage (cc_start tx s))" "sinv (cc_storage (cc_start tx s2))"
    "helper (cc_start tx s2) = helper (cc_start tx s)"
    "\<forall>c \<in> reads_in st. rows (cc_storage (cc_start tx s2)) c = rows (cc_storage (cc_start tx s)) c"
    using assms(2-4) by (auto simp: cc_start_def fun_eq_iff)
  obtain st2 where "cc (tx_tid tx) (transactionPayload tx) (cc_start tx s2) = Some (ret, st2)"
    "helper st2 = helper st"
    by (rule cc_ok_rerun[OF invoke_ok start(1) run start(2-4)])
  then show ?thesis using x by (simp add: executed_def)
qed

text \<open>
  Two replicas with the same rows reach the same verdicts and the same rows, whatever the
  order in which each of them executes and commits.
\<close>

lemma epoch_deterministic:
  assumes "fresh_batch e txs1" and "txs1 \<noteq> []" and "mset txs2 = mset txs1"
    and "runs cc (storage (ee_db env1)) txs1"
    and "sinv (storage (ee_db env1))" and "sinv (storage (ee_db env2))"
    and same: "rows (storage (ee_db env2)) = rows (storage (ee_db env1))"
    and "other_epoch R e env1" and "other_epoch R e env2"
    and "\<And>l. mset (ord1 l) = mset l" and "\<And>l. mset (ord2 l) = mset l"
  shows "\<exists>out1 env1' out2 env2'. run_epoch S cc R ord1 txs1 env1 = Some (out1, env1') \<and>
    run_epoch S cc R ord2 txs2 env2 = Some (out2, env2') \<and> mset out1 = mset out2 \<and>
    rows (storage (ee_db env1')) = rows (storage (ee_db env2'))"
proof -
  let ?x1 = "map (executed_txn cc (storage (ee_db env1))) txs1"
  let ?x2 = "map (executed_txn cc (storage (ee_db env2))) txs2"
  have set: "set txs2 = set txs1" using assms(3) by (rule mset_eq_setD)
  have run: "executed cc (storage (ee_db env2)) tx = executed cc (storage (ee_db env1)) tx"
    if tx: "tx \<in> set txs1" for tx
  proof -
    obtain x where "executed cc (storage (ee_db env1)) tx = Some x"
      using tx assms(4) by (auto simp: runs_def list_all_iff)
    then show ?thesis using executed_same_rows[OF _ assms(5,6) same] by simp
  qed
  have runs2: "runs cc (storage (ee_db env2)) txs2"
    using assms(4) set run by (simp add: runs_def list_all_iff)
  have x2: "?x2 = map (executed_txn cc (storage (ee_db env1))) txs2"
    using set run by (simp add: executed_txn_def)
  have perm: "mset ?x2 = mset ?x1" unfolding x2 using assms(3) by simp
  have distinct: "distinct (map tx_tid txs2)"
    using assms(1,3) mset_eq_imp_distinct_iff[of "map tx_tid txs2" "map tx_tid txs1"]
    by (simp add: fresh_batch_def)
  then have fresh2: "fresh_batch e txs2" "txs2 \<noteq> []"
    using assms(1-3) set by (auto simp: fresh_batch_def list_all_iff)
  obtain e1 where e1: "run_epoch S cc R ord1 txs1 env1 = Some (map (finish ?x1) (ord1 ?x1), e1)"
    "rows (storage (ee_db e1)) = batch_rows (serial_order ?x1) (rows (storage (ee_db env1)))"
    using run_epoch_spec[where ord = ord1, OF assms(1,2,4,5,8) refl assms(10)[of ?x1]] by blast
  obtain e2 where e2: "run_epoch S cc R ord2 txs2 env2 = Some (map (finish ?x2) (ord2 ?x2), e2)"
    "rows (storage (ee_db e2)) = batch_rows (serial_order ?x2) (rows (storage (ee_db env2)))"
    using run_epoch_spec[where ord = ord2, OF fresh2 runs2 assms(6,9) refl assms(11)[of ?x2]] by blast
  have finish: "finish ?x2 = finish ?x1"
    using spec_result_set[OF mset_eq_setD[OF perm]] by (simp add: finish_def fun_eq_iff)
  have "mset (serial_order ?x2) = mset (spec_committed ?x1)"
    using spec_committed_mset[OF perm] by (simp add: serial_order_mset)
  then have "batch_rows (serial_order ?x2) v = batch_rows (serial_order ?x1) v" for v
    using assms(1) by (intro batch_rows_serial) (simp_all add: distinct_executed fresh_batch_def del: map_map)
  then have "rows (storage (ee_db e1)) = rows (storage (ee_db e2))"
    using e1(2) e2(2) same by simp
  moreover have "mset (map (finish ?x1) (ord1 ?x1)) = mset (map (finish ?x2) (ord2 ?x2))"
    using perm unfolding finish mset_map assms(10,11) by simp
  ultimately show ?thesis using e1(1) e2(1) by blast
qed

end

end
