(* ===== verification/Random_Gen.thy ===== *)
theory Random_Gen
  imports Neu_Prelude
begin

unbundle bit_operations_syntax

text \<open>
  The linear congruential generator of \<^verbatim>\<open>include/common/random.h\<close>. The state is the 64-bit
  word \<^verbatim>\<open>seed_\<close>, every call returns its value and the new state. A remainder by zero ends the
  process (\<^term>\<open>None\<close>). Where one C++ expression calls the generator twice, the calls are taken
  from left to right; the language leaves their order open.
\<close>

type_synonym rng = "64 word"

definition init_seed :: "64 word \<Rightarrow> rng" where
  "init_seed seed = (seed XOR 0x5DEECE66D) AND mask 48"

definition next_bits :: "nat \<Rightarrow> rng \<Rightarrow> 64 word \<times> rng" where
  "next_bits bits s =
     (let s1 = (s * 0x5DEECE66D + 0xB) AND mask 48
      in (drop_bit (48 - bits) s1, s1))"

definition next_u64 :: "rng \<Rightarrow> 64 word \<times> rng" where
  "next_u64 s =
     (let (hi, s1) = next_bits 32 s;
          (lo, s2) = next_bits 32 s1
      in (push_bit 32 hi + lo, s2))"

text \<open>The dividend of \<^verbatim>\<open>next_double\<close>; the divisor is $2^{53}$.\<close>

definition next_double_num :: "rng \<Rightarrow> 64 word \<times> rng" where
  "next_double_num s =
     (let (hi, s1) = next_bits 26 s;
          (lo, s2) = next_bits 27 s1
      in (push_bit 27 hi + lo, s2))"

definition uniform_dist :: "64 word \<Rightarrow> 64 word \<Rightarrow> rng \<Rightarrow> (64 word \<times> rng) option" where
  "uniform_dist a b s =
     (if a = b then Some (a, s)
      else if b - a + 1 = 0 then None
      else let (x, s1) = next_u64 s in Some (x mod (b - a + 1) + a, s1))"

text \<open>
  The loop of \<^verbatim>\<open>rand_str\<close> picks one character per round; \<^verbatim>\<open>str_len - 1\<close> wraps for the empty
  string, whose range is the full word.
\<close>

fun rand_str :: "nat \<Rightarrow> string \<Rightarrow> rng \<Rightarrow> (string \<times> rng) option" where
  "rand_str 0 str s = Some ([], s)"
| "rand_str (Suc n) str s =
     do {
       (k, s1) \<leftarrow> uniform_dist 0 (of_nat (length str) - 1) s;
       c \<leftarrow> (if unat k < length str then Some (str ! unat k) else None);
       (rest, s2) \<leftarrow> rand_str n str s1;
       Some (c # rest, s2)
     }"

definition alpha :: string where
  "alpha = ''0123456789abcdefghijklmnopqrstuvwxyzABCDEFGHIJKLMNOPQRSTUVWXYZ''"

definition a_string :: "64 word \<Rightarrow> 64 word \<Rightarrow> rng \<Rightarrow> (string \<times> rng) option" where
  "a_string min_len max_len s =
     do {
       (len, s1) \<leftarrow> uniform_dist min_len max_len s;
       rand_str (unat len) alpha s1
     }"

definition non_uniform_distribution ::
  "64 word \<Rightarrow> 64 word \<Rightarrow> 64 word \<Rightarrow> rng \<Rightarrow> (64 word \<times> rng) option" where
  "non_uniform_distribution A x y s =
     do {
       (u, s1) \<leftarrow> uniform_dist 0 A s;
       (v, s2) \<leftarrow> uniform_dist x y s1;
       if y - x + 1 = 0 then None else Some ((u OR v) mod (y - x + 1) + x, s2)
     }"

section \<open>Ranges\<close>

lemma and_mask48_less: "x AND mask 48 < (2 ^ 48 :: 64 word)"
  by (rule and_mask_less') simp

lemma init_seed_range: "init_seed seed < 2 ^ 48"
  unfolding init_seed_def by (rule and_mask48_less)

lemma next_bits_state: "snd (next_bits bits s) < 2 ^ 48"
  using and_mask48_less[of "s * 0x5DEECE66D + 0xB"] by (simp add: next_bits_def Let_def)

lemma unat_next_bits:
  assumes "bits \<le> 48"
  shows "unat (fst (next_bits bits s)) < 2 ^ bits"
proof -
  define x where "x = (s * 0x5DEECE66D + 0xB) AND mask 48"
  have "x < 2 ^ 48" unfolding x_def by (rule and_mask48_less)
  then have "unat x < 2 ^ 48" by (simp add: word_less_nat_alt)
  also have "(2 ^ 48 :: nat) = 2 ^ bits * 2 ^ (48 - bits)"
    using assms by (simp flip: power_add)
  finally have "unat x div 2 ^ (48 - bits) < 2 ^ bits"
    by (simp add: less_mult_imp_div_less)
  then show ?thesis
    by (simp only: next_bits_def Let_def fst_conv flip: x_def) (simp only: unat_drop_bit_eq drop_bit_eq_div[where ?'a = nat])
qed

lemma unat_shift_add:
  fixes hi lo :: "64 word"
  assumes "unat hi < 2 ^ m" and "unat lo < 2 ^ n" and "m + n \<le> 64"
  shows "unat (push_bit n hi + lo) = unat hi * 2 ^ n + unat lo"
    and "unat hi * 2 ^ n + unat lo < 2 ^ (m + n)"
proof -
  have "unat hi * 2 ^ n + unat lo < (unat hi + 1) * 2 ^ n"
    using assms(2) by simp
  also have "\<dots> \<le> 2 ^ m * 2 ^ n"
    using assms(1) by (intro mult_right_mono) auto
  finally show bound: "unat hi * 2 ^ n + unat lo < 2 ^ (m + n)"
    by (simp add: power_add)
  have top: "unat hi * 2 ^ n + unat lo < 2 ^ 64"
    using bound power_increasing[OF assms(3), of "2 :: nat"] by simp
  then have "unat (push_bit n hi) = unat hi * 2 ^ n"
    by (simp only: unsigned_push_bit_eq) (simp add: push_bit_eq_mult take_bit_eq_mod)
  then show "unat (push_bit n hi + lo) = unat hi * 2 ^ n + unat lo"
    using top by (simp add: unat_word_ariths)
qed

lemma next_double_num_less: "unat (fst (next_double_num s)) < 2 ^ 53"
proof -
  let ?hi = "fst (next_bits 26 s)" and ?lo = "fst (next_bits 27 (snd (next_bits 26 s)))"
  have "unat ?hi < 2 ^ 26" "unat ?lo < 2 ^ 27" by (rule unat_next_bits, simp)+
  from unat_shift_add[OF this] show ?thesis
    by (simp add: next_double_num_def split_beta Let_def)
qed

lemma uniform_dist_bounds:
  assumes "a \<le> b" and "uniform_dist a b s = Some (x, s')"
  shows "a \<le> x \<and> x \<le> b"
proof (cases "a = b")
  case False
  let ?m = "b - a + 1"
  from False assms(2) have x: "x = fst (next_u64 s) mod ?m + a" and m: "?m \<noteq> 0"
    by (auto simp: uniform_dist_def split_beta Let_def split: if_splits)
  have b: "unat (b - a) = unat b - unat a" using assms(1) by (simp add: unat_sub)
  then have um: "unat ?m = unat b - unat a + 1"
    using m unatSuc[of "b - a"] by (simp add: add.commute)
  have r: "unat (fst (next_u64 s) mod ?m) \<le> unat b - unat a"
    using um by (simp add: unat_mod_distrib)
  have "unat x = unat (fst (next_u64 s) mod ?m) + unat a"
  proof -
    have "unat (fst (next_u64 s) mod ?m) + unat a < 2 ^ 64"
      using r assms(1) unsigned_less[of b, where ?'a = nat] by (simp add: word_le_nat_alt)
    then show ?thesis by (simp add: x unat_word_ariths)
  qed
  then show ?thesis
    using r assms(1) by (simp add: word_le_nat_alt)
qed (use assms in \<open>auto simp: uniform_dist_def\<close>)

lemma uniform_dist_total:
  assumes "a \<le> b" and "\<not> (a = 0 \<and> b = - 1)"
  shows "\<exists>r. uniform_dist a b s = Some r"
proof -
  have "b - a + 1 \<noteq> 0"
  proof
    assume "b - a + 1 = 0"
    then have a: "a = 1 + b" by (simp add: algebra_simps)
    then show False
      using assms unatSuc[of b] by (cases "1 + b = 0") (auto simp: word_le_nat_alt eq_neg_iff_add_eq_0 add.commute)
  qed
  then show ?thesis by (auto simp: uniform_dist_def split_beta Let_def)
qed

lemma rand_str_spec:
  assumes "0 < length str" and "length str < 2 ^ 64"
  shows "\<exists>w s'. rand_str n str s = Some (w, s') \<and> length w = n \<and> set w \<subseteq> set str"
proof (induction n arbitrary: s)
  case (Suc n)
  have last: "unat (of_nat (length str) - 1 :: 64 word) = length str - 1"
  proof -
    have "(of_nat (length str) :: 64 word) - 1 = of_nat (length str - 1)"
      using assms(1) of_nat_diff[of 1 "length str", where ?'a = "64 word"] by (simp add: Suc_le_eq)
    moreover have "length str - 1 < 2 ^ 64" using assms by simp
    ultimately show ?thesis by (simp only: unat_of_nat) (simp add: take_bit_nat_eq_self)
  qed
  have notall: "of_nat (length str) - 1 \<noteq> (- 1 :: 64 word)"
    using assms by (auto simp: word_of_nat_eq_0_iff dest: dvd_imp_le)
  obtain k s1 where k: "uniform_dist 0 (of_nat (length str) - 1) s = Some (k, s1)"
    using uniform_dist_total[of 0 "of_nat (length str) - 1" s] notall by auto
  then have "k \<le> of_nat (length str) - 1" using uniform_dist_bounds[OF _ k] by simp
  then have "unat k < length str"
    using last assms(1) unfolding word_le_nat_alt by linarith
  moreover obtain w s' where "rand_str n str s1 = Some (w, s')" "length w = n" "set w \<subseteq> set str"
    using Suc.IH by blast
  ultimately show ?case using k by auto
qed simp

end
