(* ===== verification/Quick_Sort.thy ===== *)
theory Quick_Sort
  imports Neu_Prelude
begin

text \<open>
  The quicksort of the benchmark chaincode (\<^verbatim>\<open>orm_test_chaincode.cpp\<close>): the array is a list, the
  indices are the integers of the source, since the right end of an empty range is \<open>-1\<close>.
\<close>

definition arr_get :: "int list \<Rightarrow> int \<Rightarrow> int" where
  "arr_get a i = a ! nat i"

definition arr_swap :: "int list \<Rightarrow> int \<Rightarrow> int \<Rightarrow> int list" where
  "arr_swap a i j = a[nat i := a ! nat j, nat j := a ! nat i]"

text \<open>The partition loop over \<open>i\<close>; it returns the array and the final \<^verbatim>\<open>pointer\<close>.\<close>

function partition_loop :: "int \<Rightarrow> int \<Rightarrow> int \<Rightarrow> int \<Rightarrow> int list \<Rightarrow> int list \<times> int" where
  "partition_loop pivot hi i pointer a =
     (if i < hi then
        (if arr_get a i < pivot
         then partition_loop pivot hi (i + 1) (pointer + 1)
                (if pointer \<noteq> i then arr_swap a i pointer else a)
         else partition_loop pivot hi (i + 1) pointer a)
      else (a, pointer))"
  by pat_completeness auto
termination by (relation "measure (\<lambda>(pivot, hi, i, pointer, a). nat (hi - i))") auto

declare partition_loop.simps [simp del]

lemma partition_pointer:
  "pointer \<le> i \<Longrightarrow> i \<le> hi \<Longrightarrow> partition_loop pivot hi i pointer a = (a', p) \<Longrightarrow> pointer \<le> p \<and> p \<le> hi"
proof (induction pivot hi i pointer a rule: partition_loop.induct)
  case (1 pivot hi i pointer a)
  show ?case
  proof (cases "i < hi \<and> arr_get a i < pivot")
    case True
    have "partition_loop pivot hi (i + 1) (pointer + 1) (if pointer \<noteq> i then arr_swap a i pointer else a) = (a', p)"
      using True 1(5) by (simp add: partition_loop.simps[of pivot hi i])
    then have "pointer + 1 \<le> p \<and> p \<le> hi"
      using True 1(3,4) by (intro 1(1)) auto
    then show ?thesis by simp
  next
    case False
    then show ?thesis
      using 1(2-5) by (cases "i < hi") (auto simp: partition_loop.simps[of pivot])
  qed
qed

function quicksort_r :: "int list \<Rightarrow> int \<Rightarrow> int \<Rightarrow> int list" where
  "quicksort_r a start hi =
     (if start \<ge> hi then a
      else let (a1, pointer) = partition_loop (arr_get a hi) hi start start a;
               a2 = arr_swap a1 hi pointer;
               a3 = quicksort_r a2 start (pointer - 1)
           in quicksort_r a3 (pointer + 1) hi)"
  by pat_completeness auto
termination
proof (relation "measure (\<lambda>(a, start, hi). nat (hi - start))", goal_cases)
  case (2 a start hi x a1 pointer a2)
  then have "pointer \<le> hi" using partition_pointer[of start start hi "arr_get a hi" a a1 pointer] by simp
  then show ?case using 2 by simp
next
  case (3 a start hi x a1 pointer a2 a3)
  then have "start \<le> pointer" using partition_pointer[of start start hi "arr_get a hi" a a1 pointer] by simp
  then show ?case using 3 by simp
qed simp

declare quicksort_r.simps [simp del]

definition quicksort :: "int list \<Rightarrow> int list" where
  "quicksort d = quicksort_r d 0 (int (length d) - 1)"

section \<open>Permuting a range\<close>

text \<open>
  \<open>a'\<close> is a rearrangement of \<open>a\<close> that only moves elements within \<open>lo..hi\<close>.
\<close>

definition same_range :: "int \<Rightarrow> int \<Rightarrow> int list \<Rightarrow> int list \<Rightarrow> bool" where
  "same_range lo hi a a' \<longleftrightarrow> mset a' = mset a \<and>
     (\<forall>k \<ge> 0. k < lo \<or> hi < k \<longrightarrow> arr_get a' k = arr_get a k) \<and>
     (\<forall>k. lo \<le> k \<and> k \<le> hi \<longrightarrow> (\<exists>j. lo \<le> j \<and> j \<le> hi \<and> arr_get a' k = arr_get a j))"

lemma same_range_refl: "same_range lo hi a a"
  by (auto simp: same_range_def)

lemma same_range_trans: "same_range lo hi a b \<Longrightarrow> same_range lo hi b c \<Longrightarrow> same_range lo hi a c"
  unfolding same_range_def by (metis (no_types, opaque_lifting))

lemma same_range_mono:
  assumes "same_range lo' hi' a b" and "lo \<le> lo'" and "hi' \<le> hi" and "0 \<le> lo"
  shows "same_range lo hi a b"
  unfolding same_range_def
proof (intro conjI allI impI)
  show "mset b = mset a" using assms(1) by (simp add: same_range_def)
  show "arr_get b k = arr_get a k" if "0 \<le> k" "k < lo \<or> hi < k" for k
    using assms that by (auto simp: same_range_def)
  show "\<exists>j. lo \<le> j \<and> j \<le> hi \<and> arr_get b k = arr_get a j" if "lo \<le> k \<and> k \<le> hi" for k
  proof (cases "lo' \<le> k \<and> k \<le> hi'")
    case True
    then obtain j where "lo' \<le> j" "j \<le> hi'" "arr_get b k = arr_get a j"
      using assms(1) by (auto simp: same_range_def)
    then show ?thesis using assms(2,3) by (intro exI[of _ j]) auto
  next
    case False
    then show ?thesis using assms(1,4) that by (intro exI[of _ k]) (auto simp: same_range_def)
  qed
qed

lemma same_range_length: "same_range lo hi a b \<Longrightarrow> length b = length a"
  using size_mset[of b] size_mset[of a] by (simp add: same_range_def del: size_mset)

lemma arr_get_swap:
  assumes "0 \<le> i" "0 \<le> j" "0 \<le> k" "i < int (length a)" "j < int (length a)"
  shows "arr_get (arr_swap a i j) k =
    (if k = j then arr_get a i else if k = i then arr_get a j else arr_get a k)"
  using assms by (auto simp: arr_get_def arr_swap_def nth_list_update eq_nat_nat_iff)

lemma arr_swap_range:
  assumes "0 \<le> lo" "lo \<le> i" "i \<le> hi" "lo \<le> j" "j \<le> hi" "hi < int (length a)"
  shows "same_range lo hi a (arr_swap a i j)"
proof -
  have "mset (arr_swap a i j) = mset a"
    using assms by (simp add: arr_swap_def mset_swap)
  then show ?thesis
    using assms by (auto simp: same_range_def arr_get_swap)
qed

section \<open>Partition\<close>

definition split_at :: "int \<Rightarrow> int \<Rightarrow> int \<Rightarrow> int \<Rightarrow> int list \<Rightarrow> bool" where
  "split_at pivot lo p i a \<longleftrightarrow>
     (\<forall>k. lo \<le> k \<and> k < p \<longrightarrow> arr_get a k < pivot) \<and> (\<forall>k. p \<le> k \<and> k < i \<longrightarrow> pivot \<le> arr_get a k)"

lemma split_at_step:
  assumes "0 \<le> lo" "lo \<le> pointer" "pointer \<le> i" "i < int (length a)"
    and "split_at pivot lo pointer i a" and "arr_get a i < pivot"
  shows "split_at pivot lo (pointer + 1) (i + 1) (if pointer \<noteq> i then arr_swap a i pointer else a)"
proof (cases "pointer = i")
  case True
  have "arr_get a k < pivot" if "lo \<le> k" "k < i + 1" for k
    using assms(5,6) True that by (cases "k = i") (auto simp: split_at_def)
  then show ?thesis using True by (simp add: split_at_def)
next
  case False
  have "arr_get (arr_swap a i pointer) k < pivot" if "lo \<le> k" "k < pointer + 1" for k
    using assms False that by (cases "k = pointer") (auto simp: split_at_def arr_get_swap)
  moreover have "pivot \<le> arr_get (arr_swap a i pointer) k" if "pointer + 1 \<le> k" "k < i + 1" for k
    using assms False that by (cases "k = i") (auto simp: split_at_def arr_get_swap)
  ultimately show ?thesis using False by (simp add: split_at_def)
qed

lemma partition_loop_spec:
  assumes "0 \<le> lo" "lo \<le> pointer" "pointer \<le> i" "i \<le> hi" "hi < int (length a)"
    and "split_at pivot lo pointer i a"
    and "partition_loop pivot hi i pointer a = (a', p)"
  shows "same_range lo (hi - 1) a a' \<and> split_at pivot lo p hi a'"
  using assms
proof (induction pivot hi i pointer a rule: partition_loop.induct)
  case (1 pivot hi i pointer a)
  consider "i < hi" "arr_get a i < pivot" | "i < hi" "\<not> arr_get a i < pivot" | "i = hi"
    using 1(6) by linarith
  then show ?case
  proof cases
    case 1: 1
    let ?b = "if pointer \<noteq> i then arr_swap a i pointer else a"
    have sw: "same_range lo (hi - 1) a ?b"
      using "1.prems" 1 by (auto intro!: arr_swap_range simp: same_range_refl)
    have len: "length ?b = length a" by (rule same_range_length[OF sw])
    have "split_at pivot lo (pointer + 1) (i + 1) ?b"
      using "1.prems" 1 by (intro split_at_step) auto
    moreover have "partition_loop pivot hi (i + 1) (pointer + 1) ?b = (a', p)"
      using 1 "1.prems"(7) by (simp add: partition_loop.simps[of pivot hi i])
    ultimately have "same_range lo (hi - 1) ?b a' \<and> split_at pivot lo p hi a'"
      using 1 "1.prems" len by (intro "1.IH"(1)) auto
    then show ?thesis using same_range_trans[OF sw] by blast
  next
    case 2: 2
    have "split_at pivot lo pointer (i + 1) a"
      using "1.prems"(6) 2 unfolding split_at_def by (metis not_le zless_add1_eq)
    moreover have "partition_loop pivot hi (i + 1) pointer a = (a', p)"
      using 2 "1.prems"(7) by (simp add: partition_loop.simps[of pivot hi i])
    ultimately show ?thesis
      using 2 "1.prems" by (intro "1.IH"(2)) auto
  next
    case 3
    then show ?thesis
      using "1.prems"(6,7) by (auto simp: partition_loop.simps[of pivot] same_range_refl)
  qed
qed

section \<open>Sorting\<close>

definition sorted_range :: "int \<Rightarrow> int \<Rightarrow> int list \<Rightarrow> bool" where
  "sorted_range lo hi a \<longleftrightarrow> (\<forall>j k. lo \<le> j \<and> j \<le> k \<and> k \<le> hi \<longrightarrow> arr_get a j \<le> arr_get a k)"

text \<open>One round before the recursive calls: the pivot is in place.\<close>

lemma pivot_placed:
  assumes "0 \<le> start" "start < hi" "hi < int (length a)"
    and "partition_loop (arr_get a hi) hi start start a = (a1, p)"
  shows "start \<le> p" and "p \<le> hi" and "same_range start hi a (arr_swap a1 hi p)"
    and "\<forall>k. start \<le> k \<and> k < p \<longrightarrow> arr_get (arr_swap a1 hi p) k < arr_get (arr_swap a1 hi p) p"
    and "\<forall>k. p < k \<and> k \<le> hi \<longrightarrow> arr_get (arr_swap a1 hi p) p \<le> arr_get (arr_swap a1 hi p) k"
proof -
  show p: "start \<le> p" "p \<le> hi" using partition_pointer[OF _ _ assms(4)] assms(2) by simp_all
  have s: "same_range start (hi - 1) a a1" "split_at (arr_get a hi) start p hi a1"
    using partition_loop_spec[OF assms(1) _ _ _ assms(3) _ assms(4)] assms(2) by (auto simp: split_at_def)
  have s1: "same_range start hi a a1" using same_range_mono[OF s(1)] assms(1) by simp
  have len: "length a1 = length a" by (rule same_range_length[OF s1])
  have "same_range start hi a1 (arr_swap a1 hi p)"
    using assms p len by (intro arr_swap_range) auto
  then show "same_range start hi a (arr_swap a1 hi p)" by (rule same_range_trans[OF s1])
  have piv: "arr_get a1 hi = arr_get a hi" using s(1) assms(1,2) by (simp add: same_range_def)
  show "\<forall>k. start \<le> k \<and> k < p \<longrightarrow> arr_get (arr_swap a1 hi p) k < arr_get (arr_swap a1 hi p) p"
    using s(2) p assms piv len by (auto simp: arr_get_swap split_at_def)
  show "\<forall>k. p < k \<and> k \<le> hi \<longrightarrow> arr_get (arr_swap a1 hi p) p \<le> arr_get (arr_swap a1 hi p) k"
    using s(2) p assms piv len by (auto simp: arr_get_swap split_at_def)
qed

text \<open>Two sorted halves around the pivot are sorted together.\<close>

lemma sorted_join:
  assumes "0 \<le> start" "start \<le> p" "p \<le> hi"
    and r3: "same_range start (p - 1) a2 a3" "sorted_range start (p - 1) a3"
    and r4: "same_range (p + 1) hi a3 a4" "sorted_range (p + 1) hi a4"
    and low: "\<forall>k. start \<le> k \<and> k < p \<longrightarrow> arr_get a2 k < arr_get a2 p"
    and high: "\<forall>k. p < k \<and> k \<le> hi \<longrightarrow> arr_get a2 p \<le> arr_get a2 k"
  shows "sorted_range start hi a4"
proof -
  have piv: "arr_get a4 p = arr_get a2 p"
    using r3(1) r4(1) assms(1,2) by (simp add: same_range_def)
  have left: "arr_get a4 k = arr_get a3 k" if "start \<le> k" "k < p" for k
    using r4(1) that assms(1) by (simp add: same_range_def)
  have lo: "arr_get a4 k \<le> arr_get a2 p" if k: "start \<le> k" "k < p" for k
  proof -
    obtain j where "start \<le> j" "j \<le> p - 1" "arr_get a3 k = arr_get a2 j"
      using r3(1) k by (auto simp: same_range_def)
    then show ?thesis using low left[OF k] by (simp add: less_imp_le)
  qed
  have hi: "arr_get a2 p \<le> arr_get a4 k" if k: "p < k" "k \<le> hi" for k
  proof -
    obtain j where "p + 1 \<le> j" "j \<le> hi" "arr_get a4 k = arr_get a3 j"
      using r4(1) k zless_imp_add1_zle[OF k(1)] unfolding same_range_def by blast
    moreover from this have "arr_get a3 j = arr_get a2 j"
      using r3(1) assms(1,2) by (simp add: same_range_def)
    ultimately show ?thesis using high by simp
  qed
  show ?thesis
    unfolding sorted_range_def
  proof (intro allI impI)
    fix j k
    assume jk: "start \<le> j \<and> j \<le> k \<and> k \<le> hi"
    consider "k < p" | "j \<le> p" "p \<le> k" | "p < j" using jk by linarith
    then show "arr_get a4 j \<le> arr_get a4 k"
    proof cases
      case 1
      then show ?thesis using r3(2) jk left by (auto simp: sorted_range_def)
    next
      case 2
      have "arr_get a4 j \<le> arr_get a2 p" using lo piv jk 2 by (cases "j = p") auto
      moreover have "arr_get a2 p \<le> arr_get a4 k" using hi piv jk 2 by (cases "k = p") auto
      ultimately show ?thesis by simp
    next
      case 3
      then show ?thesis using r4(2) jk by (auto simp: sorted_range_def)
    qed
  qed
qed

lemma quicksort_r_spec:
  "0 \<le> start \<Longrightarrow> hi < int (length a) \<Longrightarrow>
     same_range start hi a (quicksort_r a start hi) \<and> sorted_range start hi (quicksort_r a start hi)"
proof (induction a start hi rule: quicksort_r.induct)
  case (1 a start hi)
  show ?case
  proof (cases "start \<ge> hi")
    case True
    then show ?thesis
      by (simp add: quicksort_r.simps[of a] same_range_refl)
        (metis sorted_range_def eq_iff order_trans)
  next
    case False
    obtain a1 p where part: "partition_loop (arr_get a hi) hi start start a = (a1, p)"
      by fastforce
    define a2 where "a2 = arr_swap a1 hi p"
    define a3 where "a3 = quicksort_r a2 start (p - 1)"
    define a4 where "a4 = quicksort_r a3 (p + 1) hi"
    have q: "quicksort_r a start hi = a4"
      using False part by (simp add: quicksort_r.simps[of a] a2_def a3_def a4_def)
    note placed = pivot_placed[OF "1.prems"(1) _ "1.prems"(2) part, folded a2_def]
    have p: "start \<le> p" "p \<le> hi" and r2: "same_range start hi a a2" using placed(1-3) False by auto
    have l2: "length a2 = length a" by (rule same_range_length[OF r2])
    have r3: "same_range start (p - 1) a2 a3" "sorted_range start (p - 1) a3"
      using "1.IH"(1)[OF False refl part[symmetric] a2_def] "1.prems" p l2 by (auto simp: a3_def)
    have l3: "length a3 = length a" using same_range_length[OF r3(1)] l2 by simp
    have r4: "same_range (p + 1) hi a3 a4" "sorted_range (p + 1) hi a4"
      using "1.IH"(2)[OF False refl part[symmetric] a2_def a3_def] "1.prems" p l3 by (auto simp: a4_def)
    have "same_range start hi a a4"
      using r2 same_range_mono[OF r3(1), of start hi] same_range_mono[OF r4(1), of start hi] p "1.prems"(1)
      by (auto intro: same_range_trans)
    moreover have "sorted_range start hi a4"
      using sorted_join[OF "1.prems"(1) p r3 r4] placed(4,5) False by simp
    ultimately show ?thesis by (simp add: q)
  qed
qed

lemma quicksort_spec: "mset (quicksort d) = mset d" "sorted (quicksort d)"
proof -
  have r: "same_range 0 (int (length d) - 1) d (quicksort d)" "sorted_range 0 (int (length d) - 1) (quicksort d)"
    using quicksort_r_spec[of 0 "int (length d) - 1" d] by (simp_all add: quicksort_def)
  then show "mset (quicksort d) = mset d" by (simp add: same_range_def)
  have len: "length (quicksort d) = length d" by (rule same_range_length[OF r(1)])
  have "quicksort d ! i \<le> quicksort d ! j" if "i \<le> j" "j < length (quicksort d)" for i j
    using r(2) that len unfolding sorted_range_def arr_get_def
    by (elim allE[of _ "int i"] allE[of _ "int j"]) auto
  then show "sorted (quicksort d)" by (simp add: sorted_iff_nth_mono)
qed

end
