(* ===== verification/Chaincodes.thy ===== *)
theory Chaincodes
  imports Executor Random_Gen Quick_Sort
begin

text \<open>
  The three chaincodes (\<^verbatim>\<open>src/block_server/worker/chaincode\<close>) and \<^verbatim>\<open>ChaincodeManager\<close>: the
  SmallBank transfers, the YCSB key-value operations and the ORM test. Protobuf messages are
  generated code: parsing and serialising them are the functions of the record \<open>cc_libs\<close>, together
  with the iteration order of \<^verbatim>\<open>std::unordered_map\<close>. A return value of 0 makes the executor abort
  the transaction.

  Every chaincode is shown to meet the contract the executor needs (\<open>cc_ok\<close> and complete
  tables).
\<close>

section \<open>Messages and arguments\<close>

record ycsb_payload =
  pl_reads :: "string list"
  pl_update :: "string list"
  pl_table :: string

record cc_libs =
  parse_payload :: "string \<Rightarrow> ycsb_payload"
  parse_pairs :: "string \<Rightarrow> (string \<times> string) list"
  serialize_pairs :: "(string \<times> string) list \<Rightarrow> string"
  umap_order :: "(string \<times> string) list \<Rightarrow> (string \<times> string) list"

definition arg :: "string list \<Rightarrow> nat \<Rightarrow> (string, 's) cc" where
  "arg args i = cc_lift (if i < length args then Some (args ! i) else None)"

fun cc_fold :: "('b \<Rightarrow> 'a \<Rightarrow> ('b, 's) cc) \<Rightarrow> 'a list \<Rightarrow> 'b \<Rightarrow> ('b, 's) cc" where
  "cc_fold f [] b = cc_return b"
| "cc_fold f (x # xs) b = cc_bind (f b x) (cc_fold f xs)"

text \<open>\<^verbatim>\<open>newInsert(table)\<close>, \<^verbatim>\<open>set("key", key)\<close>, \<^verbatim>\<open>set("value", value)\<close>.\<close>

definition put_row :: "string \<Rightarrow> string \<Rightarrow> string \<Rightarrow> (unit, 's) cc" where
  "put_row table key value =
     cc_bind (newInsert table) (\<lambda>ins.
     cc_bind (insert_set ''key'' key ins) (\<lambda>(_, ins1).
     cc_bind (insert_set ''value'' value ins1) (\<lambda>_. cc_return ())))"

text \<open>The two \<^verbatim>\<open>queryLambda\<close>s: an empty value reads as the default.\<close>

definition get_row :: "'s storage_ops \<Rightarrow> string \<Rightarrow> string \<Rightarrow> string \<Rightarrow> (string, 's) cc" where
  "get_row S table dflt key =
     cc_bind (executeQuery S (query_filter ''key'' key (newQuery table))) (\<lambda>r.
       if \<not> it_hasNext r then cc_return dflt
       else cc_bind (it_getString ''value'' r) (\<lambda>(v, r1).
         if v = [] then cc_return dflt
         else cc_bind (it_getString ''value'' r1) (\<lambda>(v2, _). cc_return v2)))"

section \<open>SmallBank\<close>

definition BALANCE :: int where "BALANCE = 1000"

definition savingTab :: string where "savingTab = ''saving''"

definition checkingTab :: string where "checkingTab = ''checking''"

definition savingKey :: "string \<Rightarrow> string" where
  "savingKey account = savingTab @ ''_'' @ account"

definition checkingKey :: "string \<Rightarrow> string" where
  "checkingKey account = checkingTab @ ''_'' @ account"

definition sb_query :: "'s storage_ops \<Rightarrow> string \<Rightarrow> (string, 's) cc" where
  "sb_query S key = get_row S ''small_bank'' (to_string_int BALANCE) key"

definition sb_update :: "string \<Rightarrow> int \<Rightarrow> (unit, 's) cc" where
  "sb_update key value = put_row ''small_bank'' key (to_string_int value)"

definition sb_getBalance :: "'s storage_ops \<Rightarrow> string \<Rightarrow> (int, 's) cc" where
  "sb_getBalance S account =
     cc_bind (sb_query S (savingKey account)) (\<lambda>bal_str1.
     cc_bind (sb_query S (checkingKey account)) (\<lambda>bal_str2. cc_return 1))"

definition sb_amalgamate :: "'s storage_ops \<Rightarrow> string \<Rightarrow> string \<Rightarrow> (int, 's) cc" where
  "sb_amalgamate S from to =
     (if from = to then cc_return 0
      else
        cc_bind (sb_query S (savingKey from)) (\<lambda>src_bal_str.
        cc_bind (sb_query S (checkingKey to)) (\<lambda>dest_bal_str.
        cc_bind (sb_update (savingKey from) 0) (\<lambda>_.
        cc_bind (cc_lift (int_op (strtol_int dest_bal_str + strtol_int src_bal_str))) (\<lambda>total.
        cc_bind (sb_update (checkingKey to) total) (\<lambda>_. cc_return 1))))))"

text \<open>
  \<^verbatim>\<open>updateBalance\<close> and \<^verbatim>\<open>updateSaving\<close> are the same code on the two accounts; \<^verbatim>\<open>-amount\<close> is only
  evaluated for a negative amount.
\<close>

definition sb_add :: "'s storage_ops \<Rightarrow> string \<Rightarrow> string \<Rightarrow> (int, 's) cc" where
  "sb_add S key val =
     cc_bind (sb_query S key) (\<lambda>bal_str.
       (let balance = strtol_int bal_str; amount = strtol_int val
        in cc_bind (cc_lift (if amount < 0 then map_option (\<lambda>m. balance < m) (int_op (- amount)) else Some False))
           (\<lambda>refuse.
              if refuse then cc_return 0
              else cc_bind (cc_lift (int_op (balance + amount))) (\<lambda>total.
                   cc_bind (sb_update key total) (\<lambda>_. cc_return 1)))))"

definition sb_updateBalance :: "'s storage_ops \<Rightarrow> string \<Rightarrow> string \<Rightarrow> (int, 's) cc" where
  "sb_updateBalance S from val = sb_add S (checkingKey from) val"

definition sb_updateSaving :: "'s storage_ops \<Rightarrow> string \<Rightarrow> string \<Rightarrow> (int, 's) cc" where
  "sb_updateSaving S from val = sb_add S (savingKey from) val"

definition sb_sendPayment :: "'s storage_ops \<Rightarrow> string \<Rightarrow> string \<Rightarrow> string \<Rightarrow> (int, 's) cc" where
  "sb_sendPayment S from to amountRaw =
     (if from = to then cc_return 0
      else
        cc_bind (sb_query S (checkingKey from)) (\<lambda>bal_str1.
        cc_bind (sb_query S (checkingKey to)) (\<lambda>bal_str2.
          (let amount = strtol_int amountRaw
           in cc_bind (cc_lift (int_op (strtol_int bal_str1 - amount))) (\<lambda>bal1.
              if bal1 < 0 \<or> amount < 0 then cc_return 0
              else cc_bind (cc_lift (int_op (strtol_int bal_str2 + amount))) (\<lambda>bal2.
                   cc_bind (sb_update (checkingKey from) bal1) (\<lambda>_.
                   cc_bind (sb_update (checkingKey to) bal2) (\<lambda>_. cc_return 1))))))))"

definition sb_writeCheck :: "'s storage_ops \<Rightarrow> string \<Rightarrow> string \<Rightarrow> (int, 's) cc" where
  "sb_writeCheck S from amountRaw =
     cc_bind (sb_query S (checkingKey from)) (\<lambda>bal_str1.
     cc_bind (cc_lift (int_op (strtol_int bal_str1 - strtol_int amountRaw))) (\<lambda>balance.
       if balance < 0 then cc_return 0
       else cc_bind (sb_update (checkingKey from) balance) (\<lambda>_. cc_return 1)))"

definition sb_fill :: "string \<Rightarrow> rng \<Rightarrow> (rng, 's) cc" where
  "sb_fill tab s0 =
     cc_fold (\<lambda>s i. let (x, s1) = next_u64 s
                    in cc_bind (put_row ''small_bank'' (tab @ ''_'' @ to_string_nat i)
                                 (to_string_nat (unat (x mod 100)))) (\<lambda>_. cc_return s1))
       [0..<10000] s0"

definition sb_InitFunc :: "(int, 's) cc" where
  "sb_InitFunc =
     cc_bind (sb_fill checkingTab (init_seed 0)) (\<lambda>s.
     cc_bind (sb_fill savingTab s) (\<lambda>_. cc_return 1))"

definition sb_Invoke :: "cc_libs \<Rightarrow> 's storage_ops \<Rightarrow> string \<Rightarrow> string list \<Rightarrow> (int, 's) cc" where
  "sb_Invoke P S name args =
     cc_bind (arg args 0) (\<lambda>rawArg.
       (let realArgs = pl_reads (parse_payload P rawArg)
        in if name = ''amalgamate'' then
             cc_bind (arg realArgs 0) (\<lambda>a. cc_bind (arg realArgs 1) (\<lambda>b. sb_amalgamate S a b))
           else if name = ''getBalance'' then
             cc_bind (arg realArgs 0) (\<lambda>a. sb_getBalance S a)
           else if name = ''updateBalance'' then
             cc_bind (arg realArgs 0) (\<lambda>a. cc_bind (arg realArgs 1) (\<lambda>b. sb_updateBalance S a b))
           else if name = ''updateSaving'' then
             cc_bind (arg realArgs 0) (\<lambda>a. cc_bind (arg realArgs 1) (\<lambda>b. sb_updateSaving S a b))
           else if name = ''sendPayment'' then
             cc_bind (arg realArgs 0) (\<lambda>a. cc_bind (arg realArgs 1) (\<lambda>b.
             cc_bind (arg realArgs 2) (\<lambda>c. sb_sendPayment S a b c)))
           else if name = ''writeCheck'' then
             cc_bind (arg realArgs 0) (\<lambda>a. cc_bind (arg realArgs 1) (\<lambda>b. sb_writeCheck S a b))
           else if name = ''create_data'' then sb_InitFunc
           else cc_return 0))"

section \<open>YCSB\<close>

definition defValue :: string where "defValue = ''default_value''"

definition ycsb_query :: "'s storage_ops \<Rightarrow> string \<Rightarrow> (string, 's) cc" where
  "ycsb_query S key = get_row S ''ycsb'' defValue key"

definition ycsb_update :: "string \<Rightarrow> string \<Rightarrow> (unit, 's) cc" where
  "ycsb_update key value = put_row ''ycsb'' key value"

definition ycsb_merge :: "cc_libs \<Rightarrow> string \<Rightarrow> string \<Rightarrow> (string \<times> string) list" where
  "ycsb_merge P old app =
     (let tmp1 = fold (\<lambda>(k, v). AList.update k v) (parse_pairs P old) [];
          tmp2 = fold (\<lambda>(k, v). AList.update k v) (parse_pairs P app) tmp1
      in umap_order P tmp2)"

definition ycsb_write :: "cc_libs \<Rightarrow> 's storage_ops \<Rightarrow> string \<Rightarrow> string \<Rightarrow> (int, 's) cc" where
  "ycsb_write P S key val =
     cc_bind (ycsb_query S key) (\<lambda>old.
     cc_bind (ycsb_update key (serialize_pairs P (ycsb_merge P old val))) (\<lambda>_. cc_return 1))"

definition ycsb_del :: "string \<Rightarrow> (int, 's) cc" where
  "ycsb_del key = cc_bind (ycsb_update key []) (\<lambda>_. cc_return 1)"

definition ycsb_read :: "'s storage_ops \<Rightarrow> string \<Rightarrow> string \<Rightarrow> (int, 's) cc" where
  "ycsb_read S key flt = cc_bind (ycsb_query S key) (\<lambda>_. cc_return 1)"

definition ycsb_InitFunc :: "(int, 's) cc" where
  "ycsb_InitFunc = cc_return 0"

definition ycsb_Invoke :: "cc_libs \<Rightarrow> 's storage_ops \<Rightarrow> string \<Rightarrow> string list \<Rightarrow> (int, 's) cc" where
  "ycsb_Invoke P S name args =
     cc_bind (arg args 0) (\<lambda>rawArg.
       (let realArgs = pl_reads (parse_payload P rawArg)
        in if name = ''write'' then
             cc_bind (arg realArgs 0) (\<lambda>a. cc_bind (arg realArgs 1) (\<lambda>b. ycsb_write P S a b))
           else if name = ''del'' then cc_bind (arg realArgs 0) (\<lambda>a. ycsb_del a)
           else if name = ''read'' then
             cc_bind (arg realArgs 0) (\<lambda>a. cc_bind (arg realArgs 1) (\<lambda>b. ycsb_read S a b))
           else if name = ''create_data'' then ycsb_InitFunc
           else cc_return 0))"

section \<open>ORM test\<close>

definition YCSB_FIELD_SIZE :: "64 word" where "YCSB_FIELD_SIZE = 10"

definition KEY_PER_PA :: nat where "KEY_PER_PA = 200000"

definition ot_InitFunc :: "(int, 's) cc" where
  "ot_InitFunc =
     cc_bind (createTable ''test_table'') (\<lambda>table.
     cc_bind (table_addField table ((intField ''key'' False)\<lparr>f_primary := True\<rparr>)) (\<lambda>_.
     cc_bind (table_addField table (charField ''value'' 200 True)) (\<lambda>_. cc_return 1)))"

definition ot_createData :: "tid_size_t \<Rightarrow> (int, 's) cc" where
  "ot_createData tid =
     cc_bind (cc_fold (\<lambda>s i.
        cc_bind (newInsert ''test_table'') (\<lambda>ins.
        cc_bind (insert_set ''key'' (to_string_nat i) ins) (\<lambda>(_, ins1).
        cc_bind (cc_lift (a_string YCSB_FIELD_SIZE YCSB_FIELD_SIZE s)) (\<lambda>(w, s1).
        cc_bind (insert_set ''value'' w ins1) (\<lambda>_. cc_return s1)))))
       [0..<KEY_PER_PA] (init_seed tid))
     (\<lambda>_. cc_return 1)"

text \<open>
  \<^verbatim>\<open>for (r = executeQuery(); r->hasNext(); r->next())\<close> around reads of key and value. Two rounds
  of fuel are enough: the iterator has one row.
\<close>

fun ot_scan :: "nat \<Rightarrow> results_iterator \<Rightarrow> (unit, 's) cc" where
  "ot_scan 0 r = cc_lift None"
| "ot_scan (Suc n) r =
     (if it_hasNext r
      then cc_bind (it_getString ''key'' r) (\<lambda>(_, r1).
           cc_bind (it_getString ''value'' r1) (\<lambda>(_, r2). ot_scan n (snd (it_next r2))))
      else cc_return ())"

definition ot_read :: "'s storage_ops \<Rightarrow> string \<Rightarrow> (unit, 's) cc" where
  "ot_read S key =
     cc_bind (executeQuery S (query_filter ''key'' key (newQuery ''test_table''))) (ot_scan 2)"

definition ot_correctTest :: "'s storage_ops \<Rightarrow> tid_size_t \<Rightarrow> string \<Rightarrow> (int, 's) cc" where
  "ot_correctTest S tid key =
     cc_bind (ot_read S key) (\<lambda>_.
     cc_bind (put_row ''test_table'' key (to_string_nat (unat tid))) (\<lambda>_. cc_return 1))"

definition ot_mixed :: "cc_libs \<Rightarrow> 's storage_ops \<Rightarrow> tid_size_t \<Rightarrow> string \<Rightarrow> (int, 's) cc" where
  "ot_mixed P S tid rawArg =
     (let pl = parse_payload P rawArg
      in cc_bind (cc_fold (\<lambda>s w.
            cc_bind (newInsert ''test_table'') (\<lambda>ins.
            cc_bind (insert_set ''key'' w ins) (\<lambda>(_, ins1).
            cc_bind (cc_lift (a_string YCSB_FIELD_SIZE YCSB_FIELD_SIZE s)) (\<lambda>(v, s1).
            cc_bind (insert_set ''value'' (v @ to_string_nat (unat tid)) ins1) (\<lambda>_. cc_return s1)))))
           (pl_update pl) (init_seed tid)) (\<lambda>_.
         cc_bind (cc_iter (ot_read S) (pl_reads pl)) (\<lambda>_. cc_return 1)))"

definition ot_timeConsume :: "string \<Rightarrow> (int, 's) cc" where
  "ot_timeConsume delay = cc_return 1"

text \<open>The numbers \<^verbatim>\<open>calculateConsume\<close> sorts; the conversion of \<^verbatim>\<open>uint64_t\<close> to \<^verbatim>\<open>int\<close> wraps.\<close>

fun ot_numbers :: "nat \<Rightarrow> rng \<Rightarrow> int list" where
  "ot_numbers 0 s = []"
| "ot_numbers (Suc n) s = (let (x, s1) = next_u64 s in long_to_int (uint x) # ot_numbers n s1)"

definition ot_calculateConsume :: "string \<Rightarrow> (int, 's) cc" where
  "ot_calculateConsume delay =
     (let d = quicksort (ot_numbers 100000 (init_seed 2626345)) in cc_return 1)"

definition ot_Invoke :: "cc_libs \<Rightarrow> 's storage_ops \<Rightarrow> tid_size_t \<Rightarrow> string \<Rightarrow> string list \<Rightarrow> (int, 's) cc" where
  "ot_Invoke P S tid name args =
     (if name = ''correct_test'' then cc_bind (arg args 0) (\<lambda>a. ot_correctTest S tid a)
      else if name = ''create_table'' then ot_InitFunc
      else if name = ''create_data'' then ot_createData tid
      else if name = ''mixed'' then cc_bind (arg args 0) (\<lambda>a. ot_mixed P S tid a)
      else if name = ''time'' then cc_bind (arg args 0) (\<lambda>a. ot_timeConsume a)
      else if name = ''calculate'' then cc_bind (arg args 0) (\<lambda>a. ot_calculateConsume a)
      else cc_return 0)"

section \<open>ChaincodeManager\<close>

datatype cc_type = YCSB | SmallBank | ORMTest

record cc_manager =
  isInit :: bool
  chaincodeType :: "cc_type option"

definition loadChaincodeManager :: "string \<Rightarrow> cc_manager \<Rightarrow> cc_manager option" where
  "loadChaincodeManager ccType m =
     (if isInit m then Some m
      else do {
        t \<leftarrow> map_of [(''ycsb'', YCSB), (''small_bank'', SmallBank), (''test'', ORMTest)] ccType;
        Some (m\<lparr>chaincodeType := Some t, isInit := True\<rparr>)
      })"

definition initChaincodeManager :: "string \<Rightarrow> cc_manager \<Rightarrow> cc_manager option" where
  "initChaincodeManager ccType m = (if isInit m then Some m else loadChaincodeManager ccType m)"

definition reloadChaincodeManager :: "string \<Rightarrow> cc_manager \<Rightarrow> cc_manager option" where
  "reloadChaincodeManager ccType m = loadChaincodeManager ccType (m\<lparr>isInit := False\<rparr>)"

text \<open>
  \<^verbatim>\<open>getChaincodeInstance(txn)->InvokeChaincode(payload)\<close>; the vector of arguments holds the
  payload alone.
\<close>

fun chaincode_of :: "cc_libs \<Rightarrow> 's storage_ops \<Rightarrow> cc_type \<Rightarrow> 's chaincode" where
  "chaincode_of P S YCSB tid p = ycsb_Invoke P S (p_header p) [p_payload p]"
| "chaincode_of P S SmallBank tid p = sb_Invoke P S (p_header p) [p_payload p]"
| "chaincode_of P S ORMTest tid p = ot_Invoke P S tid (p_header p) [p_payload p]"

section \<open>Complete tables\<close>

text \<open>Every table a chaincode leaves in the helper has its two columns.\<close>

definition tables_ok :: "('a, 's) cc \<Rightarrow> bool" where
  "tables_ok m \<longleftrightarrow> (\<forall>st a st'. m st = Some (a, st') \<longrightarrow> tables_complete (h_tables (helper st)) \<longrightarrow>
     tables_complete (h_tables (helper st')))"

named_theorems tab_intros

lemma tables_ok_bind [tab_intros]:
  "tables_ok m \<Longrightarrow> (\<And>a. tables_ok (k a)) \<Longrightarrow> tables_ok (cc_bind m k)"
  unfolding tables_ok_def cc_bind_def by (fastforce simp: Option.bind_eq_Some_conv)

lemma tables_ok_basic [tab_intros]:
  "tables_ok (cc_return a)" "tables_ok (cc_lift x)" "tables_ok (newInsert t)"
  "tables_ok (insert_set attr v ins)" "tables_ok (it_getString attr it)" "tables_ok (executeQuery S q)"
  by (auto simp: tables_ok_def cc_return_def cc_lift_def newInsert_def insert_set_def it_getString_def
      executeQuery_def Let_def Option.bind_eq_Some_conv split: if_splits)

lemma tables_ok_iter [tab_intros]: "(\<And>x. tables_ok (body x)) \<Longrightarrow> tables_ok (cc_iter body xs)"
  by (induction xs) (auto intro: tab_intros)

lemma tables_ok_fold [tab_intros]: "(\<And>b x. tables_ok (f b x)) \<Longrightarrow> tables_ok (cc_fold f xs b)"
  by (induction xs arbitrary: b) (auto intro: tab_intros)

lemma tables_ok_scan [tab_intros]: "tables_ok (ot_scan n r)"
  by (induction n r rule: ot_scan.induct) (auto intro!: tab_intros split: prod.splits)

lemma tables_ok_InitFunc [tab_intros]: "tables_ok ot_InitFunc"
  by (auto simp: tables_ok_def ot_InitFunc_def cc_bind_def cc_return_def createTable_def
      table_addField_def addField_def Let_def tables_complete_def nth_append)

lemma tables_ok_row [tab_intros]: "tables_ok (put_row t k v)" "tables_ok (get_row S t d k)"
  by (auto simp: put_row_def get_row_def intro!: tab_intros split: prod.splits)

lemmas small_bank_defs = sb_Invoke_def sb_amalgamate_def sb_getBalance_def sb_updateBalance_def
  sb_updateSaving_def sb_sendPayment_def sb_writeCheck_def sb_InitFunc_def sb_add_def sb_fill_def
  sb_query_def sb_update_def arg_def Let_def

lemmas ycsb_defs = ycsb_Invoke_def ycsb_write_def ycsb_del_def ycsb_read_def ycsb_InitFunc_def
  ycsb_query_def ycsb_update_def arg_def Let_def

lemmas orm_test_defs = ot_Invoke_def ot_correctTest_def ot_createData_def ot_mixed_def
  ot_timeConsume_def ot_calculateConsume_def ot_read_def arg_def Let_def

lemma chaincode_tables_ok: "tables_ok (chaincode_of P S t tid p)"
proof (cases t)
  case YCSB
  then show ?thesis by (auto simp: ycsb_defs intro!: tab_intros)
next
  case SmallBank
  then show ?thesis by (auto simp: small_bank_defs intro!: tab_intros split: prod.splits)
next
  case ORMTest
  then show ?thesis by (auto simp: orm_test_defs intro!: tab_intros split: prod.splits)
qed

section \<open>Reads are recorded, rows are left alone\<close>

lemma cc_ok_fold [cc_intros]:
  "(\<And>b x. cc_ok sinv vw (f b x)) \<Longrightarrow> cc_ok sinv vw (cc_fold f xs b)"
  by (induction xs arbitrary: b) (auto intro: cc_intros)

lemma cc_ok_getString: "cc_ok sinv vw (it_getString attr it)"
  by (auto simp: cc_ok_def it_getString_def Let_def reads_in_def split: if_splits)

text \<open>A query followed by a first read is \<open>query_read\<close> followed by the rest.\<close>

lemma cc_bind_assoc: "cc_bind (cc_bind m k) l = cc_bind m (\<lambda>a. cc_bind (k a) l)"
  by (auto simp: cc_bind_def fun_eq_iff split: bind_split)

lemma executeQuery_cong:
  assumes "\<And>it. it_index it = 0 \<Longrightarrow> f it = g it"
  shows "cc_bind (executeQuery S q) f = cc_bind (executeQuery S q) g"
  using assms by (auto simp: cc_bind_def executeQuery_def fun_eq_iff split: bind_split)

lemma get_row_eq:
  "get_row S table dflt key =
     cc_bind (query_read S (query_filter ''key'' key (newQuery table)) ''value'') (\<lambda>(v, r1).
       if v = [] then cc_return dflt
       else cc_bind (it_getString ''value'' r1) (\<lambda>(v2, _). cc_return v2))"
  unfolding get_row_def query_read_def cc_bind_assoc
  by (rule executeQuery_cong) (simp add: it_hasNext_def)

lemma ot_read_eq:
  "ot_read S key =
     cc_bind (query_read S (query_filter ''key'' key (newQuery ''test_table'')) ''key'') (\<lambda>(_, r1).
       cc_bind (it_getString ''value'' r1) (\<lambda>(_, r2). ot_scan 1 (snd (it_next r2))))"
  unfolding ot_read_def query_read_def cc_bind_assoc
  by (rule executeQuery_cong) (simp add: numeral_2_eq_2 it_hasNext_def)

lemma cc_ok_scan: "cc_ok sinv vw (ot_scan n r)"
  by (induction n r rule: ot_scan.induct) (auto intro!: cc_intros cc_ok_getString split: prod.splits)

lemma cc_ok_put_row [cc_intros]: "cc_ok sinv vw (put_row t k v)"
  by (auto simp: put_row_def intro!: cc_intros split: prod.splits)

context db_storage
begin

lemma cc_ok_get_row [cc_intros]: "cc_ok sinv rows (get_row S t d k)"
  unfolding get_row_eq by (auto intro!: cc_intros cc_ok_getString split: prod.splits)

lemma cc_ok_ot_read [cc_intros]: "cc_ok sinv rows (ot_read S k)"
  unfolding ot_read_eq by (auto intro!: cc_intros cc_ok_getString cc_ok_scan split: prod.splits)

lemma chaincode_cc_ok: "cc_ok sinv rows (chaincode_of P S t tid p)"
proof (cases t)
  case YCSB
  then show ?thesis by (auto simp: ycsb_defs intro!: cc_intros)
next
  case SmallBank
  then show ?thesis by (auto simp: small_bank_defs intro!: cc_intros split: prod.splits)
next
  case ORMTest
  then show ?thesis
    by (auto simp: orm_test_defs ot_InitFunc_def simp flip: ot_read_def intro!: cc_intros split: prod.splits)
qed

end

text \<open>Every storage, reservation table and chaincode of the program form a node.\<close>

lemma aria_nodeI:
  assumes "reserve_table R rinv rts wts" and "db_storage S sinv view loc"
  shows "aria_node R rinv rts wts S sinv view loc (chaincode_of P S t)"
  using assms db_storage.chaincode_cc_ok[OF assms(2)] chaincode_tables_ok
  unfolding aria_node_def aria_node_axioms_def tables_ok_def by blast

end
