(* ===== verification/Small_Bank.thy ===== *)
theory Small_Bank
  imports Chaincodes
begin

text \<open>
  What the SmallBank chaincode does to the accounts, read as integers: the exact effect of every
  operation on the rows, for any storage that meets its interface.
\<close>

section \<open>Accounts\<close>

definition sb_value :: "(cell \<Rightarrow> string) \<Rightarrow> string \<Rightarrow> string" where
  "sb_value v key =
     (if v (''small_bank'', key) = [] then to_string_int BALANCE else v (''small_bank'', key))"

definition sb_balance :: "(cell \<Rightarrow> string) \<Rightarrow> string \<Rightarrow> int" where
  "sb_balance v key = strtol_int (sb_value v key)"

text \<open>The rows once the writes of the transaction are committed.\<close>

definition rows_after :: "'s cc_state \<Rightarrow> (cell \<Rightarrow> string) \<Rightarrow> cell \<Rightarrow> string" where
  "rows_after st v = apply_effects (writes (h_rw (helper st))) v"

text \<open>A state in which a chaincode starts: it may write and has not written yet.\<close>

definition may_write :: "'s cc_state \<Rightarrow> bool" where
  "may_write st \<longleftrightarrow> \<not> h_readOnly (helper st) \<and> writes (h_rw (helper st)) = []"

definition sb_row :: "string \<Rightarrow> int \<Rightarrow> kv_write" where
  "sb_row key value =
     \<lparr>w_table = ''small_bank'', w_key = key, w_value = to_string_int value, w_is_delete = False\<rparr>"

lemma keys_distinct [simp]:
  "savingKey a \<noteq> checkingKey b" "checkingKey b \<noteq> savingKey a"
  "checkingKey a = checkingKey b \<longleftrightarrow> a = b" "savingKey a = savingKey b \<longleftrightarrow> a = b"
  by (simp_all add: savingKey_def checkingKey_def savingTab_def checkingTab_def)

lemma sb_balance_range: "int_range (sb_balance v key)"
  by (simp add: sb_balance_def strtol_int_range)

lemma sb_balance_written:
  "int_range x \<Longrightarrow> sb_balance (v((''small_bank'', key) := to_string_int x)) key' =
     (if key' = key then x else sb_balance v key')"
  by (simp add: sb_balance_def sb_value_def strtol_to_string to_string_int_nonempty)

lemma sb_row_effect [simp]: "write_effect (sb_row k x) = ((''small_bank'', k), to_string_int x)"
  by (simp add: write_effect_def sb_row_def)

section \<open>Reads and writes of a running chaincode\<close>

text \<open>\<open>st'\<close> is \<open>st\<close> after some reads.\<close>

definition only_reads :: "('s \<Rightarrow> bool) \<Rightarrow> ('s \<Rightarrow> 'k \<Rightarrow> string) \<Rightarrow> 's cc_state \<Rightarrow> 's cc_state \<Rightarrow> bool" where
  "only_reads sinv view st st' \<longleftrightarrow> sinv (cc_storage st') \<and> view (cc_storage st') = view (cc_storage st) \<and>
     writes (h_rw (helper st')) = writes (h_rw (helper st)) \<and>
     h_readOnly (helper st') = h_readOnly (helper st)"

lemma only_reads_trans: "only_reads sinv view a b \<Longrightarrow> only_reads sinv view b c \<Longrightarrow> only_reads sinv view a c"
  by (simp add: only_reads_def)

lemma sb_update_run:
  assumes "\<not> h_readOnly (helper st)" and "\<forall>w \<in> set (writes (h_rw (helper st))). w_key w \<noteq> key"
  shows "sb_update key x st = Some ((), st\<lparr>helper := add_write (sb_row key x) (helper st)\<rparr>)"
  using assms
  by (auto simp: sb_update_def put_row_def cc_bind_def cc_return_def newInsert_def insert_set_def
      sb_row_def list_ex_iff)

context db_storage
begin

lemma get_row_run:
  assumes "sinv (cc_storage st)"
  shows "\<exists>st'. get_row S t d k st =
      Some (if rows (cc_storage st) (t, k) = [] then d else rows (cc_storage st) (t, k), st') \<and>
    only_reads sinv view st st'"
  using query_read_run[OF assms, of "query_filter ''key'' k (newQuery t)" "''value''"]
  by (auto simp: get_row_eq cc_bind_def cc_return_def it_getString_def query_filter_def newQuery_def
      only_reads_def)

lemma sb_query_run:
  assumes "sinv (cc_storage st)"
  shows "\<exists>st'. sb_query S k st = Some (sb_value (rows (cc_storage st)) k, st') \<and>
    only_reads sinv view st st'"
  using get_row_run[OF assms, of "''small_bank''" "to_string_int BALANCE" k]
  by (simp add: sb_query_def sb_value_def)

lemma sb_query2_run:
  assumes "sinv (cc_storage st)"
  shows "\<exists>st1 st2. sb_query S k st = Some (sb_value (rows (cc_storage st)) k, st1) \<and>
    sb_query S k' st1 = Some (sb_value (rows (cc_storage st)) k', st2) \<and> only_reads sinv view st st2"
proof -
  obtain st1 where st1: "sb_query S k st = Some (sb_value (rows (cc_storage st)) k, st1)"
    "only_reads sinv view st st1" using sb_query_run[OF assms] by blast
  then have inv1: "sinv (cc_storage st1)" by (simp add: only_reads_def)
  obtain st2 where "sb_query S k' st1 = Some (sb_value (rows (cc_storage st1)) k', st2)"
    "only_reads sinv view st1 st2" using sb_query_run[OF inv1] by blast
  then show ?thesis
    using st1 only_reads_trans[OF st1(2)] by (auto simp: only_reads_def)
qed

section \<open>The operations\<close>

text \<open>\<^verbatim>\<open>sendPayment\<close>, every branch; undefined only when an \<^verbatim>\<open>int\<close> overflows.\<close>

lemma sendPayment_run:
  fixes src dst amountRaw :: string
  assumes "sinv (cc_storage st)" and "may_write st"
  defines "v \<equiv> rows (cc_storage st)"
  defines "b1 \<equiv> sb_balance v (checkingKey src)" and "b2 \<equiv> sb_balance v (checkingKey dst)"
    and "amount \<equiv> strtol_int amountRaw"
  assumes "src \<noteq> dst" and "int_range (b1 - amount)" and "int_range (b2 + amount)"
  shows "\<exists>st'. sb_sendPayment S src dst amountRaw st =
      Some (if b1 < amount \<or> amount < 0 then 0 else 1, st') \<and>
    writes (h_rw (helper st')) =
      (if b1 < amount \<or> amount < 0 then []
       else [sb_row (checkingKey src) (b1 - amount), sb_row (checkingKey dst) (b2 + amount)])"
proof -
  obtain st1 st2 where st: "sb_query S (checkingKey src) st = Some (sb_value v (checkingKey src), st1)"
    "sb_query S (checkingKey dst) st1 = Some (sb_value v (checkingKey dst), st2)"
    "only_reads sinv view st st2"
    using sb_query2_run[OF assms(1)] unfolding v_def by blast
  have w: "\<not> h_readOnly (helper st2)" "writes (h_rw (helper st2)) = []"
    using st(3) assms(2) by (simp_all add: only_reads_def may_write_def)
  show ?thesis
    using assms(7-9) w
    by (auto simp: sb_sendPayment_def cc_bind_def cc_lift_def cc_return_def st Let_def int_op_def
        sb_update_run sb_row_def b1_def b2_def amount_def sb_balance_def)
qed

lemma amalgamate_run:
  fixes src dst :: string
  assumes "sinv (cc_storage st)" and "may_write st"
  defines "v \<equiv> rows (cc_storage st)"
  defines "b1 \<equiv> sb_balance v (savingKey src)" and "b2 \<equiv> sb_balance v (checkingKey dst)"
  assumes "src \<noteq> dst" and "int_range (b2 + b1)"
  shows "\<exists>st'. sb_amalgamate S src dst st = Some (1, st') \<and>
    writes (h_rw (helper st')) = [sb_row (savingKey src) 0, sb_row (checkingKey dst) (b2 + b1)]"
proof -
  obtain st1 st2 where st: "sb_query S (savingKey src) st = Some (sb_value v (savingKey src), st1)"
    "sb_query S (checkingKey dst) st1 = Some (sb_value v (checkingKey dst), st2)"
    "only_reads sinv view st st2"
    using sb_query2_run[OF assms(1)] unfolding v_def by blast
  have w: "\<not> h_readOnly (helper st2)" "writes (h_rw (helper st2)) = []"
    using st(3) assms(2) by (simp_all add: only_reads_def may_write_def)
  show ?thesis
    using assms(6,7) w
    by (auto simp: sb_amalgamate_def cc_bind_def cc_lift_def cc_return_def st Let_def int_op_def
        sb_update_run sb_row_def b1_def b2_def sb_balance_def)
qed

lemma add_run:
  fixes key val :: string
  assumes "sinv (cc_storage st)" and "may_write st"
  defines "b \<equiv> sb_balance (rows (cc_storage st)) key" and "amount \<equiv> strtol_int val"
  assumes "int_range (b + amount)" and "int_range (- amount)"
  shows "\<exists>st'. sb_add S key val st = Some (if b + amount < 0 \<and> amount < 0 then 0 else 1, st') \<and>
    writes (h_rw (helper st')) = (if b + amount < 0 \<and> amount < 0 then [] else [sb_row key (b + amount)])"
proof -
  obtain st1 where st: "sb_query S key st = Some (sb_value (rows (cc_storage st)) key, st1)"
    "only_reads sinv view st st1"
    using sb_query_run[OF assms(1)] by blast
  have w: "\<not> h_readOnly (helper st1)" "writes (h_rw (helper st1)) = []"
    using st(2) assms(2) by (simp_all add: only_reads_def may_write_def)
  show ?thesis
    using assms(5,6) w
    by (auto simp: sb_add_def cc_bind_def cc_lift_def cc_return_def st Let_def int_op_def
        sb_update_run sb_row_def b_def amount_def sb_balance_def)
qed

lemma writeCheck_run:
  fixes src amountRaw :: string
  assumes "sinv (cc_storage st)" and "may_write st"
  defines "b \<equiv> sb_balance (rows (cc_storage st)) (checkingKey src)" and "amount \<equiv> strtol_int amountRaw"
  assumes "int_range (b - amount)"
  shows "\<exists>st'. sb_writeCheck S src amountRaw st = Some (if b < amount then 0 else 1, st') \<and>
    writes (h_rw (helper st')) = (if b < amount then [] else [sb_row (checkingKey src) (b - amount)])"
proof -
  obtain st1 where st: "sb_query S (checkingKey src) st =
      Some (sb_value (rows (cc_storage st)) (checkingKey src), st1)"
    "only_reads sinv view st st1"
    using sb_query_run[OF assms(1)] by blast
  have w: "\<not> h_readOnly (helper st1)" "writes (h_rw (helper st1)) = []"
    using st(2) assms(2) by (simp_all add: only_reads_def may_write_def)
  show ?thesis
    using assms(5) w
    by (auto simp: sb_writeCheck_def cc_bind_def cc_lift_def cc_return_def st Let_def int_op_def
        sb_update_run sb_row_def b_def amount_def sb_balance_def)
qed

end

section \<open>Money is conserved\<close>

text \<open>An account of a start state whose rows are empty, and the state itself.\<close>

definition bank_start :: "(string \<times> string) list level_db_storage cc_state" where
  "bank_start = cc_start (makeTransaction 1 5 False) hm_new"

lemma bank_start_ok: "hm_inv hash (cc_storage bank_start)" "may_write bank_start"
  by (simp_all add: bank_start_def cc_start_def may_write_def newCCORMHelper_def makeTransaction_def
      newMockTransaction_def kvrwset_clear_def)

lemma bank_start_balance: "sb_balance (ldb_view hash mem_leveldb (cc_storage bank_start)) key = 1000"
  by (simp add: sb_balance_def sb_value_def ldb_view_def getTable_def mem_leveldb_def bank_start_def
      cc_start_def BALANCE_def strtol_to_string int_range_def)

lemma strtol_200: "strtol_int ''200'' = 200"
  by code_simp



text \<open>
  SmallBank \<^verbatim>\<open>amalgamate\<close>: unless the sum overflows, the savings of one customer move to the
  checking account of another, the sum of the two accounts is unchanged and no other account is
  touched.
\<close>

theorem amalgamate_correct:
  fixes st :: "'p level_db_storage cc_state" and src dst :: string
  assumes "leveldb_ok L" and "hm_inv hash (cc_storage st)" and "may_write st"
    and v: "v = ldb_view hash L (cc_storage st)" and "src \<noteq> dst"
    and "int_range (sb_balance v (checkingKey dst) + sb_balance v (savingKey src))"
  shows "\<exists>st'. sb_amalgamate (level_db_ops hash L) src dst st = Some (1, st') \<and>
    sb_balance (rows_after st' v) =
       (sb_balance v)(savingKey src := 0,
                      checkingKey dst := sb_balance v (checkingKey dst) + sb_balance v (savingKey src)) \<and>
    sb_balance (rows_after st' v) (savingKey src) + sb_balance (rows_after st' v) (checkingKey dst) =
      sb_balance v (savingKey src) + sb_balance v (checkingKey dst)"
proof -
  obtain st' where "sb_amalgamate (level_db_ops hash L) src dst st = Some (1, st')"
    "writes (h_rw (helper st')) = [sb_row (savingKey src) 0,
       sb_row (checkingKey dst) (sb_balance v (checkingKey dst) + sb_balance v (savingKey src))]"
    using db_storage.amalgamate_run[OF level_db_storage_ok[OF assms(1)] assms(2,3,5)] assms by auto
  moreover have "int_range 0" by (simp add: int_range_def)
  ultimately show ?thesis
    using assms(6) by (auto simp: rows_after_def apply_effects_def sb_balance_written fun_eq_iff)
qed

lemma amalgamate_correct_witness:
  "\<exists>st'. sb_amalgamate (level_db_ops length mem_leveldb) ''alice'' ''bob'' bank_start = Some (1, st') \<and>
    sb_balance (rows_after st' (ldb_view length mem_leveldb (cc_storage bank_start))) (checkingKey ''bob'') = 2000"
  using amalgamate_correct[OF mem_leveldb_ok bank_start_ok refl, of "''alice''" "''bob''" length]
  by (auto simp: bank_start_balance int_range_def)

text \<open>
  SmallBank \<^verbatim>\<open>updateBalance\<close>, \<^verbatim>\<open>updateSaving\<close> and \<^verbatim>\<open>writeCheck\<close> never turn a balance
  negative that was not: when the account holds a non-negative amount before, it does after,
  and no other account changes.
\<close>

theorem deposits_and_checks_keep_nonnegative:
  fixes st :: "'p level_db_storage cc_state" and acct amountRaw :: string
  defines "amount \<equiv> strtol_int amountRaw"
  assumes "leveldb_ok L" and "hm_inv hash (cc_storage st)" and "may_write st"
    and v: "v = ldb_view hash L (cc_storage st)" and "int_range (- amount)"
    and key: "(key = checkingKey acct \<and> op \<in> {sb_updateBalance, sb_writeCheck}) \<or>
              (key = savingKey acct \<and> op = sb_updateSaving)"
    and "0 \<le> sb_balance v key"
    and "int_range (sb_balance v key + amount)" and "int_range (sb_balance v key - amount)"
  shows "\<exists>ret st'. op (level_db_ops hash L) acct amountRaw st = Some (ret, st') \<and>
    0 \<le> sb_balance (rows_after st' v) key \<and>
    (\<forall>k. k \<noteq> key \<longrightarrow> sb_balance (rows_after st' v) k = sb_balance v k)"
proof -
  note store = level_db_storage_ok[OF assms(2)]
  obtain st1 where "sb_add (level_db_ops hash L) key amountRaw st =
      Some (if sb_balance v key + amount < 0 \<and> amount < 0 then 0 else 1, st1)"
    "writes (h_rw (helper st1)) = (if sb_balance v key + amount < 0 \<and> amount < 0 then []
       else [sb_row key (sb_balance v key + amount)])"
    using db_storage.add_run[OF store assms(3,4), of key amountRaw] assms by auto
  moreover obtain st2 where "sb_writeCheck (level_db_ops hash L) acct amountRaw st =
      Some (if sb_balance v (checkingKey acct) < amount then 0 else 1, st2)"
    "writes (h_rw (helper st2)) = (if sb_balance v (checkingKey acct) < amount then []
       else [sb_row (checkingKey acct) (sb_balance v (checkingKey acct) - amount)])"
    if "key = checkingKey acct"
    using db_storage.writeCheck_run[OF store assms(3,4), of acct amountRaw] assms by auto
  ultimately show ?thesis
    using key assms(8-10)
    by (auto simp: rows_after_def apply_effects_def sb_balance_written sb_updateBalance_def
        sb_updateSaving_def)
qed

lemma deposits_and_checks_keep_nonnegative_witness:
  "\<exists>ret st'. sb_writeCheck (level_db_ops length mem_leveldb) ''alice'' ''200'' bank_start = Some (ret, st') \<and>
    0 \<le> sb_balance (rows_after st' (ldb_view length mem_leveldb (cc_storage bank_start))) (checkingKey ''alice'')"
  using deposits_and_checks_keep_nonnegative[OF mem_leveldb_ok bank_start_ok refl, of "''200''"
      "checkingKey ''alice''" "''alice''" sb_writeCheck length]
  by (auto simp: bank_start_balance strtol_200 int_range_def)

end
