(* ===== verification/Aria_Node.thy ===== *)
theory Aria_Node
  imports Aria_Protocol Small_Bank
begin

text \<open>
  The protocol on the classes the server runs: \<^verbatim>\<open>MockReserveTable\<close>, \<^verbatim>\<open>LevelDBStorage\<close> over any
  LevelDB library that behaves as documented, and the chaincodes of \<^verbatim>\<open>ChaincodeManager\<close>. The
  theorems of the locales are restated here over the definitions of the program.
\<close>

sublocale level_db_lib \<subseteq> node: aria_node "mock_reserve_ops hash" "mock_rinv hash"
  "\<lambda>rt. reg_val hash (readTableList rt)" "\<lambda>rt. reg_val hash (writeTableList rt)"
  "level_db_ops hash L" "hm_inv hash" "ldb_view hash L" "\<lambda>c. c" "chaincode_of P (level_db_ops hash L) t"
  for P t
  by (rule aria_nodeI[OF mock_rt.reserve_table_axioms ldb.db_storage_axioms])

lemma level_db_libI: "leveldb_ok L \<Longrightarrow> level_db_lib L"
  by unfold_locales

section \<open>A small epoch to evaluate\<close>

text \<open>Payments between two accounts; the payload is the amount.\<close>

definition demo_libs :: cc_libs where
  "demo_libs =
     \<lparr>parse_payload = (\<lambda>s. \<lparr>pl_reads = [''alice'', ''bob'', s], pl_update = [], pl_table = []\<rparr>),
      parse_pairs = (\<lambda>s. [(''field'', s)]), serialize_pairs = (\<lambda>l. concat (map snd l)),
      umap_order = (\<lambda>l. l)\<rparr>"

definition demo_tx :: "tid_size_t \<Rightarrow> string \<Rightarrow> string \<Rightarrow> transaction" where
  "demo_tx tid header amount =
     (makeTransaction 7 tid False)\<lparr>transactionPayload :=
        \<lparr>p_header = header, p_payload = amount, p_nonce = 0, p_digest = []\<rparr>\<rparr>"

definition demo_batch :: "transaction list" where
  "demo_batch = [demo_tx 3 ''sendPayment'' ''5'', demo_tx 2 ''getBalance'' [], demo_tx 9 ''nothing'' []]"

definition demo_env :: "((string \<times> string) list level_db_storage, mock_reserve_table) exec_env" where
  "demo_env = \<lparr>ee_db = newDatabaseImpl hm_new, ee_slot = None\<rparr>"

abbreviation demo_ops :: "(string \<times> string) list level_db_storage storage_ops" where
  "demo_ops \<equiv> level_db_ops length mem_leveldb"

lemma demo_batch_fresh: "fresh_batch 7 demo_batch" "demo_batch \<noteq> []"
  by (simp_all add: fresh_batch_def fresh_txn_def demo_batch_def demo_tx_def makeTransaction_def
      newMockTransaction_def)

lemma demo_batch_runs: "runs (chaincode_of demo_libs demo_ops SmallBank) (storage (ee_db demo_env)) demo_batch"
  by code_simp

lemma demo_env_inv: "hm_inv length (storage (ee_db demo_env))"
    "other_epoch (mock_reserve_ops length) 7 demo_env"
  by (simp_all add: demo_env_def newDatabaseImpl_def other_epoch_def)

section \<open>Serializability and determinism\<close>

text \<open>
  C1. An epoch of the Aria protocol is serializable: whatever the chaincode, the order of execution
  and the order of commit, the epoch ends, and there is a serial order of exactly the
  transactions it reports as committed whose one-by-one execution on the same database
  succeeds and leaves the same rows. The batch holds fresh transactions of one epoch with
  distinct nonzero ids, none of them aborts the process, and the provider does not hold a table
  of this epoch yet.
\<close>

theorem aria_epoch_serializable:
  fixes L :: "'p leveldb" and hash :: "string \<Rightarrow> nat"
  defines "S \<equiv> level_db_ops hash L"
  assumes "leveldb_ok L" and "fresh_batch e txs" and "txs \<noteq> []"
    and "hm_inv hash (storage (ee_db env))" and "runs (chaincode_of P S t) (storage (ee_db env)) txs"
    and "other_epoch (mock_reserve_ops hash) e env" and "\<forall>l. mset (ord l) = mset l"
  shows "\<exists>out env' sched db'.
    run_epoch S (chaincode_of P S t) (mock_reserve_ops hash) ord txs env = Some (out, env') \<and>
    mset sched = mset (map as_submitted (filter (\<lambda>t. transactionResult t = COMMIT) out)) \<and>
    fold_opt (serial_one S (chaincode_of P S t)) sched (ee_db env) = Some db' \<and>
    ldb_view hash L (storage (ee_db env')) = ldb_view hash L (storage db')"
proof -
  note node = aria_nodeI[OF mock_rt.reserve_table_axioms level_db_storage_ok[OF assms(2)]]
  show ?thesis
    unfolding S_def
    by (rule aria_node.epoch_serializable[OF node])
      (use assms in \<open>auto simp: S_def\<close>)
qed

lemma aria_epoch_serializable_witness:
  "\<exists>out env' sched db'.
    run_epoch demo_ops (chaincode_of demo_libs demo_ops SmallBank) (mock_reserve_ops length) rev
      demo_batch demo_env = Some (out, env') \<and>
    mset sched = mset (map as_submitted (filter (\<lambda>t. transactionResult t = COMMIT) out)) \<and>
    fold_opt (serial_one demo_ops (chaincode_of demo_libs demo_ops SmallBank)) sched (ee_db demo_env) = Some db' \<and>
    ldb_view length mem_leveldb (storage (ee_db env')) = ldb_view length mem_leveldb (storage db')"
  using aria_epoch_serializable[OF mem_leveldb_ok demo_batch_fresh demo_env_inv(1) demo_batch_runs
      demo_env_inv(2), of rev] by simp

text \<open>
  C2. Replicas agree: two nodes with the same rows that run the same epoch, each in its own
  order of execution and of commit, report the same result for every transaction and end with
  the same rows.
\<close>

theorem aria_epoch_deterministic:
  fixes L :: "'p leveldb" and hash :: "string \<Rightarrow> nat"
  defines "S \<equiv> level_db_ops hash L"
  assumes "leveldb_ok L" and "fresh_batch e txs1" and "txs1 \<noteq> []" and "mset txs2 = mset txs1"
    and "hm_inv hash (storage (ee_db env1))" and "hm_inv hash (storage (ee_db env2))"
    and "ldb_view hash L (storage (ee_db env2)) = ldb_view hash L (storage (ee_db env1))"
    and "runs (chaincode_of P S t) (storage (ee_db env1)) txs1"
    and "other_epoch (mock_reserve_ops hash) e env1" and "other_epoch (mock_reserve_ops hash) e env2"
    and "\<forall>l. mset (ord1 l) = mset l" and "\<forall>l. mset (ord2 l) = mset l"
  shows "\<exists>out1 env1' out2 env2'.
    run_epoch S (chaincode_of P S t) (mock_reserve_ops hash) ord1 txs1 env1 = Some (out1, env1') \<and>
    run_epoch S (chaincode_of P S t) (mock_reserve_ops hash) ord2 txs2 env2 = Some (out2, env2') \<and>
    mset out1 = mset out2 \<and>
    ldb_view hash L (storage (ee_db env1')) = ldb_view hash L (storage (ee_db env2'))"
proof -
  note node = aria_nodeI[OF mock_rt.reserve_table_axioms level_db_storage_ok[OF assms(2)]]
  show ?thesis
    unfolding S_def
    by (rule aria_node.epoch_deterministic[OF node])
      (use assms in \<open>auto simp: S_def\<close>)
qed

lemma aria_epoch_deterministic_witness:
  "\<exists>out1 env1' out2 env2'.
    run_epoch demo_ops (chaincode_of demo_libs demo_ops SmallBank) (mock_reserve_ops length) (\<lambda>l. l)
      demo_batch demo_env = Some (out1, env1') \<and>
    run_epoch demo_ops (chaincode_of demo_libs demo_ops SmallBank) (mock_reserve_ops length) rev
      (rev demo_batch) demo_env = Some (out2, env2') \<and>
    mset out1 = mset out2 \<and>
    ldb_view length mem_leveldb (storage (ee_db env1')) = ldb_view length mem_leveldb (storage (ee_db env2'))"
  using aria_epoch_deterministic[OF mem_leveldb_ok demo_batch_fresh, of "rev demo_batch" length demo_env demo_env
      demo_libs SmallBank "\<lambda>l. l" rev] demo_env_inv demo_batch_runs by simp

end
