(* ===== verification/Worker_Protocol.thy ===== *)
theory Worker_Protocol
  imports Transaction_Model
begin

text \<open>
  The hand-shake between the coordinator thread and its worker threads: \<^verbatim>\<open>WorkerInstance\<close>
  (\<^verbatim>\<open>include/block_server/worker/worker_instance.h\<close>), \<^verbatim>\<open>AriaWorker::run\<close>,
  \<^verbatim>\<open>AggregationWorker::run\<close> and the phases of \<^verbatim>\<open>AriaCoordinator\<close> and
  \<^verbatim>\<open>AggregationCoordinator\<close>. The threads interleave freely; a step is one access to the shared
  state words of a worker. \<^verbatim>\<open>coordinatorWait\<close> and \<^verbatim>\<open>workerWait\<close> are steps that are only enabled
  once their condition holds.

  The parameter \<open>agg\<close> selects the pair of classes: the aggregation protocol has one more phase
  between reading and committing.
\<close>

section \<open>Workers\<close>

datatype global_state = START | Aria_READ | Aria_COMMIT | EXIT | Aggregate

datatype worker_state = READY | ASSIGNED | FINISH_READ | FINISH_AGGREGATE | EXITED

text \<open>The control points of \<^verbatim>\<open>run\<close>: about to perform the named action.\<close>

datatype worker_pc =
    W_Start | W_WaitRead | W_WaitAggregate | W_Execute | W_Finish | W_WaitCommit | W_Commit
  | W_SetReady | W_Exited

record worker_instance =
  workerState :: worker_state
  ariaGlobalState :: global_state
  aggregationWorkload :: bool
  w_pc :: worker_pc

definition newWorkerInstance :: "bool \<Rightarrow> worker_instance" where
  "newWorkerInstance load =
     \<lparr>workerState = READY, ariaGlobalState = START, aggregationWorkload = load, w_pc = W_Start\<rparr>"

definition setWorkerState :: "worker_state \<Rightarrow> worker_instance \<Rightarrow> worker_instance" where
  "setWorkerState s w = w\<lparr>workerState := s\<rparr>"

definition setCoordinatorState :: "global_state \<Rightarrow> worker_instance \<Rightarrow> worker_instance" where
  "setCoordinatorState g w = w\<lparr>ariaGlobalState := g\<rparr>"

text \<open>\<^verbatim>\<open>workerWait\<close>: None while it blocks, otherwise whether the worker goes on.\<close>

definition workerWait :: "global_state \<Rightarrow> worker_instance \<Rightarrow> bool option" where
  "workerWait g w =
     (if ariaGlobalState w = EXIT then Some False
      else if ariaGlobalState w = g then Some True else None)"

definition worker_exit :: "worker_instance \<Rightarrow> worker_instance" where
  "worker_exit w = (setWorkerState EXITED w)\<lparr>w_pc := W_Exited\<rparr>"

text \<open>One step of \<^verbatim>\<open>run\<close>; \<^term>\<open>None\<close> when the thread is blocked or has returned.\<close>

fun worker_next :: "bool \<Rightarrow> worker_instance \<Rightarrow> worker_instance option" where
  "worker_next agg w =
     (case w_pc w of
        W_Start \<Rightarrow> Some ((setWorkerState ASSIGNED w)\<lparr>w_pc := W_WaitRead\<rparr>)
      | W_WaitRead \<Rightarrow>
          map_option (\<lambda>go.
            if \<not> go then worker_exit w
            else if agg \<and> aggregationWorkload w
            then (setWorkerState FINISH_READ w)\<lparr>w_pc := W_WaitAggregate\<rparr>
            else w\<lparr>w_pc := W_Execute\<rparr>) (workerWait Aria_READ w)
      | W_WaitAggregate \<Rightarrow>
          map_option (\<lambda>go. if \<not> go then worker_exit w else w\<lparr>w_pc := W_Execute\<rparr>) (workerWait Aggregate w)
      | W_Execute \<Rightarrow> Some (w\<lparr>w_pc := W_Finish\<rparr>)
      | W_Finish \<Rightarrow>
          Some ((setWorkerState (if agg then FINISH_AGGREGATE else FINISH_READ) w)\<lparr>w_pc := W_WaitCommit\<rparr>)
      | W_WaitCommit \<Rightarrow>
          map_option (\<lambda>go. if \<not> go then worker_exit w else w\<lparr>w_pc := W_Commit\<rparr>) (workerWait Aria_COMMIT w)
      | W_Commit \<Rightarrow> Some (w\<lparr>w_pc := W_SetReady\<rparr>)
      | W_SetReady \<Rightarrow> Some ((setWorkerState READY w)\<lparr>w_pc := W_WaitRead\<rparr>)
      | W_Exited \<Rightarrow> None)"

declare worker_next.simps [simp del]

section \<open>Coordinator\<close>

text \<open>
  The control points of the coordinator's \<^verbatim>\<open>run\<close> and of its destructor, which runs after the
  thread of \<^verbatim>\<open>run\<close> was joined (\<^verbatim>\<open>DDChainServer::stopServer\<close>). A broadcast and a sync carry the
  workers still to visit; they are identified by the signal that was sent.
\<close>

datatype coord_pc =
    C_Top
  | C_Assign
  | C_WaitAssigned nat
  | C_Deployed nat
  | C_Broadcast global_state "nat list"
  | C_Sync global_state "nat list"
  | C_WaitEpoch
  | C_AggregateTxs
  | C_Done

record coordinator =
  workers :: "nat \<rightharpoonup> worker_instance"
  workerIDNonce :: nat
  currentEpoch :: nat
  c_pc :: coord_pc

definition newCoordinator :: "nat \<Rightarrow> coordinator" where
  "newCoordinator startupEpoch =
     \<lparr>workers = Map.empty, workerIDNonce = 1, currentEpoch = startupEpoch, c_pc = C_Top\<rparr>"

text \<open>The ids of the workers below the next id, in the order of \<^verbatim>\<open>std::map\<close>.\<close>

definition worker_ids :: "coordinator \<Rightarrow> nat list" where
  "worker_ids c = filter (\<lambda>i. workers c i \<noteq> None) [0..<workerIDNonce c]"

text \<open>The states \<^verbatim>\<open>syncAllWorker\<close> waits for after the broadcast of a signal.\<close>

definition sync_states :: "bool \<Rightarrow> global_state \<Rightarrow> worker_state set" where
  "sync_states agg g =
     (case g of
        Aria_READ \<Rightarrow> (if agg then {FINISH_READ, FINISH_AGGREGATE} else {FINISH_READ})
      | Aggregate \<Rightarrow> {FINISH_AGGREGATE}
      | Aria_COMMIT \<Rightarrow> {READY}
      | EXIT \<Rightarrow> {EXITED}
      | START \<Rightarrow> {})"

text \<open>\<open>onlyAssigned\<close> is false only in the destructor.\<close>

definition skipped :: "global_state \<Rightarrow> worker_instance \<Rightarrow> bool" where
  "skipped g w \<longleftrightarrow> g \<noteq> EXIT \<and> workerState w = READY"

text \<open>Where the coordinator goes after a completed sync.\<close>

definition after_sync :: "bool \<Rightarrow> global_state \<Rightarrow> coordinator \<Rightarrow> coordinator" where
  "after_sync agg g c =
     (case g of
        Aria_READ \<Rightarrow> c\<lparr>c_pc := C_WaitEpoch\<rparr>
      | Aggregate \<Rightarrow> c\<lparr>c_pc := C_Broadcast Aria_COMMIT (worker_ids c)\<rparr>
      | Aria_COMMIT \<Rightarrow> c\<lparr>currentEpoch := currentEpoch c + 1, c_pc := C_Top\<rparr>
      | _ \<Rightarrow> c\<lparr>c_pc := C_Done\<rparr>)"

inductive coord_step :: "bool \<Rightarrow> coordinator \<Rightarrow> coordinator \<Rightarrow> bool" for agg where
  next_round:
    "c_pc c = C_Top \<Longrightarrow> coord_step agg c (c\<lparr>c_pc := C_Assign\<rparr>)"
| deploy_ready:
    "c_pc c = C_Assign \<Longrightarrow> workers c i = Some w \<Longrightarrow> workerState w = READY \<Longrightarrow>
     coord_step agg c
       (c\<lparr>workers := (workers c)(i \<mapsto> (setWorkerState ASSIGNED w)\<lparr>aggregationWorkload := load\<rparr>),
          c_pc := C_Deployed i\<rparr>)"
| deploy_new:
    "c_pc c = C_Assign \<Longrightarrow> \<forall>i w. workers c i = Some w \<longrightarrow> workerState w \<noteq> READY \<Longrightarrow>
     coord_step agg c
       (c\<lparr>workers := (workers c)(workerIDNonce c \<mapsto> newWorkerInstance load),
          workerIDNonce := workerIDNonce c + 1, c_pc := C_WaitAssigned (workerIDNonce c)\<rparr>)"
| wait_assigned:
    "c_pc c = C_WaitAssigned i \<Longrightarrow> workers c i = Some w \<Longrightarrow> workerState w = ASSIGNED \<Longrightarrow>
     coord_step agg c (c\<lparr>c_pc := C_Deployed i\<rparr>)"
| eager_read:
    "c_pc c = C_Deployed i \<Longrightarrow> workers c i = Some w \<Longrightarrow>
     coord_step agg c
       (c\<lparr>workers := (workers c)(i \<mapsto> setCoordinatorState Aria_READ w), c_pc := C_Assign\<rparr>)"
| no_workload:
    "c_pc c = C_Assign \<Longrightarrow> coord_step agg c (c\<lparr>c_pc := C_Broadcast Aria_READ (worker_ids c)\<rparr>)"
| bcast:
    "c_pc c = C_Broadcast g (i # is) \<Longrightarrow> workers c i = Some w \<Longrightarrow>
     coord_step agg c
       (c\<lparr>workers := (workers c)(i \<mapsto> (if skipped g w then w else setCoordinatorState g w)),
          c_pc := C_Broadcast g is\<rparr>)"
| bcast_end:
    "c_pc c = C_Broadcast g [] \<Longrightarrow> coord_step agg c (c\<lparr>c_pc := C_Sync g (worker_ids c)\<rparr>)"
| sync:
    "c_pc c = C_Sync g (i # is) \<Longrightarrow> workers c i = Some w \<Longrightarrow>
     skipped g w \<or> workerState w \<in> sync_states agg g \<Longrightarrow>
     coord_step agg c (c\<lparr>c_pc := C_Sync g is\<rparr>)"
| sync_end:
    "c_pc c = C_Sync g [] \<Longrightarrow> coord_step agg c (after_sync agg g c)"
| epoch_finish:
    "c_pc c = C_WaitEpoch \<Longrightarrow>
     coord_step agg c
       (c\<lparr>c_pc := (if agg then C_AggregateTxs else C_Broadcast Aria_COMMIT (worker_ids c))\<rparr>)"
| aggregate_txs:
    "c_pc c = C_AggregateTxs \<Longrightarrow>
     coord_step agg c (c\<lparr>c_pc := C_Broadcast Aggregate (worker_ids c)\<rparr>)"
| finish_signal:
    "c_pc c = C_Top \<Longrightarrow> coord_step agg c (c\<lparr>c_pc := C_Broadcast EXIT (worker_ids c)\<rparr>)"

text \<open>The whole node: the coordinator or one of the workers moves.\<close>

inductive node_step :: "bool \<Rightarrow> coordinator \<Rightarrow> coordinator \<Rightarrow> bool" for agg where
  coord: "coord_step agg c c' \<Longrightarrow> node_step agg c c'"
| worker: "workers c i = Some w \<Longrightarrow> worker_next agg w = Some w' \<Longrightarrow>
    node_step agg c (c\<lparr>workers := (workers c)(i \<mapsto> w')\<rparr>)"

inductive node_reachable :: "bool \<Rightarrow> coordinator \<Rightarrow> bool" for agg where
  start: "node_reachable agg (newCoordinator e)"
| step: "node_reachable agg c \<Longrightarrow> node_step agg c c' \<Longrightarrow> node_reachable agg c'"

section \<open>The invariant\<close>

text \<open>What a worker can be doing, seen from the phases of the coordinator.\<close>

definition fin_state :: "bool \<Rightarrow> worker_state" where
  "fin_state agg = (if agg then FINISH_AGGREGATE else FINISH_READ)"

definition idle :: "worker_instance \<Rightarrow> bool" where
  "idle w \<longleftrightarrow> workerState w = READY \<and> w_pc w = W_WaitRead \<and> ariaGlobalState w = Aria_COMMIT"

definition read_done :: "bool \<Rightarrow> worker_instance \<Rightarrow> bool" where
  "read_done agg w \<longleftrightarrow> ariaGlobalState w = Aria_READ \<and>
     (w_pc w = W_WaitCommit \<and> workerState w = fin_state agg \<or>
      agg \<and> w_pc w = W_WaitAggregate \<and> workerState w = FINISH_READ)"

definition reading :: "bool \<Rightarrow> worker_instance \<Rightarrow> bool" where
  "reading agg w \<longleftrightarrow> read_done agg w \<or>
     ariaGlobalState w = Aria_READ \<and> workerState w = ASSIGNED \<and>
     w_pc w \<in> {W_WaitRead, W_Execute, W_Finish}"

definition all_done :: "bool \<Rightarrow> worker_instance \<Rightarrow> bool" where
  "all_done agg w \<longleftrightarrow> w_pc w = W_WaitCommit \<and> workerState w = fin_state agg"

definition aggregating :: "worker_instance \<Rightarrow> bool" where
  "aggregating w \<longleftrightarrow> ariaGlobalState w = Aggregate \<and>
     (all_done True w \<or>
      workerState w = FINISH_READ \<and> w_pc w \<in> {W_WaitAggregate, W_Execute, W_Finish})"

definition committing :: "bool \<Rightarrow> worker_instance \<Rightarrow> bool" where
  "committing agg w \<longleftrightarrow> ariaGlobalState w = Aria_COMMIT \<and> workerState w = fin_state agg \<and>
     w_pc w \<in> {W_WaitCommit, W_Commit, W_SetReady}"

definition exiting :: "worker_instance \<Rightarrow> bool" where
  "exiting w \<longleftrightarrow> ariaGlobalState w = EXIT \<and>
     (workerState w = READY \<and> w_pc w = W_WaitRead \<or> workerState w = EXITED \<and> w_pc w = W_Exited)"

lemmas worker_status_defs = fin_state_def idle_def read_done_def reading_def all_done_def
  aggregating_def committing_def exiting_def

fun worker_ok :: "bool \<Rightarrow> coord_pc \<Rightarrow> nat \<Rightarrow> worker_instance \<Rightarrow> bool" where
  "worker_ok agg C_Top i w = idle w"
| "worker_ok agg C_Assign i w = (idle w \<or> reading agg w)"
| "worker_ok agg (C_WaitAssigned j) i w =
     (if i = j then ariaGlobalState w = START \<and>
        (workerState w = READY \<and> w_pc w = W_Start \<or> workerState w = ASSIGNED \<and> w_pc w = W_WaitRead)
      else idle w \<or> reading agg w)"
| "worker_ok agg (C_Deployed j) i w =
     (if i = j then ariaGlobalState w \<in> {START, Aria_COMMIT} \<and> workerState w = ASSIGNED \<and> w_pc w = W_WaitRead
      else idle w \<or> reading agg w)"
| "worker_ok agg (C_Broadcast g is) i w =
     (case g of
        Aria_READ \<Rightarrow> idle w \<or> reading agg w
      | Aggregate \<Rightarrow> idle w \<or> (if i \<in> set is then read_done agg w else aggregating w)
      | Aria_COMMIT \<Rightarrow> idle w \<or>
          (if i \<in> set is then all_done agg w \<and> ariaGlobalState w \<in> {Aria_READ, Aggregate}
           else committing agg w)
      | EXIT \<Rightarrow> (if i \<in> set is then idle w else exiting w)
      | START \<Rightarrow> False)"
| "worker_ok agg (C_Sync g is) i w =
     (case g of
        Aria_READ \<Rightarrow> idle w \<or> (if i \<in> set is then reading agg w else read_done agg w)
      | Aggregate \<Rightarrow> idle w \<or> aggregating w \<and> (i \<in> set is \<or> all_done agg w)
      | Aria_COMMIT \<Rightarrow> idle w \<or> committing agg w \<and> i \<in> set is
      | EXIT \<Rightarrow> exiting w \<and> (i \<in> set is \<or> workerState w = EXITED)
      | START \<Rightarrow> False)"
| "worker_ok agg C_WaitEpoch i w = (idle w \<or> read_done agg w)"
| "worker_ok agg C_AggregateTxs i w = (idle w \<or> read_done agg w)"
| "worker_ok agg C_Done i w = (exiting w \<and> workerState w = EXITED)"

fun pc_ok :: "bool \<Rightarrow> nat set \<Rightarrow> coord_pc \<Rightarrow> bool" where
  "pc_ok agg ids (C_WaitAssigned j) = (j \<in> ids)"
| "pc_ok agg ids (C_Deployed j) = (j \<in> ids)"
| "pc_ok agg ids (C_Broadcast g is) = (distinct is \<and> set is \<subseteq> ids \<and> g \<noteq> START \<and> (g = Aggregate \<longrightarrow> agg))"
| "pc_ok agg ids (C_Sync g is) = (distinct is \<and> set is \<subseteq> ids \<and> g \<noteq> START \<and> (g = Aggregate \<longrightarrow> agg))"
| "pc_ok agg ids C_AggregateTxs = agg"
| "pc_ok agg ids _ = True"

definition node_inv :: "bool \<Rightarrow> coordinator \<Rightarrow> bool" where
  "node_inv agg c \<longleftrightarrow> pc_ok agg (dom (workers c)) (c_pc c) \<and>
     (\<forall>i w. workers c i = Some w \<longrightarrow> i < workerIDNonce c \<and> worker_ok agg (c_pc c) i w)"

lemma worker_ids_set: "node_inv agg c \<Longrightarrow> set (worker_ids c) = dom (workers c)"
  by (auto simp: worker_ids_def node_inv_def)

lemma worker_ids_distinct: "distinct (worker_ids c)"
  by (simp add: worker_ids_def)

text \<open>How a worker in each situation moves; the first four are blocked.\<close>

lemma idle_blocked: "idle w \<Longrightarrow> worker_next agg w = None"
  by (simp add: idle_def worker_next.simps workerWait_def)

lemma read_done_blocked: "read_done agg w \<Longrightarrow> worker_next agg w = None"
  by (auto simp: read_done_def worker_next.simps workerWait_def)

lemma all_done_blocked:
  "all_done agg w \<Longrightarrow> ariaGlobalState w \<in> {Aria_READ, Aggregate} \<Longrightarrow> worker_next agg w = None"
  by (auto simp: all_done_def worker_next.simps workerWait_def)

lemma exited_blocked: "exiting w \<Longrightarrow> workerState w = EXITED \<Longrightarrow> worker_next agg w = None"
  by (auto simp: exiting_def worker_next.simps)

lemma deployed_blocked:
  "ariaGlobalState w \<in> {START, Aria_COMMIT} \<Longrightarrow> w_pc w = W_WaitRead \<Longrightarrow> worker_next agg w = None"
  by (auto simp: worker_next.simps workerWait_def)

lemma reading_step: "reading agg w \<Longrightarrow> worker_next agg w = Some w' \<Longrightarrow> reading agg w'"
  by (auto simp: reading_def read_done_blocked)
    (auto simp: worker_next.simps workerWait_def read_done_def fin_state_def setWorkerState_def
      split: if_splits)

lemma aggregating_step: "aggregating w \<Longrightarrow> worker_next True w = Some w' \<Longrightarrow> aggregating w'"
  by (auto simp: aggregating_def all_done_blocked)
    (auto simp: worker_next.simps workerWait_def all_done_def fin_state_def setWorkerState_def)

lemma committing_step:
  "committing agg w \<Longrightarrow> worker_next agg w = Some w' \<Longrightarrow> committing agg w' \<or> idle w'"
  by (auto simp: committing_def worker_next.simps workerWait_def idle_def setWorkerState_def)

lemma exiting_step: "exiting w \<Longrightarrow> worker_next agg w = Some w' \<Longrightarrow> exiting w'"
  by (auto simp: exiting_def worker_next.simps workerWait_def worker_exit_def setWorkerState_def)

lemma starting_step:
  "w_pc w = W_Start \<Longrightarrow> worker_next agg w = Some w' \<Longrightarrow>
     ariaGlobalState w' = ariaGlobalState w \<and> workerState w' = ASSIGNED \<and> w_pc w' = W_WaitRead"
  by (auto simp: worker_next.simps setWorkerState_def)

text \<open>A worker that moves is in none of the blocked situations.\<close>

lemma moving:
  assumes "worker_next agg w = Some w'"
  shows "\<not> idle w" and "\<not> read_done agg w"
    and "\<not> (all_done agg w \<and> ariaGlobalState w \<in> {Aria_READ, Aggregate})"
    and "\<not> (exiting w \<and> workerState w = EXITED)"
    and "\<not> (ariaGlobalState w \<in> {START, Aria_COMMIT} \<and> w_pc w = W_WaitRead)"
  using assms idle_blocked[of w agg] read_done_blocked[of agg w] all_done_blocked[of agg w]
    exited_blocked[of w agg] deployed_blocked[of w agg]
  by fastforce+

lemma reading_moves: "idle w \<or> reading agg w \<Longrightarrow> worker_next agg w = Some w' \<Longrightarrow> reading agg w'"
  using moving(1) reading_step by blast

lemma sync_step_ok:
  assumes ok: "worker_ok agg (C_Sync g is) i w" and step: "worker_next agg w = Some w'"
    and "g = Aggregate \<longrightarrow> agg"
  shows "worker_ok agg (C_Sync g is) i w'"
proof (cases g)
  case Aggregate
  then have "aggregating w" "i \<in> set is" "agg"
    using assms moving[OF step] by (auto simp: aggregating_def)
  then show ?thesis using aggregating_step step Aggregate by simp
next
  case Aria_READ
  then have "reading agg w" "i \<in> set is"
    using ok moving(1,2)[OF step] by (simp_all split: if_splits)
  then show ?thesis using reading_step[OF _ step] Aria_READ by simp
next
  case Aria_COMMIT
  then have "committing agg w" "i \<in> set is" using ok moving(1)[OF step] by simp_all
  then show ?thesis using committing_step[OF _ step] Aria_COMMIT by auto
next
  case EXIT
  then have "exiting w" "i \<in> set is" using ok moving(4)[OF step] by simp_all
  then show ?thesis using exiting_step[OF _ step] EXIT by simp
qed (use ok in simp)

lemma bcast_step_ok:
  assumes ok: "worker_ok agg (C_Broadcast g is) i w" and step: "worker_next agg w = Some w'"
    and "g = Aggregate \<longrightarrow> agg"
  shows "worker_ok agg (C_Broadcast g is) i w'"
proof (cases g)
  case Aggregate
  then have "aggregating w" "i \<notin> set is" "agg"
    using assms moving(1,2)[OF step] by (auto split: if_splits)
  then show ?thesis using aggregating_step step Aggregate by simp
next
  case Aria_READ
  then show ?thesis using ok reading_moves[OF _ step] by simp
next
  case Aria_COMMIT
  then have "committing agg w" "i \<notin> set is"
    using ok moving(1,3)[OF step] by (auto split: if_splits)
  then show ?thesis using committing_step[OF _ step] Aria_COMMIT by auto
next
  case EXIT
  then have "exiting w" "i \<notin> set is" using ok moving(1)[OF step] by (auto split: if_splits)
  then show ?thesis using exiting_step[OF _ step] EXIT by simp
qed (use ok in simp)

lemma worker_step_ok:
  assumes ok: "worker_ok agg pc i w" and step: "worker_next agg w = Some w'" and "pc_ok agg ids pc"
  shows "worker_ok agg pc i w'"
proof (cases pc)
  case (C_Broadcast g "is")
  then show ?thesis using bcast_step_ok assms by simp
next
  case (C_Sync g "is")
  then show ?thesis using sync_step_ok assms by simp
next
  case (C_WaitAssigned j)
  then show ?thesis
    using ok moving(5)[OF step] starting_step[OF _ step] reading_moves[OF _ step]
    by (simp split: if_splits)
next
  case (C_Deployed j)
  then show ?thesis
    using ok moving(5)[OF step] reading_moves[OF _ step] by (simp split: if_splits)
next
  case C_Assign
  then show ?thesis using ok reading_moves[OF _ step] by simp
qed (use ok moving[OF step] in simp_all)

section \<open>Every step keeps the invariant\<close>

lemma node_inv_worker:
  assumes "node_inv agg c" and "workers c i = Some w" and "worker_next agg w = Some w'"
  shows "node_inv agg (c\<lparr>workers := (workers c)(i \<mapsto> w')\<rparr>)"
proof -
  have "worker_ok agg (c_pc c) i w'"
    using assms worker_step_ok[of agg "c_pc c" i w w' "dom (workers c)"] by (simp add: node_inv_def)
  moreover have "dom ((workers c)(i \<mapsto> w')) = dom (workers c)" using assms(2) by auto
  ultimately show ?thesis using assms(1,2) by (simp add: node_inv_def)
qed

text \<open>Changing the control point, with the workers as they are.\<close>

lemma node_inv_pc:
  assumes "node_inv agg c" and "pc_ok agg (dom (workers c)) pc"
    and "\<And>i w. workers c i = Some w \<Longrightarrow> worker_ok agg (c_pc c) i w \<Longrightarrow> worker_ok agg pc i w"
  shows "node_inv agg (c\<lparr>c_pc := pc\<rparr>)"
  using assms by (simp add: node_inv_def)

text \<open>Changing the control point and one worker.\<close>

lemma node_inv_pc_worker:
  assumes "node_inv agg c" and "pc_ok agg (insert j (dom (workers c))) pc"
    and "j < n" and "workerIDNonce c \<le> n" and "worker_ok agg pc j w'"
    and "\<And>i w. i \<noteq> j \<Longrightarrow> workers c i = Some w \<Longrightarrow> worker_ok agg (c_pc c) i w \<Longrightarrow> worker_ok agg pc i w"
  shows "node_inv agg (c\<lparr>workers := (workers c)(j \<mapsto> w'), workerIDNonce := n, c_pc := pc\<rparr>)"
  unfolding node_inv_def
proof (intro conjI allI impI)
  fix i w
  assume w: "workers (c\<lparr>workers := (workers c)(j \<mapsto> w'), workerIDNonce := n, c_pc := pc\<rparr>) i = Some w"
  show "i < workerIDNonce (c\<lparr>workers := (workers c)(j \<mapsto> w'), workerIDNonce := n, c_pc := pc\<rparr>)"
    using w assms(1,3,4) by (auto simp: node_inv_def split: if_splits intro: less_le_trans)
  show "worker_ok agg (c_pc (c\<lparr>workers := (workers c)(j \<mapsto> w'), workerIDNonce := n, c_pc := pc\<rparr>)) i w"
    using w assms(1,5,6) by (auto simp: node_inv_def split: if_splits)
qed (use assms(2) in simp)

lemma bcast_signal:
  assumes "worker_ok agg (C_Broadcast g (i # is)) i w" and "i \<notin> set is" and "g = Aggregate \<longrightarrow> agg"
  shows "worker_ok agg (C_Broadcast g is) i (if skipped g w then w else setCoordinatorState g w)"
  using assms
  by (cases g)
    (auto simp: skipped_def setCoordinatorState_def worker_status_defs split: if_splits)

lemma sync_seen:
  assumes "worker_ok agg (C_Sync g (i # is)) i w" and "i \<notin> set is" and "g = Aggregate \<longrightarrow> agg"
    and "skipped g w \<or> workerState w \<in> sync_states agg g"
  shows "worker_ok agg (C_Sync g is) i w"
  using assms
  by (cases g) (auto simp: skipped_def sync_states_def worker_status_defs split: if_splits)

lemma bcast_next:
  assumes inv: "node_inv agg c" and pc: "c_pc c = C_Broadcast g (i # is)" and w: "workers c i = Some w"
  shows "node_inv agg (c\<lparr>workers := (workers c)(i \<mapsto> (if skipped g w then w else setCoordinatorState g w)),
          c_pc := C_Broadcast g is\<rparr>)"
proof -
  let ?w = "if skipped g w then w else setCoordinatorState g w"
  have ok: "worker_ok agg (C_Broadcast g (i # is)) i w" "i < workerIDNonce c"
    and p: "i \<notin> set is" "distinct is" "set is \<subseteq> dom (workers c)" "g \<noteq> START" "g = Aggregate \<longrightarrow> agg"
    using inv pc w by (auto simp: node_inv_def)
  have "node_inv agg (c\<lparr>workers := (workers c)(i \<mapsto> ?w), workerIDNonce := workerIDNonce c,
          c_pc := C_Broadcast g is\<rparr>)"
    using p ok(2) bcast_signal[OF ok(1) p(1,5)] pc
    by (intro node_inv_pc_worker[OF inv]) (auto split: global_state.splits)
  then show ?thesis by simp
qed

lemma sync_next:
  assumes inv: "node_inv agg c" and pc: "c_pc c = C_Sync g (i # is)" and w: "workers c i = Some w"
    and "skipped g w \<or> workerState w \<in> sync_states agg g"
  shows "node_inv agg (c\<lparr>c_pc := C_Sync g is\<rparr>)"
proof (rule node_inv_pc[OF inv])
  have p: "i \<notin> set is" "g = Aggregate \<longrightarrow> agg" using inv pc by (auto simp: node_inv_def)
  show "pc_ok agg (dom (workers c)) (C_Sync g is)" using inv pc by (auto simp: node_inv_def)
  fix j v
  assume v: "workers c j = Some v" "worker_ok agg (c_pc c) j v"
  show "worker_ok agg (C_Sync g is) j v"
  proof (cases "j = i")
    case True
    then have "worker_ok agg (C_Sync g (i # is)) i w" and "v = w" using v w pc by simp_all
    then show ?thesis using sync_seen[OF _ p assms(4)] True by blast
  next
    case False
    then show ?thesis using v(2) pc by (auto split: global_state.splits if_splits)
  qed
qed

lemma bcast_start:
  assumes inv: "node_inv agg c" and "g \<noteq> START" and "g = Aggregate \<longrightarrow> agg"
    and "\<And>i w. workers c i = Some w \<Longrightarrow> worker_ok agg (c_pc c) i w \<Longrightarrow>
      worker_ok agg (C_Broadcast g (worker_ids c)) i w"
  shows "node_inv agg (c\<lparr>c_pc := C_Broadcast g (worker_ids c)\<rparr>)"
  using assms worker_ids_set[OF inv] worker_ids_distinct by (intro node_inv_pc) auto

lemma in_worker_ids: "node_inv agg c \<Longrightarrow> workers c i = Some w \<Longrightarrow> i \<in> set (worker_ids c)"
  using worker_ids_set[of agg c] by auto

lemma coord_step_inv:
  assumes "coord_step agg c c'" and inv: "node_inv agg c"
  shows "node_inv agg c'"
  using assms(1)
proof cases
  case next_round
  then show ?thesis using inv by (auto intro!: node_inv_pc)
next
  case (deploy_ready i w load)
  let ?w = "(setWorkerState ASSIGNED w)\<lparr>aggregationWorkload := load\<rparr>"
  have "i < workerIDNonce c" "idle w \<or> reading agg w"
    using inv deploy_ready by (auto simp: node_inv_def)
  then have "i < workerIDNonce c" "worker_ok agg (C_Deployed i) i ?w"
    using deploy_ready(4) by (auto simp: setWorkerState_def worker_status_defs split: if_splits)
  then have "node_inv agg (c\<lparr>workers := (workers c)(i \<mapsto> ?w), workerIDNonce := workerIDNonce c,
      c_pc := C_Deployed i\<rparr>)"
    using deploy_ready(2) by (intro node_inv_pc_worker[OF inv]) auto
  then show ?thesis using deploy_ready(1) by simp
next
  case (deploy_new load)
  then show ?thesis
    unfolding deploy_new(1)
    by (intro node_inv_pc_worker[OF inv]) (auto simp: newWorkerInstance_def)
next
  case (wait_assigned i w)
  then have "w_pc w = W_WaitRead"
    using inv by (fastforce simp: node_inv_def)
  then show ?thesis
    using inv wait_assigned by (auto intro!: node_inv_pc[OF inv] simp: node_inv_def split: if_splits)
next
  case (eager_read i w)
  have "i < workerIDNonce c" "worker_ok agg C_Assign i (setCoordinatorState Aria_READ w)"
    using inv eager_read by (auto simp: node_inv_def setCoordinatorState_def worker_status_defs)
  then have "node_inv agg (c\<lparr>workers := (workers c)(i \<mapsto> setCoordinatorState Aria_READ w),
      workerIDNonce := workerIDNonce c, c_pc := C_Assign\<rparr>)"
    using eager_read(2) by (intro node_inv_pc_worker[OF inv]) auto
  then show ?thesis using eager_read(1) by simp
next
  case no_workload
  then show ?thesis using bcast_start[OF inv, of Aria_READ] by simp
next
  case (bcast g i "is" w)
  then show ?thesis using bcast_next[OF inv] by simp
next
  case (bcast_end g)
  have "pc_ok agg (dom (workers c)) (C_Sync g (worker_ids c))"
    using inv bcast_end worker_ids_set[OF inv] worker_ids_distinct by (auto simp: node_inv_def)
  then show ?thesis
    unfolding bcast_end(1) using bcast_end(2) in_worker_ids[OF inv]
    by (intro node_inv_pc[OF inv]) (auto split: global_state.splits)
next
  case (sync g i "is" w)
  then show ?thesis using sync_next[OF inv] by simp
next
  case (sync_end g)
  have g: "g \<noteq> START" "g = Aggregate \<longrightarrow> agg" using inv sync_end(2) by (auto simp: node_inv_def)
  show ?thesis
  proof (cases g)
    case Aggregate
    have "node_inv agg (c\<lparr>c_pc := C_Broadcast Aria_COMMIT (worker_ids c)\<rparr>)"
      by (rule bcast_start[OF inv])
        (use sync_end(2) Aggregate in_worker_ids[OF inv] in \<open>auto simp: aggregating_def\<close>)
    then show ?thesis unfolding sync_end(1) after_sync_def by (simp add: Aggregate)
  next
    case Aria_COMMIT
    have "node_inv agg (c\<lparr>c_pc := C_Top\<rparr>)"
      using sync_end(2) Aria_COMMIT by (intro node_inv_pc[OF inv]) auto
    then show ?thesis unfolding sync_end(1) after_sync_def by (simp add: Aria_COMMIT node_inv_def)
  qed (use sync_end g in \<open>auto simp: after_sync_def intro!: node_inv_pc[OF inv]\<close>)
next
  case epoch_finish
  show ?thesis
  proof (cases agg)
    case True
    have "node_inv agg (c\<lparr>c_pc := C_AggregateTxs\<rparr>)"
      by (rule node_inv_pc[OF inv]) (use True epoch_finish in auto)
    then show ?thesis using epoch_finish True by simp
  next
    case False
    have "node_inv agg (c\<lparr>c_pc := C_Broadcast Aria_COMMIT (worker_ids c)\<rparr>)"
      by (rule bcast_start[OF inv])
        (use False epoch_finish in_worker_ids[OF inv] in \<open>auto simp: read_done_def all_done_def\<close>)
    then show ?thesis using epoch_finish False by simp
  qed
next
  case aggregate_txs
  then have "agg" using inv by (simp add: node_inv_def)
  then show ?thesis
    unfolding aggregate_txs(1) using aggregate_txs(2) in_worker_ids[OF inv]
    by (intro bcast_start[OF inv]) auto
next
  case finish_signal
  then show ?thesis
    unfolding finish_signal(1) using in_worker_ids[OF inv] by (intro bcast_start[OF inv]) auto
qed

lemma reachable_node_inv: "node_reachable agg c \<Longrightarrow> node_inv agg c"
proof (induction rule: node_reachable.induct)
  case (start e)
  then show ?case by (simp add: node_inv_def newCoordinator_def)
next
  case (step c c')
  from step.hyps(2) step.IH show ?case
    by cases (auto intro: coord_step_inv node_inv_worker)
qed

section \<open>Phases exclude each other\<close>

text \<open>
  No worker executes while another one commits, and while the coordinator merges remote results
  into the database no worker does either.
\<close>

definition phases_exclusive :: "coordinator \<Rightarrow> bool" where
  "phases_exclusive c \<longleftrightarrow>
     (\<forall>i j w1 w2. workers c i = Some w1 \<longrightarrow> workers c j = Some w2 \<longrightarrow>
        \<not> (w_pc w1 = W_Commit \<and> w_pc w2 = W_Execute)) \<and>
     (c_pc c = C_AggregateTxs \<longrightarrow>
        (\<forall>i w. workers c i = Some w \<longrightarrow> w_pc w \<notin> {W_Execute, W_Commit}))"

definition commit_phase :: "coord_pc \<Rightarrow> bool" where
  "commit_phase pc =
     (case pc of C_Broadcast g is \<Rightarrow> g = Aria_COMMIT | C_Sync g is \<Rightarrow> g = Aria_COMMIT | _ \<Rightarrow> False)"

lemma commit_only_in_phase: "worker_ok agg pc i w \<Longrightarrow> w_pc w = W_Commit \<Longrightarrow> commit_phase pc"
  by (cases pc) (auto simp: commit_phase_def worker_status_defs split: if_splits global_state.splits)

lemma execute_not_in_phase: "worker_ok agg pc i w \<Longrightarrow> w_pc w = W_Execute \<Longrightarrow> \<not> commit_phase pc"
  by (cases pc) (auto simp: commit_phase_def worker_status_defs split: if_splits global_state.splits)

lemma node_inv_exclusive:
  assumes "node_inv agg c"
  shows "phases_exclusive c"
  unfolding phases_exclusive_def
proof (intro conjI allI impI)
  fix i j w1 w2
  assume w: "workers c i = Some w1" "workers c j = Some w2"
  show "\<not> (w_pc w1 = W_Commit \<and> w_pc w2 = W_Execute)"
    using assms w commit_only_in_phase execute_not_in_phase unfolding node_inv_def by blast
next
  fix i w
  assume "c_pc c = C_AggregateTxs" "workers c i = Some w"
  moreover from this have "worker_ok agg C_AggregateTxs i w" using assms unfolding node_inv_def by metis
  ultimately have "idle w \<or> read_done agg w" by simp
  then show "w_pc w \<notin> {W_Execute, W_Commit}" by (auto simp: idle_def read_done_def)
qed

text \<open>A run up to the execution of the first worker.\<close>

definition demo_worker :: "worker_state \<Rightarrow> global_state \<Rightarrow> worker_pc \<Rightarrow> worker_instance" where
  "demo_worker s g pc = \<lparr>workerState = s, ariaGlobalState = g, aggregationWorkload = False, w_pc = pc\<rparr>"

definition demo_node :: "worker_instance \<Rightarrow> coord_pc \<Rightarrow> coordinator" where
  "demo_node w pc = \<lparr>workers = [1 \<mapsto> w], workerIDNonce = 2, currentEpoch = 1, c_pc = pc\<rparr>"

lemmas demo_run_defs = demo_node_def demo_worker_def newCoordinator_def newWorkerInstance_def
  setWorkerState_def setCoordinatorState_def worker_next.simps workerWait_def

lemma demo_run: "node_reachable agg (demo_node (demo_worker ASSIGNED Aria_READ W_Execute) C_Assign)"
proof -
  have "node_reachable agg \<lparr>workers = Map.empty, workerIDNonce = 1, currentEpoch = 1, c_pc = C_Assign\<rparr>"
    using node_reachable.step[OF node_reachable.start node_step.coord[OF coord_step.next_round], of 1 agg]
    by (simp add: newCoordinator_def)
  then have "node_reachable agg (demo_node (demo_worker READY START W_Start) (C_WaitAssigned 1))"
    by (rule node_reachable.step, intro node_step.coord)
      (use coord_step.deploy_new[of "\<lparr>workers = Map.empty, workerIDNonce = 1, currentEpoch = 1, c_pc = C_Assign\<rparr>" agg False]
        in \<open>simp add: demo_run_defs numeral_2_eq_2\<close>)
  then have "node_reachable agg (demo_node (demo_worker ASSIGNED START W_WaitRead) (C_WaitAssigned 1))"
    using node_step.worker[of "demo_node (demo_worker READY START W_Start) (C_WaitAssigned 1)" 1 _ agg]
    by (elim node_reachable.step) (simp add: demo_run_defs)
  then have "node_reachable agg (demo_node (demo_worker ASSIGNED START W_WaitRead) (C_Deployed 1))"
    using coord_step.wait_assigned[of "demo_node (demo_worker ASSIGNED START W_WaitRead) (C_WaitAssigned 1)" 1 _ agg]
    by (elim node_reachable.step) (simp add: demo_run_defs node_step.coord)
  then have "node_reachable agg (demo_node (demo_worker ASSIGNED Aria_READ W_WaitRead) C_Assign)"
    using coord_step.eager_read[of "demo_node (demo_worker ASSIGNED START W_WaitRead) (C_Deployed 1)" 1 _ agg]
    by (elim node_reachable.step) (simp add: demo_run_defs node_step.coord)
  then show ?thesis
    using node_step.worker[of "demo_node (demo_worker ASSIGNED Aria_READ W_WaitRead) C_Assign" 1 _ agg]
    by (elim node_reachable.step) (simp add: demo_run_defs)
qed

text \<open>
  C9. The phases of an epoch exclude each other: in every interleaving of the coordinator and any
  number of workers, with and without aggregation, no worker executes (and buffers updates) while
  another one commits, and none does either while the coordinator merges the remote results.
\<close>

theorem worker_phases_exclusive:
  assumes "node_reachable agg c"
  shows "phases_exclusive c"
  using node_inv_exclusive[OF reachable_node_inv[OF assms]] .

lemma worker_phases_exclusive_witness:
  "phases_exclusive (demo_node (demo_worker ASSIGNED Aria_READ W_Execute) C_Assign)"
  using worker_phases_exclusive[OF demo_run[of True]] .

section \<open>No deadlock\<close>

lemma sync_progress:
  assumes "worker_ok agg (C_Sync g is) i w" and "g = Aggregate \<longrightarrow> agg"
  shows "skipped g w \<or> workerState w \<in> sync_states agg g \<or> worker_next agg w \<noteq> None"
  using assms
  by (cases g)
    (auto simp: skipped_def sync_states_def worker_status_defs worker_next.simps workerWait_def
      split: if_splits)

lemma node_inv_progress:
  assumes inv: "node_inv agg c" and "c_pc c \<noteq> C_Done"
  shows "\<exists>c'. node_step agg c c'"
proof (cases "c_pc c")
  case (C_WaitAssigned i)
  then obtain w where w: "workers c i = Some w" "worker_ok agg (C_WaitAssigned i) i w"
    using inv by (auto simp: node_inv_def dom_def)
  show ?thesis
  proof (cases "workerState w = ASSIGNED")
    case True
    then show ?thesis using coord_step.wait_assigned[OF C_WaitAssigned w(1)] node_step.coord by blast
  next
    case False
    then have "worker_next agg w \<noteq> None" using w(2) by (auto simp: worker_next.simps)
    then show ?thesis using node_step.worker[OF w(1)] by blast
  qed
next
  case (C_Broadcast g "is")
  then show ?thesis
    using inv coord_step.bcast coord_step.bcast_end node_step.coord
    by (cases "is") (fastforce simp: node_inv_def dom_def)+
next
  case (C_Sync g "is")
  show ?thesis
  proof (cases "is")
    case Nil
    then show ?thesis using coord_step.sync_end C_Sync node_step.coord by blast
  next
    case (Cons i ids)
    then obtain w where w: "workers c i = Some w" "worker_ok agg (C_Sync g is) i w" "g = Aggregate \<longrightarrow> agg"
      using inv C_Sync by (fastforce simp: node_inv_def dom_def)
    then show ?thesis
      using sync_progress[OF w(2,3)] coord_step.sync[of c g i ids w agg] C_Sync Cons
        node_step.coord node_step.worker[OF w(1)] by blast
  qed
next
  case (C_Deployed i)
  then show ?thesis
    using inv coord_step.eager_read node_step.coord by (fastforce simp: node_inv_def dom_def)
qed (use assms(2) coord_step.next_round coord_step.no_workload coord_step.epoch_finish
      coord_step.aggregate_txs node_step.coord in blast)+



end
