(* ===== verification/Workload_Queue.thy ===== *)
theory Workload_Queue
  imports Transaction_Model Complex_Main
begin

text \<open>
  How the coordinator cuts the stream of transactions into workloads: \<^verbatim>\<open>TransactionQueueWrapper\<close>,
  \<^verbatim>\<open>AriaCoordinator::createWorkload\<close>, the two functions of \<^verbatim>\<open>AggregationCoordinator\<close> that
  do it for a cluster, and \<^verbatim>\<open>WorkloadSizeAdapter\<close>. The lock-free queue below the wrapper has one
  producer and one consumer and is a first-in first-out list; a call that would block on it
  is \<^term>\<open>None\<close>.
\<close>

section \<open>TransactionQueueWrapper\<close>

record tx_queue =
  tq_front :: "transaction option"
  tq_queue :: "transaction list"

definition queue_front :: "tx_queue \<Rightarrow> (transaction \<times> tx_queue) option" where
  "queue_front q =
     (case tq_front q of
        Some t \<Rightarrow> Some (t, q)
      | None \<Rightarrow> (case tq_queue q of
                  [] \<Rightarrow> None
                | t # ts \<Rightarrow> Some (t, \<lparr>tq_front = Some t, tq_queue = ts\<rparr>)))"

definition queue_push_bulk :: "transaction list \<Rightarrow> tx_queue \<Rightarrow> tx_queue" where
  "queue_push_bulk bulk q = q\<lparr>tq_queue := tq_queue q @ bulk\<rparr>"

definition queue_pop :: "tx_queue \<Rightarrow> (transaction \<times> tx_queue) option" where
  "queue_pop q =
     (case tq_front q of
        Some t \<Rightarrow> Some (t, q\<lparr>tq_front := None\<rparr>)
      | None \<Rightarrow> (case tq_queue q of [] \<Rightarrow> None | t # ts \<Rightarrow> Some (t, q\<lparr>tq_queue := ts\<rparr>)))"

definition queue_empty :: "tx_queue \<Rightarrow> bool \<times> tx_queue" where
  "queue_empty q =
     (case tq_front q of
        Some _ \<Rightarrow> (False, q)
      | None \<Rightarrow> (case tq_queue q of
                  [] \<Rightarrow> (True, q)
                | t # ts \<Rightarrow> (False, \<lparr>tq_front = Some t, tq_queue = ts\<rparr>)))"

definition queue_list :: "tx_queue \<Rightarrow> transaction list" where
  "queue_list q = (case tq_front q of None \<Rightarrow> tq_queue q | Some t \<Rightarrow> t # tq_queue q)"

lemma queue_front_list:
  "queue_front q = Some (t, q') \<longleftrightarrow>
     tq_front q' = Some t \<and> queue_list q' = queue_list q \<and> queue_list q = t # tq_queue q'"
  by (cases q; cases q')
    (auto simp: queue_front_def queue_list_def split: option.splits list.splits)

lemma queue_front_None: "queue_front q = None \<longleftrightarrow> queue_list q = []"
  by (auto simp: queue_front_def queue_list_def split: option.splits list.splits)

lemma queue_pop_front:
  "tq_front q = Some t \<Longrightarrow> queue_pop q = Some (t, q\<lparr>tq_front := None\<rparr>)"
  by (simp add: queue_pop_def)

lemma queue_empty_front: "tq_front q = Some t \<Longrightarrow> queue_empty q = (False, q)"
  by (simp add: queue_empty_def)

section \<open>AriaCoordinator::createWorkload\<close>

record workload =
  wl_epoch :: epoch_size_t
  transactionList :: "transaction list"
  wl_aggregation :: bool

text \<open>
  The do-while loop; \<open>t\<close> is the front of the queue on entry. The condition reads \<^verbatim>\<open>empty()\<close> after
  \<^verbatim>\<open>front()\<close> has returned.
\<close>

function workload_loop ::
  "nat \<Rightarrow> nat \<Rightarrow> epoch_size_t \<Rightarrow> transaction list \<Rightarrow> transaction \<Rightarrow> tx_queue \<Rightarrow>
     (transaction list \<times> tx_queue) option" where
  "workload_loop minTx maxTx epoch acc t q =
     (let acc1 = acc @ [t]
      in case queue_pop q of
           None \<Rightarrow> None
         | Some (_, q1) \<Rightarrow>
             (case queue_front q1 of
                None \<Rightarrow> None
              | Some (t2, q2) \<Rightarrow>
                  (let (e, q3) = (if length acc1 \<le> minTx then (False, q2) else queue_empty q2)
                   in if \<not> e \<and> tx_epoch t2 \<le> epoch \<and> length acc1 < maxTx
                      then workload_loop minTx maxTx epoch acc1 t2 q3
                      else Some (acc1, q3))))"
  by pat_completeness auto
termination
  by (relation "measure (\<lambda>(minTx, maxTx, epoch, acc, t, q). length (queue_list q))")
    (auto simp: queue_pop_def queue_front_def queue_empty_def queue_list_def
      split: option.splits list.splits if_splits)

declare workload_loop.simps [simp del]

definition createWorkload ::
  "nat \<Rightarrow> nat \<Rightarrow> epoch_size_t \<Rightarrow> tx_queue \<Rightarrow> (workload option \<times> tx_queue) option" where
  "createWorkload minTx maxTx epoch q =
     do {
       (t, q1) \<leftarrow> queue_front q;
       if tx_epoch t > epoch then Some (None, q1)
       else do {
         (txs, q2) \<leftarrow> workload_loop minTx maxTx epoch [] t q1;
         Some (Some \<lparr>wl_epoch = tx_epoch t, transactionList = txs, wl_aggregation = False\<rparr>, q2)
       }
     }"

text \<open>Every workload takes something off the queue, so there is an end to them.\<close>

lemma queue_pop_shorter: "queue_pop q = Some (t, q1) \<Longrightarrow> length (queue_list q1) < length (queue_list q)"
  by (auto simp: queue_pop_def queue_list_def split: option.splits list.splits)

lemma queue_front_same: "queue_front q = Some (t, q1) \<Longrightarrow> queue_list q1 = queue_list q"
  by (simp add: queue_front_list)

lemma queue_empty_same: "queue_empty q = (b, q1) \<Longrightarrow> queue_list q1 = queue_list q"
  by (auto simp: queue_empty_def queue_list_def split: option.splits list.splits)

lemma workload_loop_shorter:
  "workload_loop minTx maxTx epoch acc t q = Some (txs, q') \<Longrightarrow> length (queue_list q') < length (queue_list q)"
proof (induction minTx maxTx epoch acc t q rule: workload_loop.induct)
  case (1 minTx maxTx epoch acc t q)
  obtain t1 q1 where pop: "queue_pop q = Some (t1, q1)"
    using 1(2) by (subst (asm) workload_loop.simps) (auto simp: Let_def split: option.splits)
  obtain t2 q2 where front: "queue_front q1 = Some (t2, q2)"
    using 1(2) pop by (subst (asm) workload_loop.simps) (auto simp: Let_def split: option.splits)
  obtain e q3 where e: "(if length (acc @ [t]) \<le> minTx then (False, q2) else queue_empty q2) = (e, q3)"
    by fastforce
  have len: "length (queue_list q3) < length (queue_list q)"
    using queue_pop_shorter[OF pop] queue_front_same[OF front] e queue_empty_same[of q2 e q3]
    by (auto split: if_splits)
  show ?case
  proof (cases "\<not> e \<and> tx_epoch t2 \<le> epoch \<and> length (acc @ [t]) < maxTx")
    case True
    then have "workload_loop minTx maxTx epoch (acc @ [t]) t2 q3 = Some (txs, q')"
      using 1(2) pop front e by (subst (asm) workload_loop.simps) (auto simp: Let_def)
    then have "length (queue_list q') < length (queue_list q3)"
      using 1(1)[OF refl pop refl front refl e[symmetric] refl True] by simp
    then show ?thesis using len by simp
  next
    case False
    then have "q' = q3"
      using 1(2) pop front e by (subst (asm) workload_loop.simps) (auto simp: Let_def)
    then show ?thesis using len by simp
  qed
qed

lemma createWorkload_shorter:
  "createWorkload minTx maxTx epoch q = Some (Some wl, q') \<Longrightarrow> length (queue_list q') < length (queue_list q)"
  using workload_loop_shorter queue_front_same
  by (fastforce simp: createWorkload_def Option.bind_eq_Some_conv split: if_splits)

text \<open>
  \<^verbatim>\<open>assignWorkloadPhase\<close>: one workload after the other until there is none left for the epoch.
\<close>

function assign_workloads ::
  "nat \<Rightarrow> nat \<Rightarrow> epoch_size_t \<Rightarrow> tx_queue \<Rightarrow> (workload list \<times> tx_queue) option" where
  "assign_workloads minTx maxTx epoch q =
     (case createWorkload minTx maxTx epoch q of
        None \<Rightarrow> None
      | Some (None, q1) \<Rightarrow> Some ([], q1)
      | Some (Some wl, q1) \<Rightarrow>
          map_option (\<lambda>(wls, q2). (wl # wls, q2)) (assign_workloads minTx maxTx epoch q1))"
  by pat_completeness auto
termination
  by (relation "measure (\<lambda>(minTx, maxTx, epoch, q). length (queue_list q))")
    (auto dest: createWorkload_shorter)

declare assign_workloads.simps [simp del]

section \<open>No transaction is lost, repeated or reordered\<close>

text \<open>The loop takes a nonempty prefix of the transactions of the epoch, at most \<open>maxTx\<close> of them.\<close>

lemma workload_loop_spec:
  assumes "tq_front q = Some t" and "queue_list q = cur @ rest" and "cur \<noteq> []"
    and "\<forall>x \<in> set cur. tx_epoch x \<le> epoch" and "rest \<noteq> []" and "tx_epoch (hd rest) > epoch"
    and "length acc < maxTx"
  shows "\<exists>k q'. workload_loop minTx maxTx epoch acc t q = Some (acc @ take k cur, q') \<and>
    0 < k \<and> k \<le> length cur \<and> queue_list q' = drop k cur @ rest \<and> length acc + k \<le> maxTx"
  using assms
proof (induction minTx maxTx epoch acc t q arbitrary: cur rule: workload_loop.induct)
  case (1 minTx maxTx epoch acc t q)
  obtain cur' where cur: "cur = t # cur'"
    using 1(2-4) by (cases cur) (auto simp: queue_list_def)
  have pop: "queue_pop q = Some (t, q\<lparr>tq_front := None\<rparr>)" using 1(2) by (rule queue_pop_front)
  have list1: "queue_list (q\<lparr>tq_front := None\<rparr>) = cur' @ rest"
    using 1(2,3) cur by (simp add: queue_list_def)
  obtain t2 q2 where front: "queue_front (q\<lparr>tq_front := None\<rparr>) = Some (t2, q2)"
    using list1 1(6) queue_front_None[of "q\<lparr>tq_front := None\<rparr>"] by (cases "queue_front (q\<lparr>tq_front := None\<rparr>)") auto
  have q2: "tq_front q2 = Some t2" "queue_list q2 = cur' @ rest" "t2 = hd (cur' @ rest)"
    using front list1 unfolding queue_front_list by auto
  have loop: "workload_loop minTx maxTx epoch acc t q =
      (if tx_epoch t2 \<le> epoch \<and> length (acc @ [t]) < maxTx
       then workload_loop minTx maxTx epoch (acc @ [t]) t2 q2 else Some (acc @ [t], q2))"
    by (subst workload_loop.simps) (simp add: pop front Let_def queue_empty_front[OF q2(1)])
  show ?case
  proof (cases "tx_epoch t2 \<le> epoch \<and> length (acc @ [t]) < maxTx")
    case True
    then have "cur' \<noteq> []" using q2(3) 1(7) by (cases cur') auto
    have "\<exists>k q'. workload_loop minTx maxTx epoch (acc @ [t]) t2 q2 = Some ((acc @ [t]) @ take k cur', q') \<and>
      0 < k \<and> k \<le> length cur' \<and> queue_list q' = drop k cur' @ rest \<and> length (acc @ [t]) + k \<le> maxTx"
      using True 1(5,6,7) \<open>cur' \<noteq> []\<close> q2 cur
      by (intro 1(1)[OF refl pop refl front refl]) (auto simp: queue_empty_front[OF q2(1)])
    then obtain k q' where "workload_loop minTx maxTx epoch (acc @ [t]) t2 q2 = Some ((acc @ [t]) @ take k cur', q')"
      "k \<le> length cur'" "queue_list q' = drop k cur' @ rest" "length (acc @ [t]) + k \<le> maxTx" by blast
    then show ?thesis using True loop cur by (intro exI[of _ "Suc k"] exI[of _ q']) auto
  next
    case False
    then show ?thesis
      using loop cur q2(2) 1(8) by (intro exI[of _ 1] exI[of _ q2]) auto
  qed
qed

lemma createWorkload_spec:
  assumes "queue_list q = cur @ rest" and "cur \<noteq> []" and "\<forall>x \<in> set cur. tx_epoch x \<le> epoch"
    and "rest \<noteq> []" and "tx_epoch (hd rest) > epoch" and "0 < maxTx"
  shows "\<exists>wl k q'. createWorkload minTx maxTx epoch q = Some (Some wl, q') \<and>
    transactionList wl = take k cur \<and> 0 < k \<and> k \<le> length cur \<and> k \<le> maxTx \<and>
    queue_list q' = drop k cur @ rest"
proof -
  obtain t q1 where front: "queue_front q = Some (t, q1)"
    using assms(1,2) queue_front_None[of q] by (cases "queue_front q") auto
  have q1: "tq_front q1 = Some t" "queue_list q1 = cur @ rest" "t = hd cur"
    using front assms(1,2) unfolding queue_front_list by (cases cur; auto)+
  have "tx_epoch t \<le> epoch" using q1(3) assms(2,3) by simp
  then show ?thesis
    using workload_loop_spec[OF q1(1,2) assms(2-5), of "[]" maxTx minTx] assms(6) front
    by (fastforce simp: createWorkload_def)
qed

lemma createWorkload_none:
  assumes "queue_list q = rest" and "rest \<noteq> []" and "tx_epoch (hd rest) > epoch"
  shows "\<exists>q'. createWorkload minTx maxTx epoch q = Some (None, q') \<and> queue_list q' = rest"
proof -
  obtain t q1 where front: "queue_front q = Some (t, q1)"
    using assms(1,2) queue_front_None[of q] by (cases "queue_front q") auto
  then show ?thesis
    using assms unfolding queue_front_list by (auto simp: createWorkload_def queue_front_list front)
qed

lemma assign_workloads_spec:
  assumes "queue_list q = cur @ rest" and "\<forall>x \<in> set cur. tx_epoch x \<le> epoch"
    and "rest \<noteq> []" and "tx_epoch (hd rest) > epoch" and "0 < maxTx"
  shows "\<exists>wls q'. assign_workloads minTx maxTx epoch q = Some (wls, q') \<and>
    concat (map transactionList wls) = cur \<and> queue_list q' = rest \<and>
    (\<forall>wl \<in> set wls. transactionList wl \<noteq> [] \<and> length (transactionList wl) \<le> maxTx)"
  using assms
proof (induction "length cur" arbitrary: cur q rule: less_induct)
  case less
  show ?case
  proof (cases "cur = []")
    case True
    then show ?thesis
      using createWorkload_none[of q rest epoch minTx maxTx] less.prems
      by (subst assign_workloads.simps) auto
  next
    case False
    obtain wl k q1 where wl: "createWorkload minTx maxTx epoch q = Some (Some wl, q1)"
      "transactionList wl = take k cur" "0 < k" "k \<le> length cur" "k \<le> maxTx"
      "queue_list q1 = drop k cur @ rest"
      using createWorkload_spec[OF less.prems(1) False less.prems(2-5)] by blast
    have "\<forall>x \<in> set (drop k cur). tx_epoch x \<le> epoch"
      using less.prems(2) by (auto dest: in_set_dropD)
    then obtain wls q' where rec: "assign_workloads minTx maxTx epoch q1 = Some (wls, q')"
      "concat (map transactionList wls) = drop k cur" "queue_list q' = rest"
      "\<forall>wl \<in> set wls. transactionList wl \<noteq> [] \<and> length (transactionList wl) \<le> maxTx"
      using less.hyps[of "drop k cur" q1] wl(3,4,6) less.prems(3-5) False by auto
    have "assign_workloads minTx maxTx epoch q = Some (wl # wls, q')"
      using wl(1) rec(1) by (subst assign_workloads.simps) simp
    then show ?thesis using rec wl False by auto
  qed
qed

definition demo_queue :: tx_queue where
  "demo_queue = \<lparr>tq_front = None, tq_queue = map (\<lambda>(e, t). makeTransaction e t False) [(3, 5), (3, 2), (3, 8), (4, 1)]\<rparr>"

text \<open>
  C33. Cutting the queue into workloads neither loses nor repeats nor reorders transactions, and
  ends: when the transactions of the current epoch are followed by one of a later epoch, the
  workloads of the assignment phase, put together, are exactly the transactions of the epoch in
  queue order, each workload holds between one and \<open>maxTx\<close> of them, and the rest stays queued.
\<close>

theorem assign_workloads_partition:
  assumes "queue_list q = cur @ rest" and "\<forall>x \<in> set cur. tx_epoch x \<le> epoch"
    and "rest \<noteq> []" and "tx_epoch (hd rest) > epoch" and "0 < maxTx"
  shows "\<exists>wls q'. assign_workloads minTx maxTx epoch q = Some (wls, q') \<and>
    concat (map transactionList wls) = cur \<and> queue_list q' = rest \<and>
    (\<forall>wl \<in> set wls. 0 < length (transactionList wl) \<and> length (transactionList wl) \<le> maxTx)"
  using assign_workloads_spec[OF assms, of minTx] by auto

lemma assign_workloads_partition_witness:
  "\<exists>wls q'. assign_workloads 1 2 3 demo_queue = Some (wls, q') \<and>
    map tx_tid (concat (map transactionList wls)) = [5, 2, 8]"
proof -
  let ?tx = "\<lambda>(e, t). makeTransaction e t False"
  have "\<exists>wls q'. assign_workloads 1 2 3 demo_queue = Some (wls, q') \<and>
    concat (map transactionList wls) = map ?tx [(3, 5), (3, 2), (3, 8)] \<and>
    queue_list q' = map ?tx [(4, 1)] \<and>
    (\<forall>wl \<in> set wls. 0 < length (transactionList wl) \<and> length (transactionList wl) \<le> 2)"
    by (rule assign_workloads_partition)
      (simp_all add: demo_queue_def queue_list_def makeTransaction_def newMockTransaction_def)
  then show ?thesis by (auto simp: makeTransaction_def)
qed

text \<open>
  \<^verbatim>\<open>empty()\<close> is never true after \<^verbatim>\<open>front()\<close> returned, so the lower bound \<open>minTx\<close> has no effect.
\<close>

lemma workload_loop_min_irrelevant:
  "tq_front q = Some t \<Longrightarrow> workload_loop m1 maxTx epoch acc t q = workload_loop m2 maxTx epoch acc t q"
proof (induction m1 maxTx epoch acc t q rule: workload_loop.induct)
  case (1 m1 maxTx epoch acc t q)
  let ?q1 = "q\<lparr>tq_front := None\<rparr>"
  show ?case
  proof (cases "queue_front ?q1")
    case None
    then show ?thesis
      by (subst (1 2) workload_loop.simps) (simp add: queue_pop_front[OF 1(2)] Let_def)
  next
    case (Some r)
    obtain t2 q2 where front: "queue_front ?q1 = Some (t2, q2)" using Some by (cases r) auto
    have q2: "tq_front q2 = Some t2" using front by (simp add: queue_front_list)
    have step: "workload_loop m maxTx epoch acc t q =
        (if tx_epoch t2 \<le> epoch \<and> length (acc @ [t]) < maxTx
         then workload_loop m maxTx epoch (acc @ [t]) t2 q2 else Some (acc @ [t], q2))" for m
      by (subst workload_loop.simps)
        (simp add: queue_pop_front[OF 1(2)] front Let_def queue_empty_front[OF q2])
    show ?thesis
    proof (cases "tx_epoch t2 \<le> epoch \<and> length (acc @ [t]) < maxTx")
      case True
      have "workload_loop m1 maxTx epoch (acc @ [t]) t2 q2 = workload_loop m2 maxTx epoch (acc @ [t]) t2 q2"
        by (rule 1(1)[OF refl queue_pop_front[OF 1(2)] refl front refl])
          (use True q2 in \<open>auto simp: queue_empty_front[OF q2]\<close>)
      then show ?thesis by (simp only: step)
    qed (auto simp: step)
  qed
qed

text \<open>
  The lower bound on the size of a workload has no effect: \<^verbatim>\<open>getMinTxPerWorkload\<close> only matters
  when \<^verbatim>\<open>queueWrapper.empty()\<close> is true, and it never is after \<^verbatim>\<open>queueWrapper.front()\<close> has
  returned, so every lower bound gives the same workload.
\<close>

theorem createWorkload_min_irrelevant:
  "createWorkload m1 maxTx epoch q = createWorkload m2 maxTx epoch q"
proof (cases "queue_front q")
  case None
  then show ?thesis by (simp add: createWorkload_def)
next
  case (Some r)
  obtain t q1 where front: "queue_front q = Some (t, q1)" using Some by (cases r) auto
  then have "tq_front q1 = Some t" by (simp add: queue_front_list)
  then show ?thesis
    using front workload_loop_min_irrelevant[of q1 t m1 maxTx epoch "[]" m2]
    by (simp add: createWorkload_def)
qed

section \<open>AggregationCoordinator\<close>

text \<open>
  Local transactions go into the workload, the others wait in \<^verbatim>\<open>aggregationQueue\<close> for the results
  of the server that executes them. \<open>bc\<close> and \<open>ls\<close> collect the calls of \<^verbatim>\<open>addBroadcastTransaction\<close>
  and \<^verbatim>\<open>addListenTransaction\<close>.
\<close>

record agg_state =
  ag_queue :: tx_queue
  aggregationQueue :: "transaction list"
  ag_broadcast :: "transaction list"
  ag_listen :: "transaction list"

definition isLocalTransaction :: "nat \<Rightarrow> nat \<Rightarrow> tid_size_t \<Rightarrow> bool" where
  "isLocalTransaction servers localID tid \<longleftrightarrow> unat tid mod servers = localID"

definition dispatch :: "nat \<Rightarrow> nat \<Rightarrow> transaction \<Rightarrow> transaction list \<Rightarrow> agg_state \<Rightarrow> transaction list \<times> agg_state" where
  "dispatch servers localID t acc st =
     (if isLocalTransaction servers localID (tx_tid t)
      then (acc @ [t], st\<lparr>ag_broadcast := ag_broadcast st @ [t]\<rparr>)
      else (acc, st\<lparr>ag_listen := ag_listen st @ [t], aggregationQueue := aggregationQueue st @ [t]\<rparr>))"

function agg_loop ::
  "nat \<Rightarrow> nat \<Rightarrow> nat \<Rightarrow> nat \<Rightarrow> epoch_size_t \<Rightarrow> transaction list \<Rightarrow> transaction \<Rightarrow> agg_state \<Rightarrow>
     (transaction list \<times> agg_state) option" where
  "agg_loop servers localID minTx maxTx epoch acc t st =
     (let (acc1, st1) = dispatch servers localID t acc st
      in case queue_pop (ag_queue st1) of
           None \<Rightarrow> None
         | Some (_, q1) \<Rightarrow>
             (case queue_front q1 of
                None \<Rightarrow> None
              | Some (t2, q2) \<Rightarrow>
                  (let (e, q3) = (if length acc1 \<le> minTx then (False, q2) else queue_empty q2);
                       st2 = st1\<lparr>ag_queue := q3\<rparr>
                   in if \<not> e \<and> tx_epoch t2 \<le> epoch \<and> length acc1 < maxTx
                      then agg_loop servers localID minTx maxTx epoch acc1 t2 st2
                      else Some (acc1, st2))))"
  by pat_completeness auto
termination
  by (relation "measure (\<lambda>(servers, localID, minTx, maxTx, epoch, acc, t, st). length (queue_list (ag_queue st)))")
    (auto simp: dispatch_def queue_pop_def queue_front_def queue_empty_def queue_list_def
      split: option.splits list.splits if_splits)

declare agg_loop.simps [simp del]

definition createAggregationWorkload :: "nat \<Rightarrow> agg_state \<Rightarrow> workload option \<times> agg_state" where
  "createAggregationWorkload maxTx st =
     (let txs = take maxTx (aggregationQueue st);
          st1 = st\<lparr>aggregationQueue := drop maxTx (aggregationQueue st)\<rparr>
      in case txs of
           [] \<Rightarrow> (None, st1)
         | t # _ \<Rightarrow> (Some \<lparr>wl_epoch = tx_epoch t, transactionList = txs, wl_aggregation = True\<rparr>, st1))"

definition agg_createWorkload ::
  "nat \<Rightarrow> nat \<Rightarrow> nat \<Rightarrow> nat \<Rightarrow> epoch_size_t \<Rightarrow> agg_state \<Rightarrow> (workload option \<times> agg_state) option" where
  "agg_createWorkload servers localID minTx maxTx epoch st =
     do {
       (t, q1) \<leftarrow> queue_front (ag_queue st);
       let st1 = st\<lparr>ag_queue := q1\<rparr>;
       if tx_epoch t > epoch then Some (createAggregationWorkload maxTx st1)
       else do {
         (txs, st2) \<leftarrow> agg_loop servers localID minTx maxTx epoch [] t st1;
         if txs = [] then Some (createAggregationWorkload maxTx st2)
         else Some (Some \<lparr>wl_epoch = tx_epoch t, transactionList = txs, wl_aggregation = False\<rparr>, st2)
       }
     }"

text \<open>What the loop does with the prefix of the epoch it takes.\<close>

definition mine :: "nat \<Rightarrow> nat \<Rightarrow> transaction list \<Rightarrow> transaction list" where
  "mine servers localID txs = filter (\<lambda>t. isLocalTransaction servers localID (tx_tid t)) txs"

definition theirs :: "nat \<Rightarrow> nat \<Rightarrow> transaction list \<Rightarrow> transaction list" where
  "theirs servers localID txs = filter (\<lambda>t. \<not> isLocalTransaction servers localID (tx_tid t)) txs"

lemma dispatch_spec:
  "dispatch servers localID t acc st = (acc1, st1) \<Longrightarrow>
     acc1 = acc @ mine servers localID [t] \<and> ag_queue st1 = ag_queue st \<and>
     ag_broadcast st1 = ag_broadcast st @ mine servers localID [t] \<and>
     ag_listen st1 = ag_listen st @ theirs servers localID [t] \<and>
     aggregationQueue st1 = aggregationQueue st @ theirs servers localID [t]"
  by (auto simp: dispatch_def mine_def theirs_def split: if_splits)

text \<open>The first \<open>k\<close> of the current transactions were taken: the outcome of the loop.\<close>

definition agg_taken ::
  "nat \<Rightarrow> nat \<Rightarrow> nat \<Rightarrow> transaction list \<Rightarrow> transaction list \<Rightarrow> transaction list \<Rightarrow> agg_state \<Rightarrow>
     nat \<Rightarrow> transaction list \<Rightarrow> agg_state \<Rightarrow> bool" where
  "agg_taken servers localID maxTx cur rest acc st k txs st' \<longleftrightarrow>
     0 < k \<and> k \<le> length cur \<and> txs = acc @ mine servers localID (take k cur) \<and>
     queue_list (ag_queue st') = drop k cur @ rest \<and>
     aggregationQueue st' = aggregationQueue st @ theirs servers localID (take k cur) \<and>
     ag_broadcast st' = ag_broadcast st @ mine servers localID (take k cur) \<and>
     ag_listen st' = ag_listen st @ theirs servers localID (take k cur) \<and>
     length txs \<le> maxTx \<and> (length txs < maxTx \<longrightarrow> k = length cur)"

lemma agg_takenD:
  assumes "agg_taken servers localID maxTx cur rest acc st k txs st'"
  shows "0 < k" and "txs = acc @ mine servers localID (take k cur)"
    and "queue_list (ag_queue st') = drop k cur @ rest"
    and "aggregationQueue st' = aggregationQueue st @ theirs servers localID (take k cur)"
    and "length txs < maxTx \<longrightarrow> k = length cur"
  using assms unfolding agg_taken_def by blast+

lemma take_split:
  "mine servers localID (take (Suc k) (t # cur)) = mine servers localID [t] @ mine servers localID (take k cur)"
  "theirs servers localID (take (Suc k) (t # cur)) = theirs servers localID [t] @ theirs servers localID (take k cur)"
  by (simp_all add: mine_def theirs_def)

lemma agg_taken_more:
  assumes "dispatch servers localID t acc st = (acc1, st1)"
    and "agg_taken servers localID maxTx cur rest acc1 (st1\<lparr>ag_queue := q\<rparr>) k txs st'"
  shows "agg_taken servers localID maxTx (t # cur) rest acc st (Suc k) txs st'"
proof -
  note ds = dispatch_spec[OF assms(1)]
  have acc1: "acc1 = acc @ mine servers localID [t]"
    and b: "ag_broadcast (st1\<lparr>ag_queue := q\<rparr>) = ag_broadcast st @ mine servers localID [t]"
    and l: "ag_listen (st1\<lparr>ag_queue := q\<rparr>) = ag_listen st @ theirs servers localID [t]"
    and g: "aggregationQueue (st1\<lparr>ag_queue := q\<rparr>) = aggregationQueue st @ theirs servers localID [t]"
    using ds by simp_all
  show ?thesis
    using assms(2) unfolding agg_taken_def take_split acc1 b l g
    by (elim conjE)
      (simp only: append_assoc drop_Suc_Cons length_Cons Suc_le_mono zero_less_Suc nat.inject simp_thms)
qed

lemma agg_taken_one:
  assumes "dispatch servers localID t acc st = (acc1, st1)" and "length acc < maxTx"
    and "queue_list q = cur @ rest" and "length acc1 < maxTx \<longrightarrow> cur = []"
  shows "agg_taken servers localID maxTx (t # cur) rest acc st (Suc 0) acc1 (st1\<lparr>ag_queue := q\<rparr>)"
proof -
  have "length acc1 \<le> maxTx"
    using dispatch_spec[OF assms(1)] assms(2) by (simp add: mine_def)
  then show ?thesis
    using assms(3,4) dispatch_spec[OF assms(1)] by (auto simp: agg_taken_def)
qed

lemma agg_loop_spec:
  assumes "tq_front (ag_queue st) = Some t" and "queue_list (ag_queue st) = cur @ rest" and "cur \<noteq> []"
    and "\<forall>x \<in> set cur. tx_epoch x \<le> epoch" and "rest \<noteq> []" and "tx_epoch (hd rest) > epoch"
    and "length acc < maxTx"
  shows "\<exists>k txs st'. agg_loop servers localID minTx maxTx epoch acc t st = Some (txs, st') \<and>
    agg_taken servers localID maxTx cur rest acc st k txs st'"
  using assms
proof (induction servers localID minTx maxTx epoch acc t st arbitrary: cur rule: agg_loop.induct)
  case (1 servers localID minTx maxTx epoch acc t st)
  obtain cur' where cur: "cur = t # cur'"
    using 1(2-4) by (cases cur) (auto simp: queue_list_def)
  obtain acc1 st1 where d: "dispatch servers localID t acc st = (acc1, st1)" by fastforce
  let ?q1 = "(ag_queue st)\<lparr>tq_front := None\<rparr>"
  have pop: "queue_pop (ag_queue st1) = Some (t, ?q1)"
    using 1(2) dispatch_spec[OF d] by (simp add: queue_pop_front)
  have list1: "queue_list ?q1 = cur' @ rest"
    using 1(2,3) cur by (simp add: queue_list_def)
  obtain t2 q2 where front: "queue_front ?q1 = Some (t2, q2)"
    using list1 1(6) queue_front_None[of ?q1] by (cases "queue_front ?q1") auto
  have q2: "tq_front q2 = Some t2" "queue_list q2 = cur' @ rest" "t2 = hd (cur' @ rest)"
    using front list1 unfolding queue_front_list by simp_all
  have empty: "(if length acc1 \<le> minTx then (False, q2) else queue_empty q2) = (False, q2)"
    by (simp add: queue_empty_front[OF q2(1)])
  let ?st2 = "st1\<lparr>ag_queue := q2\<rparr>"
  have loop: "agg_loop servers localID minTx maxTx epoch acc t st =
      (if tx_epoch t2 \<le> epoch \<and> length acc1 < maxTx
       then agg_loop servers localID minTx maxTx epoch acc1 t2 ?st2 else Some (acc1, ?st2))"
    by (subst agg_loop.simps) (simp add: d pop front empty Let_def)
  show ?case
  proof (cases "tx_epoch t2 \<le> epoch \<and> length acc1 < maxTx")
    case True
    then have "\<not> False \<and> tx_epoch t2 \<le> epoch \<and> length acc1 < maxTx" by simp
    note IH = 1(1)[OF refl d[symmetric] pop refl front refl refl empty[symmetric] refl this]
    have ne: "cur' \<noteq> []" using q2(3) 1(7) True by (cases cur') auto
    have "\<exists>k txs st'. agg_loop servers localID minTx maxTx epoch acc1 t2 ?st2 = Some (txs, st') \<and>
        agg_taken servers localID maxTx cur' rest acc1 ?st2 k txs st'"
      by (rule IH) (use True 1(5,6,7) ne q2(1,2) cur in simp_all)
    then obtain k txs st' where "agg_loop servers localID minTx maxTx epoch acc1 t2 ?st2 = Some (txs, st')"
      "agg_taken servers localID maxTx cur' rest acc1 ?st2 k txs st'" by blast
    then have "agg_loop servers localID minTx maxTx epoch acc t st = Some (txs, st')"
      "agg_taken servers localID maxTx cur rest acc st (Suc k) txs st'"
      using loop True cur agg_taken_more[OF d] by simp_all
    then show ?thesis by blast
  next
    case False
    then have "length acc1 < maxTx \<longrightarrow> cur' = []"
      using q2(3) 1(5) cur by (cases cur') auto
    then have "agg_taken servers localID maxTx cur rest acc st (Suc 0) acc1 ?st2"
      using agg_taken_one[OF d 1(8) q2(2)] cur by simp
    then show ?thesis using loop False by auto
  qed
qed

lemma agg_loop_shorter:
  "agg_loop servers localID minTx maxTx epoch acc t st = Some (txs, st') \<Longrightarrow>
     length (queue_list (ag_queue st')) < length (queue_list (ag_queue st))"
proof (induction servers localID minTx maxTx epoch acc t st rule: agg_loop.induct)
  case (1 servers localID minTx maxTx epoch acc t st)
  obtain acc1 st1 where d: "dispatch servers localID t acc st = (acc1, st1)" by fastforce
  have q: "ag_queue st1 = ag_queue st" using dispatch_spec[OF d] by blast
  obtain t1 q1 where pop: "queue_pop (ag_queue st1) = Some (t1, q1)"
    using 1(2) d by (subst (asm) agg_loop.simps) (auto simp: Let_def split: option.splits)
  obtain t2 q2 where front: "queue_front q1 = Some (t2, q2)"
    using 1(2) d pop by (subst (asm) agg_loop.simps) (auto simp: Let_def split: option.splits)
  obtain e q3 where e: "(if length acc1 \<le> minTx then (False, q2) else queue_empty q2) = (e, q3)"
    by fastforce
  have len: "length (queue_list q3) < length (queue_list (ag_queue st))"
    using queue_pop_shorter[OF pop] queue_front_same[OF front] e queue_empty_same[of q2 e q3] q
    by (auto split: if_splits)
  let ?st2 = "st1\<lparr>ag_queue := q3\<rparr>"
  show ?case
  proof (cases "\<not> e \<and> tx_epoch t2 \<le> epoch \<and> length acc1 < maxTx")
    case True
    then have "agg_loop servers localID minTx maxTx epoch acc1 t2 ?st2 = Some (txs, st')"
      using 1(2) d pop front e by (subst (asm) agg_loop.simps) (simp add: Let_def)
    then have "length (queue_list (ag_queue st')) < length (queue_list (ag_queue ?st2))"
      using 1(1)[OF refl d[symmetric] pop refl front refl refl e[symmetric] refl True] by blast
    then show ?thesis using len by simp
  next
    case False
    then have "st' = ?st2"
      using 1(2) d pop front e by (subst (asm) agg_loop.simps) (auto simp: Let_def)
    then show ?thesis using len by simp
  qed
qed

lemma createAggregationWorkload_shorter:
  "createAggregationWorkload maxTx st = (Some wl, st') \<Longrightarrow>
     ag_queue st' = ag_queue st \<and> length (aggregationQueue st') < length (aggregationQueue st)"
  by (auto simp: createAggregationWorkload_def Let_def split: list.splits)
    (cases "aggregationQueue st"; cases maxTx; simp)

lemma agg_createWorkload_shorter:
  assumes "agg_createWorkload servers localID minTx maxTx epoch st = Some (Some wl, st')"
  shows "length (queue_list (ag_queue st')) < length (queue_list (ag_queue st)) \<or>
    length (queue_list (ag_queue st')) = length (queue_list (ag_queue st)) \<and>
    length (aggregationQueue st') < length (aggregationQueue st)"
proof -
  obtain t q1 where front: "queue_front (ag_queue st) = Some (t, q1)"
    using assms by (auto simp: agg_createWorkload_def Option.bind_eq_Some_conv)
  have q1: "queue_list q1 = queue_list (ag_queue st)" by (rule queue_front_same[OF front])
  let ?st1 = "st\<lparr>ag_queue := q1\<rparr>"
  show ?thesis
  proof (cases "tx_epoch t > epoch")
    case True
    then have "createAggregationWorkload maxTx ?st1 = (Some wl, st')"
      using assms front by (simp add: agg_createWorkload_def)
    then show ?thesis using createAggregationWorkload_shorter[of maxTx ?st1 wl st'] q1 by simp
  next
    case False
    obtain txs st2 where loop: "agg_loop servers localID minTx maxTx epoch [] t ?st1 = Some (txs, st2)"
      using assms front False by (auto simp: agg_createWorkload_def Option.bind_eq_Some_conv)
    have "ag_queue st' = ag_queue st2"
      using assms front False loop createAggregationWorkload_shorter[of maxTx st2 wl st']
      by (cases "txs = []") (simp_all add: agg_createWorkload_def)
    then show ?thesis using agg_loop_shorter[OF loop] q1 by simp
  qed
qed

function agg_assign ::
  "nat \<Rightarrow> nat \<Rightarrow> nat \<Rightarrow> nat \<Rightarrow> epoch_size_t \<Rightarrow> agg_state \<Rightarrow> (workload list \<times> agg_state) option" where
  "agg_assign servers localID minTx maxTx epoch st =
     (case agg_createWorkload servers localID minTx maxTx epoch st of
        None \<Rightarrow> None
      | Some (None, st1) \<Rightarrow> Some ([], st1)
      | Some (Some wl, st1) \<Rightarrow>
          map_option (\<lambda>(wls, st2). (wl # wls, st2)) (agg_assign servers localID minTx maxTx epoch st1))"
  by pat_completeness auto
termination
  by (relation "measures [\<lambda>(servers, localID, minTx, maxTx, epoch, st). length (queue_list (ag_queue st)),
      \<lambda>(servers, localID, minTx, maxTx, epoch, st). length (aggregationQueue st)]")
    (auto dest!: agg_createWorkload_shorter)

declare agg_assign.simps [simp del]

definition work_of :: "bool \<Rightarrow> workload list \<Rightarrow> transaction list" where
  "work_of agg wls = concat (map transactionList (filter (\<lambda>wl. wl_aggregation wl = agg) wls))"

text \<open>With no transaction of the epoch left, the aggregation queue is handed out in pieces.\<close>

lemma createAggregationWorkload_spec:
  assumes "0 < maxTx"
  shows "createAggregationWorkload maxTx st =
    (if aggregationQueue st = [] then (None, st)
     else (Some \<lparr>wl_epoch = tx_epoch (hd (aggregationQueue st)),
                 transactionList = take maxTx (aggregationQueue st), wl_aggregation = True\<rparr>,
           st\<lparr>aggregationQueue := drop maxTx (aggregationQueue st)\<rparr>))"
  using assms
  by (cases "aggregationQueue st"; cases maxTx) (auto simp: createAggregationWorkload_def Let_def)

lemma agg_assign_rest:
  assumes "queue_list (ag_queue st) = rest" and "rest \<noteq> []" and "tx_epoch (hd rest) > epoch" and "0 < maxTx"
  shows "\<exists>wls st'. agg_assign servers localID minTx maxTx epoch st = Some (wls, st') \<and>
    work_of True wls = aggregationQueue st \<and> work_of False wls = [] \<and>
    queue_list (ag_queue st') = rest \<and> aggregationQueue st' = []"
  using assms(1)
proof (induction "length (aggregationQueue st)" arbitrary: st rule: less_induct)
  case less
  obtain t q1 where front: "queue_front (ag_queue st) = Some (t, q1)"
    using less.prems assms(2) queue_front_None[of "ag_queue st"] by (cases "queue_front (ag_queue st)") auto
  have t: "t = hd rest" "queue_list q1 = rest"
    using front less.prems assms(2) unfolding queue_front_list by auto
  let ?st1 = "st\<lparr>ag_queue := q1\<rparr>"
  have cr: "agg_createWorkload servers localID minTx maxTx epoch st = Some (createAggregationWorkload maxTx ?st1)"
    using front t(1) assms(3) by (simp add: agg_createWorkload_def)
  show ?case
  proof (cases "aggregationQueue st = []")
    case True
    then have "agg_assign servers localID minTx maxTx epoch st = Some ([], ?st1)"
      using cr createAggregationWorkload_spec[OF assms(4), of ?st1] by (subst agg_assign.simps) simp
    then show ?thesis using True t(2) by (simp add: work_of_def)
  next
    case False
    let ?st2 = "?st1\<lparr>aggregationQueue := drop maxTx (aggregationQueue st)\<rparr>"
    let ?wl = "\<lparr>wl_epoch = tx_epoch (hd (aggregationQueue st)),
      transactionList = take maxTx (aggregationQueue st), wl_aggregation = True\<rparr>"
    have step: "agg_createWorkload servers localID minTx maxTx epoch st = Some (Some ?wl, ?st2)"
      using cr createAggregationWorkload_spec[OF assms(4), of ?st1] False by simp
    have "\<exists>wls st'. agg_assign servers localID minTx maxTx epoch ?st2 = Some (wls, st') \<and>
      work_of True wls = aggregationQueue ?st2 \<and> work_of False wls = [] \<and>
      queue_list (ag_queue st') = rest \<and> aggregationQueue st' = []"
      by (rule less.hyps) (use False assms(4) t(2) in simp_all)
    then obtain wls st' where rec: "agg_assign servers localID minTx maxTx epoch ?st2 = Some (wls, st')"
      "work_of True wls = drop maxTx (aggregationQueue st)" "work_of False wls = []"
      "queue_list (ag_queue st') = rest" "aggregationQueue st' = []" by auto
    then have "agg_assign servers localID minTx maxTx epoch st = Some (?wl # wls, st')"
      using step by (subst agg_assign.simps) simp
    then show ?thesis using rec by (auto simp: work_of_def)
  qed
qed

lemma agg_assign_empty_workload:
  assumes "queue_list (ag_queue st) = rest" and "rest \<noteq> []" and "tx_epoch (hd rest) > epoch" and "0 < maxTx"
    and "agg_createWorkload servers localID minTx maxTx epoch st0 = Some (createAggregationWorkload maxTx st)"
  shows "\<exists>wls st'. agg_assign servers localID minTx maxTx epoch st0 = Some (wls, st') \<and>
    work_of True wls = aggregationQueue st \<and> work_of False wls = [] \<and>
    queue_list (ag_queue st') = rest \<and> aggregationQueue st' = []"
proof (cases "aggregationQueue st = []")
  case True
  then have "agg_assign servers localID minTx maxTx epoch st0 = Some ([], st)"
    using assms(5) createAggregationWorkload_spec[OF assms(4), of st] by (subst agg_assign.simps) simp
  then show ?thesis using True assms(1) by (simp add: work_of_def)
next
  case False
  let ?st2 = "st\<lparr>aggregationQueue := drop maxTx (aggregationQueue st)\<rparr>"
  let ?wl = "\<lparr>wl_epoch = tx_epoch (hd (aggregationQueue st)),
    transactionList = take maxTx (aggregationQueue st), wl_aggregation = True\<rparr>"
  have step: "agg_createWorkload servers localID minTx maxTx epoch st0 = Some (Some ?wl, ?st2)"
    using assms(5) createAggregationWorkload_spec[OF assms(4), of st] False by simp
  have "queue_list (ag_queue ?st2) = rest" using assms(1) by simp
  from agg_assign_rest[OF this assms(2-4), of servers localID minTx]
  obtain wls st' where rec: "agg_assign servers localID minTx maxTx epoch ?st2 = Some (wls, st')"
    "work_of True wls = aggregationQueue ?st2" "work_of False wls = []"
    "queue_list (ag_queue st') = rest" "aggregationQueue st' = []" by (elim exE conjE)
  then have "agg_assign servers localID minTx maxTx epoch st0 = Some (?wl # wls, st')"
    using step by (subst agg_assign.simps) simp
  then show ?thesis using rec by (auto simp: work_of_def)
qed

lemma mine_theirs_append:
  "mine servers localID (xs @ ys) = mine servers localID xs @ mine servers localID ys"
  "theirs servers localID (xs @ ys) = theirs servers localID xs @ theirs servers localID ys"
  by (simp_all add: mine_def theirs_def)

lemma agg_assign_spec:
  assumes "queue_list (ag_queue st) = cur @ rest" and "\<forall>x \<in> set cur. tx_epoch x \<le> epoch"
    and "rest \<noteq> []" and "tx_epoch (hd rest) > epoch" and "0 < maxTx"
  shows "\<exists>wls st'. agg_assign servers localID minTx maxTx epoch st = Some (wls, st') \<and>
    work_of False wls = mine servers localID cur \<and>
    work_of True wls = aggregationQueue st @ theirs servers localID cur \<and>
    queue_list (ag_queue st') = rest \<and> aggregationQueue st' = []"
  using assms(1,2)
proof (induction "length cur" arbitrary: cur st rule: less_induct)
  case less
  show ?case
  proof (cases "cur = []")
    case True
    then have "queue_list (ag_queue st) = rest" using less.prems(1) by simp
    from agg_assign_rest[OF this assms(3-5), of servers localID minTx]
    obtain wls st' where f: "agg_assign servers localID minTx maxTx epoch st = Some (wls, st')"
      "work_of True wls = aggregationQueue st" "work_of False wls = []"
      "queue_list (ag_queue st') = rest" "aggregationQueue st' = []" by (elim exE conjE)
    have e: "mine servers localID cur = []" "theirs servers localID cur = []"
      using True by (simp_all add: mine_def theirs_def)
    show ?thesis
      by (rule exI[of _ wls], rule exI[of _ st']) (simp only: f e append_Nil2 simp_thms)
  next
    case False
    obtain t q1 where front: "queue_front (ag_queue st) = Some (t, q1)"
      using less.prems(1) False queue_front_None[of "ag_queue st"] by (cases "queue_front (ag_queue st)") auto
    let ?st1 = "st\<lparr>ag_queue := q1\<rparr>"
    have st1: "tq_front (ag_queue ?st1) = Some t" "queue_list (ag_queue ?st1) = cur @ rest" "t = hd cur"
      using front less.prems(1) False unfolding queue_front_list by (cases cur; simp)+
    have "length ([] :: transaction list) < maxTx" using assms(5) by simp
    from agg_loop_spec[OF st1(1,2) False less.prems(2) assms(3,4) this]
    obtain k txs st2 where loop: "agg_loop servers localID minTx maxTx epoch [] t ?st1 = Some (txs, st2)"
      and taken: "agg_taken servers localID maxTx cur rest [] ?st1 k txs st2" by blast
    have epoch: "\<not> tx_epoch t > epoch" using st1(3) less.prems(2) False by (simp add: not_less)
    note tk = agg_takenD[OF taken, unfolded append_Nil]
    show ?thesis
    proof (cases "txs = []")
      case True
      then have k: "k = length cur" using tk(5) assms(5) by simp
      have cr: "agg_createWorkload servers localID minTx maxTx epoch st = Some (createAggregationWorkload maxTx st2)"
        using front epoch loop True by (simp add: agg_createWorkload_def)
      have "queue_list (ag_queue st2) = rest" using tk(3) k by simp
      from agg_assign_empty_workload[OF this assms(3-5) cr]
      obtain wls st' where f: "agg_assign servers localID minTx maxTx epoch st = Some (wls, st')"
        "work_of True wls = aggregationQueue st2" "work_of False wls = []"
        "queue_list (ag_queue st') = rest" "aggregationQueue st' = []" by (elim exE conjE)
      have e: "mine servers localID cur = []" "aggregationQueue st2 = aggregationQueue st @ theirs servers localID cur"
        using tk(2) k True apply simp
        using tk(4) k by simp
      show ?thesis
        by (rule exI[of _ wls], rule exI[of _ st']) (simp only: f e simp_thms)
    next
      case nonempty: False
      let ?wl = "\<lparr>wl_epoch = tx_epoch t, transactionList = txs, wl_aggregation = False\<rparr>"
      have cr: "agg_createWorkload servers localID minTx maxTx epoch st = Some (Some ?wl, st2)"
        using front epoch loop nonempty by (simp add: agg_createWorkload_def)
      have "\<forall>x \<in> set (drop k cur). tx_epoch x \<le> epoch" using less.prems(2) by (auto dest: in_set_dropD)
      note IH = less.hyps[OF _ tk(3) this]
      have "length (drop k cur) < length cur" using tk(1) False by simp
      from IH[OF this]
      obtain wls st' where rec: "agg_assign servers localID minTx maxTx epoch st2 = Some (wls, st')"
        "work_of False wls = mine servers localID (drop k cur)"
        "work_of True wls = aggregationQueue st2 @ theirs servers localID (drop k cur)"
        "queue_list (ag_queue st') = rest" "aggregationQueue st' = []" by (elim exE conjE)
      have "agg_assign servers localID minTx maxTx epoch st = Some (?wl # wls, st')"
        using cr rec(1) by (subst agg_assign.simps) simp
      moreover have "work_of False (?wl # wls) = mine servers localID cur"
        using rec(2) tk(2) mine_theirs_append(1)[of servers localID "take k cur" "drop k cur"]
        by (simp add: work_of_def)
      moreover have "work_of True (?wl # wls) = aggregationQueue st @ theirs servers localID cur"
        using rec(3) tk(4) mine_theirs_append(2)[of servers localID "take k cur" "drop k cur"]
        by (simp add: work_of_def)
      ultimately show ?thesis using rec(4,5) by blast
    qed
  qed
qed

text \<open>
  In a cluster the assignment phase ends and splits the epoch as intended: the ordinary
  workloads are exactly the transactions this server executes, the aggregation workloads exactly the
  others, both in queue order, and nothing is left over.
\<close>

theorem agg_assign_partition:
  assumes "queue_list (ag_queue st) = cur @ rest" and "aggregationQueue st = []"
    and "\<forall>x \<in> set cur. tx_epoch x \<le> epoch"
    and "rest \<noteq> []" and "tx_epoch (hd rest) > epoch" and "0 < maxTx"
  shows "\<exists>wls st'. agg_assign servers localID minTx maxTx epoch st = Some (wls, st') \<and>
    work_of False wls = filter (\<lambda>t. isLocalTransaction servers localID (tx_tid t)) cur \<and>
    work_of True wls = filter (\<lambda>t. \<not> isLocalTransaction servers localID (tx_tid t)) cur \<and>
    queue_list (ag_queue st') = rest \<and> aggregationQueue st' = []"
  using agg_assign_spec[OF assms(1,3-6), of servers localID minTx] assms(2) by (simp add: mine_def theirs_def)

definition demo_agg :: agg_state where
  "demo_agg = \<lparr>ag_queue = demo_queue, aggregationQueue = [], ag_broadcast = [], ag_listen = []\<rparr>"

lemma agg_assign_partition_witness:
  "\<exists>wls st'. agg_assign 2 0 1 2 3 demo_agg = Some (wls, st') \<and>
    map tx_tid (work_of False wls) = [2, 8] \<and> map tx_tid (work_of True wls) = [5]"
proof -
  let ?tx = "\<lambda>(e, t). makeTransaction e t False"
  have "\<exists>wls st'. agg_assign 2 0 1 2 3 demo_agg = Some (wls, st') \<and>
    work_of False wls = filter (\<lambda>t. isLocalTransaction 2 0 (tx_tid t)) (map ?tx [(3, 5), (3, 2), (3, 8)]) \<and>
    work_of True wls = filter (\<lambda>t. \<not> isLocalTransaction 2 0 (tx_tid t)) (map ?tx [(3, 5), (3, 2), (3, 8)]) \<and>
    queue_list (ag_queue st') = map ?tx [(4, 1)] \<and> aggregationQueue st' = []"
    by (rule agg_assign_partition)
      (simp_all add: demo_agg_def demo_queue_def queue_list_def makeTransaction_def newMockTransaction_def)
  then show ?thesis by (auto simp: makeTransaction_def isLocalTransaction_def)
qed

section \<open>WorkloadSizeAdapter\<close>

text \<open>
  The averages are computed with \<^verbatim>\<open>double\<close>; here with rationals, which differ from it by rounding
  only. The bounds below rest on the two final comparisons, which are the same. An average over no
  entry is \<^verbatim>\<open>0.0 / 0\<close>, whose conversion to an integer is undefined.
\<close>

record size_adapter =
  cacheEpoch :: epoch_size_t
  cacheCountList :: "nat list"
  aggregateServerCount :: nat
  coreCount :: nat
  maxTxCount :: nat
  minTxCount :: nat

definition cacheSize :: nat where "cacheSize = 5"

definition recommendMaxTx :: nat where "recommendMaxTx = 1000"

definition recommendMinTx :: nat where "recommendMinTx = 500"

definition minTxThreadHold :: nat where "minTxThreadHold = 5"

definition newWorkloadSizeAdapter :: "nat \<Rightarrow> nat \<Rightarrow> size_adapter" where
  "newWorkloadSizeAdapter servers cpus =
     \<lparr>cacheEpoch = 1, cacheCountList = replicate cacheSize 3000, aggregateServerCount = servers,
      coreCount = cpus div 2 + 1, maxTxCount = recommendMaxTx, minTxCount = recommendMinTx\<rparr>"

definition best_sizes :: "size_adapter \<Rightarrow> rat \<Rightarrow> rat \<times> rat" where
  "best_sizes a averageCnt =
     (let cores = of_nat (coreCount a);
          minFactor = averageCnt / of_nat (aggregateServerCount a * coreCount a * recommendMaxTx) + 1;
          maxFactor = averageCnt / of_nat (aggregateServerCount a * coreCount a * recommendMinTx) + 1
      in (averageCnt / (cores * maxFactor), averageCnt / (cores * minFactor)))"

definition store_sizes :: "rat \<times> rat \<Rightarrow> size_adapter \<Rightarrow> size_adapter" where
  "store_sizes sizes a =
     (let minTxTmpCount = (if fst sizes < of_nat minTxThreadHold then of_nat minTxThreadHold else fst sizes)
      in a\<lparr>minTxCount := nat \<lfloor>minTxTmpCount\<rfloor>,
           maxTxCount := nat \<lfloor>if snd sizes < minTxTmpCount then minTxTmpCount else snd sizes\<rfloor>\<rparr>)"

definition calculateBestWorkloadSize :: "size_adapter \<Rightarrow> size_adapter option" where
  "calculateBestWorkloadSize a =
     (let zeros = length (filter (\<lambda>n. n = 0) (cacheCountList a));
          averageCnt = of_nat (sum_list (cacheCountList a)) / of_nat (cacheSize - zeros)
      in if zeros \<ge> cacheSize then None else Some (store_sizes (best_sizes a averageCnt) a))"

definition setLastEpochTxCount :: "epoch_size_t \<Rightarrow> nat \<Rightarrow> size_adapter \<Rightarrow> size_adapter option" where
  "setLastEpochTxCount epoch cnt a =
     (let i = unat epoch mod cacheSize
      in if cacheEpoch a = epoch
         then Some (a\<lparr>cacheCountList := (cacheCountList a)[i := cacheCountList a ! i + cnt]\<rparr>)
         else if cacheEpoch a + 1 \<noteq> epoch then None
         else do {
           a1 \<leftarrow> calculateBestWorkloadSize a;
           Some (a1\<lparr>cacheEpoch := epoch, cacheCountList := (cacheCountList a1)[i := cnt]\<rparr>)
         })"

definition adapter_ok :: "size_adapter \<Rightarrow> bool" where
  "adapter_ok a \<longleftrightarrow> length (cacheCountList a) = cacheSize \<and> 0 \<notin> set (cacheCountList a) \<and>
     minTxThreadHold \<le> minTxCount a \<and> minTxCount a \<le> maxTxCount a"

lemma store_sizes_bounds:
  "minTxThreadHold \<le> minTxCount (store_sizes sizes a)"
  "minTxCount (store_sizes sizes a) \<le> maxTxCount (store_sizes sizes a)"
proof -
  have five: "(5 :: nat) \<le> nat \<lfloor>if x < 5 then 5 else x\<rfloor>" for x :: rat
    by (auto simp: le_nat_iff le_floor_iff)
  have "minTxCount (store_sizes sizes a) = nat \<lfloor>if fst sizes < 5 then 5 else fst sizes\<rfloor>"
    by (simp add: store_sizes_def Let_def minTxThreadHold_def)
  then show "minTxThreadHold \<le> minTxCount (store_sizes sizes a)"
    using five[of "fst sizes"] by (simp only: minTxThreadHold_def)
  have mono: "nat \<lfloor>x\<rfloor> \<le> nat \<lfloor>if y < x then x else y\<rfloor>" for x y :: rat
    by (cases "y < x") (simp_all add: nat_mono floor_mono)
  show "minTxCount (store_sizes sizes a) \<le> maxTxCount (store_sizes sizes a)"
    using mono by (simp add: store_sizes_def Let_def)
qed

lemma store_sizes_frame:
  "cacheCountList (store_sizes sizes a) = cacheCountList a" "cacheEpoch (store_sizes sizes a) = cacheEpoch a"
  by (simp_all add: store_sizes_def Let_def)

lemma calculateBest_ok:
  assumes "adapter_ok a"
  shows "\<exists>a'. calculateBestWorkloadSize a = Some a' \<and> adapter_ok a' \<and>
    cacheCountList a' = cacheCountList a \<and> cacheEpoch a' = cacheEpoch a"
proof -
  have "filter (\<lambda>n. n = 0) (cacheCountList a) = []"
    using assms unfolding adapter_ok_def filter_empty_conv by metis
  then show ?thesis
    using assms store_sizes_bounds store_sizes_frame
    by (auto simp: calculateBestWorkloadSize_def adapter_ok_def cacheSize_def)
qed

lemma adapter_ok_update:
  assumes "adapter_ok a" and "0 < n"
  shows "adapter_ok (a\<lparr>cacheCountList := (cacheCountList a)[i := n]\<rparr>)"
  using assms set_update_subset_insert[of "cacheCountList a" i n] by (auto simp: adapter_ok_def)

text \<open>
  The workload sizes stay sane: as long as every epoch reports at least one transaction and
  epochs come one after the other, the adapter never fails, the lower bound stays at least 5, and
  the upper bound is never below the lower one.
\<close>

theorem setLastEpochTxCount_ok:
  assumes "adapter_ok a" and "0 < cnt" and "epoch = cacheEpoch a \<or> epoch = cacheEpoch a + 1"
  shows "\<exists>a'. setLastEpochTxCount epoch cnt a = Some a' \<and> adapter_ok a' \<and> cacheEpoch a' = epoch"
proof (cases "epoch = cacheEpoch a")
  case True
  then show ?thesis
    using adapter_ok_update[OF assms(1)] assms(2) by (simp add: setLastEpochTxCount_def Let_def)
next
  case False
  obtain a1 where a1: "calculateBestWorkloadSize a = Some a1" "adapter_ok a1"
    using calculateBest_ok[OF assms(1)] by blast
  then have "adapter_ok (a1\<lparr>cacheEpoch := epoch, cacheCountList := (cacheCountList a1)[i := cnt]\<rparr>)" for i
    using adapter_ok_update[OF a1(2) assms(2)] by (simp add: adapter_ok_def)
  then show ?thesis
    using False assms(3) a1 by (auto simp: setLastEpochTxCount_def Let_def)
qed

lemma setLastEpochTxCount_ok_witness:
  "\<exists>a'. setLastEpochTxCount 2 700 (newWorkloadSizeAdapter 1 8) = Some a' \<and> adapter_ok a' \<and> cacheEpoch a' = 2"
  by (rule setLastEpochTxCount_ok)
    (simp_all add: adapter_ok_def newWorkloadSizeAdapter_def cacheSize_def minTxThreadHold_def
      recommendMinTx_def recommendMaxTx_def)

end
