(* ===== verification/Reserve_Cas.thy ===== *)
theory Reserve_Cas
  imports Reserve_Table
begin

text \<open>
  The reservation of one register by many threads at once: the load and the
  \<^verbatim>\<open>compare_exchange_weak\<close> loop of \<^verbatim>\<open>MockReserveTable::reserveRWSet\<close>, one atomic access per step,
  interleaved freely. The result is the one \<open>reserve_reg\<close> computes, so the atomic reservation of
  \<open>Reserve_Table\<close> loses nothing.
\<close>

section \<open>Threads on a register\<close>

datatype cas_pc = Cas_Load | Cas_Loop tid_size_t | Cas_Done

record cas_state =
  reg :: tid_size_t
  pcs :: "nat \<Rightarrow> cas_pc"

definition cas_init :: "tid_size_t \<Rightarrow> cas_state" where
  "cas_init old = \<lparr>reg = old, pcs = (\<lambda>_. Cas_Load)\<rparr>"

definition set_pc :: "nat \<Rightarrow> cas_pc \<Rightarrow> cas_state \<Rightarrow> cas_state" where
  "set_pc i pc s = s\<lparr>pcs := (pcs s)(i := pc)\<rparr>"

text \<open>
  The steps of thread \<open>i\<close>, which reserves for the transaction \<open>tids i\<close>. A failed exchange stores the
  current value in the expected one; it may fail spuriously.
\<close>

inductive cas_step :: "nat set \<Rightarrow> (nat \<Rightarrow> tid_size_t) \<Rightarrow> cas_state \<Rightarrow> cas_state \<Rightarrow> bool" for T tids where
  load: "i \<in> T \<Longrightarrow> pcs s i = Cas_Load \<Longrightarrow> cas_step T tids s (set_pc i (Cas_Loop (reg s)) s)"
| keep: "i \<in> T \<Longrightarrow> pcs s i = Cas_Loop old \<Longrightarrow> old \<le> tids i \<and> old \<noteq> 0 \<Longrightarrow>
    cas_step T tids s (set_pc i Cas_Done s)"
| success: "i \<in> T \<Longrightarrow> pcs s i = Cas_Loop old \<Longrightarrow> \<not> (old \<le> tids i \<and> old \<noteq> 0) \<Longrightarrow> reg s = old \<Longrightarrow>
    cas_step T tids s (set_pc i Cas_Done (s\<lparr>reg := tids i\<rparr>))"
| failure: "i \<in> T \<Longrightarrow> pcs s i = Cas_Loop old \<Longrightarrow> \<not> (old \<le> tids i \<and> old \<noteq> 0) \<Longrightarrow>
    cas_step T tids s (set_pc i (Cas_Loop (reg s)) s)"

inductive cas_run :: "nat set \<Rightarrow> (nat \<Rightarrow> tid_size_t) \<Rightarrow> tid_size_t \<Rightarrow> cas_state \<Rightarrow> bool" for T tids old where
  start: "cas_run T tids old (cas_init old)"
| step: "cas_run T tids old s \<Longrightarrow> cas_step T tids s s' \<Longrightarrow> cas_run T tids old s'"

section \<open>The register only moves down\<close>

text \<open>The value is set and not above \<open>t\<close>.\<close>

definition settled :: "tid_size_t \<Rightarrow> tid_size_t \<Rightarrow> bool" where
  "settled r t \<longleftrightarrow> r \<noteq> 0 \<and> r \<le> t"

definition cas_inv :: "nat set \<Rightarrow> (nat \<Rightarrow> tid_size_t) \<Rightarrow> tid_size_t \<Rightarrow> cas_state \<Rightarrow> bool" where
  "cas_inv T tids old s \<longleftrightarrow>
     reg s \<in> insert old (tids ` T) \<and> (old \<noteq> 0 \<longrightarrow> settled (reg s) old) \<and>
     (\<forall>i v. pcs s i = Cas_Loop v \<longrightarrow> v \<noteq> 0 \<longrightarrow> settled (reg s) v) \<and>
     (\<forall>i. pcs s i = Cas_Done \<longrightarrow> settled (reg s) (tids i))"

lemma cas_step_inv:
  assumes "cas_step T tids s s'" and "cas_inv T tids old s" and nz: "\<forall>i \<in> T. tids i \<noteq> 0"
  shows "cas_inv T tids old s'"
  using assms(1)
proof cases
  case (load i)
  then show ?thesis using assms(2) by (auto simp: cas_inv_def set_pc_def settled_def)
next
  case (keep i v)
  then have "settled (reg s) (tids i)" using assms(2) by (fastforce simp: cas_inv_def settled_def)
  then show ?thesis using assms(2) keep by (auto simp: cas_inv_def set_pc_def)
next
  case (success i v)
  then have down: "settled (tids i) t" if "settled (reg s) t" for t
    using nz that by (auto simp: settled_def)
  have "settled (tids i) (tids i)" using nz success by (simp add: settled_def)
  then show ?thesis using assms(2) success down by (auto simp: cas_inv_def set_pc_def)
next
  case (failure i v)
  then show ?thesis using assms(2) by (auto simp: cas_inv_def set_pc_def settled_def)
qed

lemma cas_run_inv:
  assumes "cas_run T tids old s" and "\<forall>i \<in> T. tids i \<noteq> 0"
  shows "cas_inv T tids old s"
  using assms(1)
proof induction
  case start
  then show ?case by (simp add: cas_inv_def cas_init_def settled_def)
next
  case (step s s')
  then show ?case using cas_step_inv assms(2) by blast
qed

section \<open>The sequential reservation\<close>

definition reserve_seq :: "tid_size_t list \<Rightarrow> tid_size_t \<Rightarrow> tid_size_t" where
  "reserve_seq ts old = fold (\<lambda>t r. reserve_reg r t) ts old"

text \<open>The value is the only one of the ids that is settled below all of them.\<close>

lemma reserve_seq_settled:
  assumes "0 \<notin> set ts" and "ts \<noteq> [] \<or> old \<noteq> 0"
  shows "reserve_seq ts old \<in> insert old (set ts)" and "old \<noteq> 0 \<Longrightarrow> settled (reserve_seq ts old) old"
    and "\<forall>t \<in> set ts. settled (reserve_seq ts old) t"
proof -
  have "reserve_seq ts old \<in> insert old (set ts) \<and> (old \<noteq> 0 \<longrightarrow> settled (reserve_seq ts old) old) \<and>
      (\<forall>t \<in> set ts. settled (reserve_seq ts old) t)"
    if "0 \<notin> set ts" for old
    using that
  proof (induction ts arbitrary: old)
    case (Cons t ts)
    let ?r = "reserve_reg old t"
    have r: "?r \<noteq> 0" "?r \<le> t" "old \<noteq> 0 \<longrightarrow> ?r \<le> old" "?r \<in> {old, t}"
      using Cons.prems by (auto simp: reserve_reg_def)
    have "reserve_seq (t # ts) old = reserve_seq ts ?r" by (simp add: reserve_seq_def)
    then show ?case
      using Cons.IH[of ?r] Cons.prems r by (auto simp: settled_def)
  qed (simp add: reserve_seq_def settled_def)
  from this[OF assms(1), of old] show "reserve_seq ts old \<in> insert old (set ts)"
    and "old \<noteq> 0 \<Longrightarrow> settled (reserve_seq ts old) old"
    and "\<forall>t \<in> set ts. settled (reserve_seq ts old) t"
    by blast+
qed

lemma settled_unique:
  assumes "r \<in> insert old A" "old \<noteq> 0 \<longrightarrow> settled r old" "\<forall>t \<in> A. settled r t"
    and "r' \<in> insert old A" "old \<noteq> 0 \<longrightarrow> settled r' old" "\<forall>t \<in> A. settled r' t" and "A \<noteq> {}"
  shows "r = r'"
proof -
  have "r \<noteq> 0" "r' \<noteq> 0" using assms(3,6,7) by (auto simp: settled_def)
  then have "r \<le> r'" "r' \<le> r" using assms by (auto simp: settled_def)
  then show ?thesis by simp
qed

text \<open>
  C11. Concurrent reservations of a cell are linearizable: when any number of threads with nonzero
  ids run the compare-exchange loop on a register and all have finished, in whatever
  interleaving and with whatever spurious failures, the register holds what the
  reservations one after the other, in any order, would have left: the smallest id.
\<close>

theorem concurrent_reserve_sequential:
  assumes "cas_run T tids old s" and "\<forall>i \<in> T. tids i \<noteq> 0" and "\<forall>i \<in> T. pcs s i = Cas_Done"
    and "set ts = tids ` T" and "T \<noteq> {}"
  shows "reg s = reserve_seq ts old"
proof (rule settled_unique)
  have inv: "cas_inv T tids old s" using cas_run_inv[OF assms(1,2)] .
  show "reg s \<in> insert old (tids ` T)" "old \<noteq> 0 \<longrightarrow> settled (reg s) old"
    using inv by (simp_all add: cas_inv_def)
  show "\<forall>t \<in> tids ` T. settled (reg s) t" using inv assms(3) by (auto simp: cas_inv_def)
  have ts: "0 \<notin> set ts" "ts \<noteq> [] \<or> old \<noteq> 0" using assms(2,4,5) by auto
  show "reserve_seq ts old \<in> insert old (tids ` T)" "old \<noteq> 0 \<longrightarrow> settled (reserve_seq ts old) old"
    "\<forall>t \<in> tids ` T. settled (reserve_seq ts old) t"
    using reserve_seq_settled[OF ts] assms(4) by auto
  show "tids ` T \<noteq> {}" using assms(5) by simp
qed

text \<open>Two threads: both load 0, the larger id wins the first exchange, the smaller one retries.\<close>

definition demo_tids :: "nat \<Rightarrow> tid_size_t" where
  "demo_tids i = (if i = 0 then 9 else 4)"

definition demo_cas :: "tid_size_t \<Rightarrow> cas_pc \<Rightarrow> cas_pc \<Rightarrow> cas_state" where
  "demo_cas r p q = \<lparr>reg = r, pcs = (\<lambda>_. Cas_Load)(0 := p, 1 := q)\<rparr>"

lemma demo_cas_init: "cas_init 0 = demo_cas 0 Cas_Load Cas_Load"
  by (auto simp: cas_init_def demo_cas_def)

lemma demo_cas_pc:
  "set_pc 0 p (demo_cas r p' q) = demo_cas r p q" "set_pc (Suc 0) q (demo_cas r p q') = demo_cas r p q"
  "(demo_cas r p q)\<lparr>reg := r'\<rparr> = demo_cas r' p q"
  by (auto simp: set_pc_def demo_cas_def)

lemma demo_cas_sel:
  "reg (demo_cas r p q) = r" "pcs (demo_cas r p q) 0 = p" "pcs (demo_cas r p q) (Suc 0) = q"
  by (simp_all add: demo_cas_def)

lemma demo_cas_run: "cas_run {0, 1} demo_tids 0 (demo_cas 4 Cas_Done Cas_Done)"
proof -
  note sel = demo_cas_pc demo_cas_sel demo_tids_def
  have "cas_run {0, 1} demo_tids 0 (demo_cas 0 Cas_Load Cas_Load)"
    using cas_run.start[of "{0, 1}" demo_tids 0] by (simp add: demo_cas_init)
  then have "cas_run {0, 1} demo_tids 0 (demo_cas 0 (Cas_Loop 0) Cas_Load)"
    using cas_step.load[of 0 "{0, 1}" "demo_cas 0 Cas_Load Cas_Load" demo_tids]
    by (elim cas_run.step) (simp add: sel)
  then have "cas_run {0, 1} demo_tids 0 (demo_cas 0 (Cas_Loop 0) (Cas_Loop 0))"
    using cas_step.load[of 1 "{0, 1}" "demo_cas 0 (Cas_Loop 0) Cas_Load" demo_tids]
    by (elim cas_run.step) (simp add: sel)
  then have "cas_run {0, 1} demo_tids 0 (demo_cas 9 Cas_Done (Cas_Loop 0))"
    using cas_step.success[of 0 "{0, 1}" "demo_cas 0 (Cas_Loop 0) (Cas_Loop 0)" 0 demo_tids]
    by (elim cas_run.step) (simp add: sel)
  then have "cas_run {0, 1} demo_tids 0 (demo_cas 9 Cas_Done (Cas_Loop 9))"
    using cas_step.failure[of 1 "{0, 1}" "demo_cas 9 Cas_Done (Cas_Loop 0)" 0 demo_tids]
    by (elim cas_run.step) (simp add: sel)
  then show ?thesis
    using cas_step.success[of 1 "{0, 1}" "demo_cas 9 Cas_Done (Cas_Loop 9)" 9 demo_tids]
    by (elim cas_run.step) (simp add: sel)
qed

lemma concurrent_reserve_sequential_witness:
  "reg (demo_cas 4 Cas_Done Cas_Done) = reserve_seq [9, 4] 0"
  using concurrent_reserve_sequential[OF demo_cas_run, of "[9, 4]"]
  by (auto simp: demo_tids_def demo_cas_def)

end
