(* ===== verification/Mvcc_Hash_Map.thy ===== *)
theory Mvcc_Hash_Map
  imports Reserve_Table "HOL-Library.Char_ord" "HOL-Library.List_Lexorder"
begin

text \<open>
  \<^verbatim>\<open>include/common/mvcc_hash_map.h\<close>: the multi-version hash map (997 buckets, each key with a
  list of versions, newest first) and the reservation table built on it,
  \<^verbatim>\<open>MockMVCCReserveTable\<close>. The list of a key is kept in the buckets of \<open>Hash_Map\<close>; a returned
  \<^verbatim>\<open>ValueType*\<close> is the position of the first entry with that version, so reading it is
  \<open>get_key_version\<close> and writing it is \<open>mv_write\<close>.
\<close>

type_synonym ('k, 'v) mvcc_map = "('k, (string \<times> 'v) list) hash_map"

section \<open>Operations\<close>

definition contains_key :: "('k \<Rightarrow> nat) \<Rightarrow> ('k, 'v) mvcc_map \<Rightarrow> 'k \<Rightarrow> bool" where
  "contains_key hash m key =
     (case hm_lookup hash m key of None \<Rightarrow> False | Some l \<Rightarrow> l \<noteq> [])"

definition contains_key_version :: "('k \<Rightarrow> nat) \<Rightarrow> ('k, 'v) mvcc_map \<Rightarrow> 'k \<Rightarrow> string \<Rightarrow> bool" where
  "contains_key_version hash m key version =
     (case hm_lookup hash m key of
        None \<Rightarrow> False
      | Some l \<Rightarrow> list_ex (\<lambda>vt. fst vt = version) l)"

definition remove_key :: "('k \<Rightarrow> nat) \<Rightarrow> ('k, 'v) mvcc_map \<Rightarrow> 'k \<Rightarrow> bool \<times> ('k, 'v) mvcc_map" where
  "remove_key hash m key = hm_remove hash m key"

fun erase_first :: "string \<Rightarrow> (string \<times> 'v) list \<Rightarrow> bool \<times> (string \<times> 'v) list" where
  "erase_first version [] = (False, [])"
| "erase_first version (vt # l) =
     (if fst vt = version then (True, l)
      else let (b, l') = erase_first version l in (b, vt # l'))"

definition remove_key_version ::
  "('k \<Rightarrow> nat) \<Rightarrow> ('k, 'v) mvcc_map \<Rightarrow> 'k \<Rightarrow> string \<Rightarrow> bool \<times> ('k, 'v) mvcc_map" where
  "remove_key_version hash m key version =
     (case hm_lookup hash m key of
        None \<Rightarrow> (False, m)
      | Some l \<Rightarrow> (let (b, l') = erase_first version l in (b, hm_assign hash m key l')))"

definition insert_key_version_holder ::
  "('k \<Rightarrow> nat) \<Rightarrow> 'v \<Rightarrow> ('k, 'v) mvcc_map \<Rightarrow> 'k \<Rightarrow> string \<Rightarrow> ('k, 'v) mvcc_map" where
  "insert_key_version_holder hash dflt m key version =
     (let (l, m1) = hm_index hash [] m key in hm_assign hash m1 key ((version, dflt) # l))"

definition version_count :: "('k \<Rightarrow> nat) \<Rightarrow> ('k, 'v) mvcc_map \<Rightarrow> 'k \<Rightarrow> nat" where
  "version_count hash m key = (case hm_lookup hash m key of None \<Rightarrow> 0 | Some l \<Rightarrow> length l)"

definition get_key_version :: "('k \<Rightarrow> nat) \<Rightarrow> ('k, 'v) mvcc_map \<Rightarrow> 'k \<Rightarrow> string \<Rightarrow> 'v option" where
  "get_key_version hash m key version =
     (case hm_lookup hash m key of None \<Rightarrow> None | Some l \<Rightarrow> map_of l version)"

fun first_before :: "string \<Rightarrow> (string \<times> 'v) list \<Rightarrow> 'v option" where
  "first_before version [] = None"
| "first_before version (vt # l) =
     (if fst vt < version then Some (snd vt) else first_before version l)"

definition get_key_version_prev ::
  "('k \<Rightarrow> nat) \<Rightarrow> ('k, 'v) mvcc_map \<Rightarrow> 'k \<Rightarrow> string \<Rightarrow> 'v option" where
  "get_key_version_prev hash m key version =
     (case hm_lookup hash m key of None \<Rightarrow> None | Some l \<Rightarrow> first_before version l)"

text \<open>The vacuum loop walks from the back and stops at the first match; \<open>l\<close> is reversed.\<close>

fun vacuum_loop :: "string \<Rightarrow> nat \<Rightarrow> (string \<times> 'v) list \<Rightarrow> nat \<times> (string \<times> 'v) list" where
  "vacuum_loop version removed [] = (removed, [])"
| "vacuum_loop version removed (vt # l) =
     (if fst vt \<noteq> version then vacuum_loop version (Suc removed) l else (removed, vt # l))"

definition vacuum_key_versions ::
  "('k \<Rightarrow> nat) \<Rightarrow> ('k, 'v) mvcc_map \<Rightarrow> 'k \<Rightarrow> string \<Rightarrow> nat \<times> ('k, 'v) mvcc_map" where
  "vacuum_key_versions hash m key vacuum_version =
     (case hm_lookup hash m key of
        None \<Rightarrow> (0, m)
      | Some l \<Rightarrow> (let (removed, l') = vacuum_loop vacuum_version 0 (rev l)
                  in (removed, hm_assign hash m key (rev l'))))"

definition vacuum_key_keep_latest ::
  "('k \<Rightarrow> nat) \<Rightarrow> ('k, 'v) mvcc_map \<Rightarrow> 'k \<Rightarrow> nat \<times> ('k, 'v) mvcc_map" where
  "vacuum_key_keep_latest hash m key =
     (case hm_lookup hash m key of
        None \<Rightarrow> (0, m)
      | Some [] \<Rightarrow> (0, m)
      | Some (vt # l) \<Rightarrow> (length l, hm_assign hash m key [vt]))"

definition mv_write ::
  "('k \<Rightarrow> nat) \<Rightarrow> ('k, 'v) mvcc_map \<Rightarrow> 'k \<Rightarrow> string \<Rightarrow> 'v \<Rightarrow> ('k, 'v) mvcc_map" where
  "mv_write hash m key version v =
     (case hm_lookup hash m key of
        None \<Rightarrow> m
      | Some l \<Rightarrow> hm_assign hash m key (AList.update version v l))"

section \<open>As a finite map from keys and versions\<close>

definition mv_put :: "('k \<Rightarrow> nat) \<Rightarrow> 'v \<Rightarrow> ('k, 'v) mvcc_map \<Rightarrow> 'k \<times> string \<Rightarrow> 'v \<Rightarrow> ('k, 'v) mvcc_map" where
  "mv_put hash dflt m kv v =
     (let m1 = (case get_key_version hash m (fst kv) (snd kv) of
                  None \<Rightarrow> insert_key_version_holder hash dflt m (fst kv) (snd kv)
                | Some _ \<Rightarrow> m)
      in mv_write hash m1 (fst kv) (snd kv) v)"

definition mv_inv :: "('k \<Rightarrow> nat) \<Rightarrow> ('k, 'v) mvcc_map \<Rightarrow> bool" where
  "mv_inv hash m \<longleftrightarrow> hm_inv hash m \<and>
     (\<forall>k l. hm_lookup hash m k = Some l \<longrightarrow> distinct (map fst l))"

lemma erase_first_map_of:
  "distinct (map fst l) \<Longrightarrow> map_of (snd (erase_first v l)) = (map_of l)(v := None)"
proof (induction l)
  case (Cons vt l)
  then have "fst vt \<notin> dom (map_of l)"
    by (simp add: dom_map_of_conv_image_fst)
  with Cons show ?case
    by (auto simp: split_beta fun_eq_iff domIff)
qed simp

lemma erase_first_keys: "set (map fst (snd (erase_first v l))) \<subseteq> set (map fst l)"
  by (induction l) (auto simp: split_beta)

lemma erase_first_distinct: "distinct (map fst l) \<Longrightarrow> distinct (map fst (snd (erase_first v l)))"
proof (induction l)
  case (Cons vt l)
  then show ?case using erase_first_keys[of v l] by (auto simp: split_beta)
qed simp

lemma mv_insert_holder_get:
  "get_key_version hash (insert_key_version_holder hash d m k ver) k' ver' =
     (if k' = k \<and> ver' = ver then Some d else get_key_version hash m k' ver')"
  by (auto simp: get_key_version_def insert_key_version_holder_def map_laws split_beta Let_def
      split: option.splits)

lemma mv_write_get:
  assumes "get_key_version hash m k ver \<noteq> None"
  shows "get_key_version hash (mv_write hash m k ver v) k' ver' =
     (if k' = k \<and> ver' = ver then Some v else get_key_version hash m k' ver')"
  using assms
  by (auto simp: get_key_version_def mv_write_def map_laws update_conv' split: option.splits)

lemma mv_put_get:
  "get_key_version hash (mv_put hash d m kv v) k' ver' =
     (if (k', ver') = kv then Some v else get_key_version hash m k' ver')"
  by (cases kv)
    (auto simp: mv_put_def Let_def mv_write_get mv_insert_holder_get split: option.splits)

lemma mv_inv_insert_holder:
  assumes "mv_inv hash m" and "get_key_version hash m k ver = None"
  shows "mv_inv hash (insert_key_version_holder hash d m k ver)"
proof -
  have "hm_lookup hash m k = Some l \<Longrightarrow> ver \<notin> fst ` set l" for l
    using assms(2) by (simp add: get_key_version_def map_of_eq_None_iff)
  then show ?thesis
    using assms(1)
    by (auto simp: mv_inv_def insert_key_version_holder_def map_laws split_beta Let_def
        split: option.splits if_splits)
qed

lemma mv_inv_write: "mv_inv hash m \<Longrightarrow> mv_inv hash (mv_write hash m k ver v)"
  by (auto simp: mv_inv_def mv_write_def map_laws distinct_update split: option.splits)

lemma mv_inv_put: "mv_inv hash m \<Longrightarrow> mv_inv hash (mv_put hash d m kv v)"
  by (auto simp: mv_put_def Let_def mv_inv_write mv_inv_insert_holder split: option.splits)

lemma mv_remove_get:
  assumes "mv_inv hash m"
  shows "get_key_version hash (snd (remove_key_version hash m k ver)) k' ver' =
     (if k' = k \<and> ver' = ver then None else get_key_version hash m k' ver')"
  using assms
  by (auto simp: get_key_version_def remove_key_version_def map_laws mv_inv_def
      erase_first_map_of split_beta split: option.splits)

lemma mv_inv_remove: "mv_inv hash m \<Longrightarrow> mv_inv hash (snd (remove_key_version hash m k ver))"
  by (auto simp: mv_inv_def remove_key_version_def map_laws erase_first_distinct split_beta
      split: option.splits)

lemma mv_new [simp]: "mv_inv hash hm_new" "get_key_version hash hm_new k ver = None"
  by (simp_all add: mv_inv_def get_key_version_def)

interpretation mv: finite_map "mv_inv hash" "\<lambda>m kv. get_key_version hash m (fst kv) (snd kv)"
  hm_new "mv_put hash dflt" "\<lambda>m kv. snd (remove_key_version hash m (fst kv) (snd kv))"
  for hash dflt
  by unfold_locales
    (auto simp: mv_inv_put mv_put_get mv_inv_remove mv_remove_get)

section \<open>Garbage collection\<close>

lemma vacuum_loop_eq:
  "vacuum_loop ver n l =
     (n + length (takeWhile (\<lambda>vt. fst vt \<noteq> ver) l), dropWhile (\<lambda>vt. fst vt \<noteq> ver) l)"
  by (induction l arbitrary: n) auto

section \<open>MockMVCCReserveTable\<close>

record mvcc_reserve_table =
  mv_epoch :: epoch_size_t
  mv_readTable :: "(string, tid_size_t) mvcc_map"
  mv_writeTable :: "(string, tid_size_t) mvcc_map"

definition newMockMVCCReserveTable :: "epoch_size_t \<Rightarrow> mvcc_reserve_table" where
  "newMockMVCCReserveTable e = \<lparr>mv_epoch = e, mv_readTable = hm_new, mv_writeTable = hm_new\<rparr>"

definition mv_reserve_cell ::
  "(string \<Rightarrow> nat) \<Rightarrow> tid_size_t \<Rightarrow> cell \<Rightarrow> (string, tid_size_t) mvcc_map \<Rightarrow>
     (string, tid_size_t) mvcc_map" where
  "mv_reserve_cell hash tid c m =
     (let m1 = (case get_key_version hash m (snd c) (fst c) of
                  None \<Rightarrow> insert_key_version_holder hash 0 m (snd c) (fst c)
                | Some _ \<Rightarrow> m);
          old = (case get_key_version hash m1 (snd c) (fst c) of None \<Rightarrow> 0 | Some v \<Rightarrow> v)
      in if old \<le> tid \<and> old \<noteq> 0 then m1 else mv_write hash m1 (snd c) (fst c) tid)"

definition mvcc_reserveRWSet ::
  "(string \<Rightarrow> nat) \<Rightarrow> mvcc_reserve_table \<Rightarrow> kvrwset \<Rightarrow> tid_size_t \<Rightarrow> bool \<times> mvcc_reserve_table" where
  "mvcc_reserveRWSet hash rt rw tid =
     (True, rt\<lparr>mv_readTable := fold (mv_reserve_cell hash tid) (read_cells rw) (mv_readTable rt),
               mv_writeTable := fold (mv_reserve_cell hash tid) (write_cells rw) (mv_writeTable rt)\<rparr>)"

fun mv_dep_scan ::
  "(string \<Rightarrow> nat) \<Rightarrow> tid_size_t \<Rightarrow> cell list \<Rightarrow> (string, tid_size_t) mvcc_map \<Rightarrow> bool option" where
  "mv_dep_scan hash tid [] m = Some False"
| "mv_dep_scan hash tid (c # cs) m =
     (case get_key_version hash m (snd c) (fst c) of
        None \<Rightarrow> None
      | Some old \<Rightarrow> (if old < tid \<and> old \<noteq> 0 then Some True else mv_dep_scan hash tid cs m))"

definition mvcc_dependencyAnalysis ::
  "(string \<Rightarrow> nat) \<Rightarrow> mvcc_reserve_table \<Rightarrow> kvrwset \<Rightarrow> tid_size_t \<Rightarrow>
     (transaction_dependency \<times> mvcc_reserve_table) option" where
  "mvcc_dependencyAnalysis hash rt rw tid =
     do {
       waw1 \<leftarrow> mv_dep_scan hash tid (write_cells rw) (mv_writeTable rt);
       war1 \<leftarrow> mv_dep_scan hash tid (write_cells rw) (mv_readTable rt);
       raw1 \<leftarrow> mv_dep_scan hash tid (read_cells rw) (mv_writeTable rt);
       Some (\<lparr>waw = waw1, war = war1, raw = raw1\<rparr>, rt)
     }"

definition mvcc_reserve_ops :: "(string \<Rightarrow> nat) \<Rightarrow> mvcc_reserve_table reserve_ops" where
  "mvcc_reserve_ops hash =
     \<lparr>rt_new = newMockMVCCReserveTable, rt_epoch_of = mv_epoch,
      rt_reserve = mvcc_reserveRWSet hash, rt_analyse = mvcc_dependencyAnalysis hash\<rparr>"

definition mv_reg :: "(string \<Rightarrow> nat) \<Rightarrow> (string, tid_size_t) mvcc_map \<Rightarrow> cell \<Rightarrow> tid_size_t" where
  "mv_reg hash m c = (case get_key_version hash m (snd c) (fst c) of None \<Rightarrow> 0 | Some v \<Rightarrow> v)"

lemma mv_reserve_cell_get:
  "get_key_version hash (mv_reserve_cell hash tid c m) k ver =
     (if (ver, k) = c then Some (reserve_reg (mv_reg hash m c) tid) else get_key_version hash m k ver)"
  by (cases c)
    (auto simp: mv_reserve_cell_def mv_reg_def reserve_reg_def Let_def mv_insert_holder_get mv_write_get
      split: option.splits)

lemma mv_reserve_cells_get:
  "get_key_version hash (fold (mv_reserve_cell hash tid) cs m) k ver =
     (if (ver, k) \<in> set cs then Some (reserve_reg (mv_reg hash m (ver, k)) tid)
      else get_key_version hash m k ver)"
  by (induction cs arbitrary: m)
    (auto simp: mv_reserve_cell_get mv_reg_def reserve_reg_idem split: option.splits)

lemma mv_reserve_cells_reg:
  "mv_reg hash (fold (mv_reserve_cell hash tid) cs m) c =
     (if c \<in> set cs then reserve_reg (mv_reg hash m c) tid else mv_reg hash m c)"
  by (cases c) (simp add: mv_reg_def mv_reserve_cells_get)

lemma mv_reg_new [simp]: "mv_reg hash hm_new c = 0"
  by (simp add: mv_reg_def)

interpretation mvcc_rt: reservation "mvcc_reserve_ops hash" "\<lambda>_. True"
  "\<lambda>rt. mv_reg hash (mv_readTable rt)" "\<lambda>rt. mv_reg hash (mv_writeTable rt)" for hash
  by unfold_locales
    (auto simp: mvcc_reserve_ops_def newMockMVCCReserveTable_def mvcc_reserveRWSet_def
      mv_reserve_cells_reg)

lemma mv_dep_scan_reserved:
  "set cs \<subseteq> {c. get_key_version hash m (snd c) (fst c) \<noteq> None} \<Longrightarrow>
     mv_dep_scan hash tid cs m = Some (list_ex (\<lambda>c. reg_earlier (mv_reg hash m c) tid) cs)"
  by (induction cs) (auto simp: mv_reg_def reg_earlier_def)

lemma mv_dep_scan_missing:
  "cs \<noteq> [] \<Longrightarrow> \<forall>c \<in> set cs. get_key_version hash m (snd c) (fst c) = None \<Longrightarrow>
     mv_dep_scan hash tid cs m = None"
  by (cases cs) auto

end
