(* ===== verification/Consensus_Control.thy ===== *)
theory Consensus_Control
  imports Neu_Prelude
begin

text \<open>
  The view-change and epoch-agreement bookkeeping of \<open>consensus_control_block.h\<close>: which client proxies have
  approved an epoch, which ones have been voted out and since when. One call of
  \<open>recvProofSet\<close> holds \<open>proxiesTimeoutMutex\<close> and is one step; the messages come out of the raft groups one at a
  time through \<open>receiver_from_multi_raft_instance\<close>.

  The clock is an argument (\<open>now\<close>, in nanoseconds). \<open>maliciousBroadcastHandle\<close> is the argument \<open>handle\<close>, which works on
  a state of its own; the handler that \<open>ClientProxy\<close> installs is \<open>maliciousCallback\<close>. Messages
  for raft are collected in \<open>raft_out\<close>. \<open>epochApproveMap\<close> and \<open>epochStaleBit\<close> are vectors of \<open>MAX_EPOCH\<close> entries;
  an index beyond that is \<open>None\<close>.

  The lemmas show what a proxy needs to be voted out, that the callback is never entered twice for a
  proxy, and exactly when an epoch may finish; and what goes wrong when a
  vote names a server that does not exist or when raft groups deliver in different orders.
\<close>

section \<open>State\<close>

datatype proof_type = TX | CON | HEARTBEAT | MALICIOUS

record proof_set =
  ps_epoch :: epoch_size_t
  ps_type :: proof_type
  ps_proof :: string
  ps_ip :: string
  ps_data :: "string list"

definition MAX_EPOCH :: nat where
  "MAX_EPOCH = 10000"

record proxy_block =
  latestEpoch :: epoch_size_t
  lastHeartbeat :: int
  pb_isValid :: bool
  epochVoters :: "epoch_size_t \<Rightarrow> string set"
  firstInvalidEpoch :: epoch_size_t

definition newProxyBlock :: proxy_block where
  "newProxyBlock = \<lparr>latestEpoch = 0, lastHeartbeat = 0, pb_isValid = True, epochVoters = (\<lambda>_. {}), firstInvalidEpoch = 0\<rparr>"

record 'h control_block =
  ccb_start :: bool
  totalServerCount :: nat
  epochApproveMap :: "nat \<Rightarrow> string set"
  epochStaleBit :: "nat \<Rightarrow> bool"
  proxiesTimeout :: "(string \<times> proxy_block) list"
  handle_state :: 'h
  raft_out :: "proof_set list"

definition newControlBlock :: "'h \<Rightarrow> 'h control_block" where
  "newControlBlock h =
     \<lparr>ccb_start = False, totalServerCount = 0, epochApproveMap = (\<lambda>_. {}), epochStaleBit = (\<lambda>_. False),
      proxiesTimeout = [], handle_state = h, raft_out = []\<rparr>"

section \<open>Operations\<close>

definition setConsensusCount :: "nat \<Rightarrow> 'h control_block \<Rightarrow> 'h control_block option" where
  "setConsensusCount n s = (if ccb_start s then None else Some (s\<lparr>totalServerCount := n\<rparr>))"

definition startService :: "'h control_block \<Rightarrow> 'h control_block option" where
  "startService s = (if ccb_start s then None else Some (s\<lparr>ccb_start := True\<rparr>))"

text \<open>\<open>proxiesTimeout[ip]\<close>: looking a key up with the index operator creates its block.\<close>

definition proxy :: "'h control_block \<Rightarrow> string \<Rightarrow> proxy_block" where
  "proxy s ip = (case map_of (proxiesTimeout s) ip of None \<Rightarrow> newProxyBlock | Some b \<Rightarrow> b)"

definition set_proxy :: "string \<Rightarrow> proxy_block \<Rightarrow> 'h control_block \<Rightarrow> 'h control_block" where
  "set_proxy ip b s = s\<lparr>proxiesTimeout := AList.update ip b (proxiesTimeout s)\<rparr>"

definition confirmedClientProxy :: "string \<Rightarrow> epoch_size_t \<Rightarrow> 'h control_block \<Rightarrow> 'h control_block option" where
  "confirmedClientProxy observerId epoch s =
     (if unat epoch < MAX_EPOCH
      then Some (s\<lparr>epochApproveMap := (epochApproveMap s)(unat epoch := insert observerId (epochApproveMap s (unat epoch)))\<rparr>)
      else None)"

definition maliciousTarget ::
    "(string \<Rightarrow> epoch_size_t \<Rightarrow> 'h \<Rightarrow> 'h option) \<Rightarrow> string \<Rightarrow> epoch_size_t \<Rightarrow> 'h control_block \<Rightarrow> 'h control_block option" where
  "maliciousTarget handle targetId epoch s =
     Option.bind (handle targetId epoch (handle_state s)) (\<lambda>h.
       if unat epoch < MAX_EPOCH
       then Some ((set_proxy targetId ((proxy s targetId)\<lparr>pb_isValid := False, firstInvalidEpoch := epoch\<rparr>) s)
         \<lparr>handle_state := h,
          epochStaleBit := (epochStaleBit s)(unat epoch := True),
          epochApproveMap := (\<lambda>i. if unat epoch \<le> i \<and> i < MAX_EPOCH then insert targetId (epochApproveMap s i)
                                  else epochApproveMap s i)\<rparr>)
       else None)"

definition obtainMalicious ::
    "(string \<Rightarrow> epoch_size_t \<Rightarrow> 'h \<Rightarrow> 'h option) \<Rightarrow> string \<Rightarrow> string \<Rightarrow> epoch_size_t \<Rightarrow> 'h control_block \<Rightarrow> 'h control_block option" where
  "obtainMalicious handle observerId targetId epoch s =
     (let targetCB = proxy s targetId in
      if \<not> pb_isValid targetCB then Some s
      else
        let voters = insert observerId (epochVoters targetCB epoch);
            s1 = set_proxy targetId (targetCB\<lparr>epochVoters := (epochVoters targetCB)(epoch := voters)\<rparr>) s
        in if (totalServerCount s - 1) div 3 + 1 \<le> card voters
           then maliciousTarget handle targetId epoch s1
           else Some s1)"

definition recvProofSet ::
    "(string \<Rightarrow> epoch_size_t \<Rightarrow> 'h \<Rightarrow> 'h option) \<Rightarrow> int \<Rightarrow> proof_set \<Rightarrow> 'h control_block \<Rightarrow> 'h control_block option" where
  "recvProofSet handle now proofSet s =
     (let emitter = ps_ip proofSet; blk = proxy s emitter in
      if \<not> ccb_start s then Some s
      else if map_of (proxiesTimeout s) emitter \<noteq> None \<and> \<not> pb_isValid blk then Some s
      else case ps_type proofSet of
        HEARTBEAT \<Rightarrow> Some (set_proxy emitter (blk\<lparr>lastHeartbeat := now\<rparr>) s)
      | CON \<Rightarrow>
          confirmedClientProxy emitter (ps_epoch proofSet)
            (set_proxy emitter (blk\<lparr>latestEpoch := ps_epoch proofSet, lastHeartbeat := now\<rparr>) s)
      | MALICIOUS \<Rightarrow>
          if \<not> pb_isValid blk then Some (set_proxy emitter blk s)
          else obtainMalicious handle emitter (ps_proof proofSet) (ps_epoch proofSet) (set_proxy emitter blk s)
      | TX \<Rightarrow> Some s)"

definition receive_raw ::
    "(string \<Rightarrow> proof_set option) \<Rightarrow> (string \<Rightarrow> epoch_size_t \<Rightarrow> 'h \<Rightarrow> 'h option) \<Rightarrow> int \<Rightarrow> string \<Rightarrow>
     'h control_block \<Rightarrow> 'h control_block option" where
  "receive_raw parse handle now message s =
     (case parse message of None \<Rightarrow> Some s | Some proofSet \<Rightarrow> recvProofSet handle now proofSet s)"

text \<open>The condition \<open>waitForEpochFinish\<close> waits for.\<close>

definition epochFinished :: "epoch_size_t \<Rightarrow> 'h control_block \<Rightarrow> bool option" where
  "epochFinished epoch s =
     (if unat epoch < MAX_EPOCH then Some (card (epochApproveMap s (unat epoch)) = totalServerCount s) else None)"

definition needReReserve :: "epoch_size_t \<Rightarrow> 'h control_block \<Rightarrow> bool option" where
  "needReReserve epoch s = (if unat epoch < MAX_EPOCH then Some (epochStaleBit s (unat epoch)) else None)"

definition isCurrentEpochInvalid :: "string \<Rightarrow> epoch_size_t \<Rightarrow> 'h control_block \<Rightarrow> bool \<times> 'h control_block" where
  "isCurrentEpochInvalid ip epoch s =
     (let s1 = set_proxy ip (proxy s ip) s in
      (if pb_isValid (proxy s1 ip) then True else firstInvalidEpoch (proxy s1 ip) \<le> epoch, s1))"

definition sendViewChangeVote :: "proof_set \<Rightarrow> 'h control_block \<Rightarrow> 'h control_block" where
  "sendViewChangeVote m s = s\<lparr>raft_out := raft_out s @ [m]\<rparr>"

definition accuse_msg :: "string \<Rightarrow> string \<Rightarrow> epoch_size_t \<Rightarrow> proof_set" where
  "accuse_msg ip target epoch = \<lparr>ps_epoch = epoch, ps_type = MALICIOUS, ps_proof = target, ps_ip = ip, ps_data = []\<rparr>"

definition broadcastMaliciousViewChange :: "string \<Rightarrow> string \<Rightarrow> epoch_size_t \<Rightarrow> 'h control_block \<Rightarrow> 'h control_block" where
  "broadcastMaliciousViewChange localIP maliciousIP maliciousEpoch s =
     sendViewChangeVote (accuse_msg localIP maliciousIP maliciousEpoch) s"

definition timed_out :: "int \<Rightarrow> proxy_block \<Rightarrow> bool" where
  "timed_out now b \<longleftrightarrow> pb_isValid b \<and> now - lastHeartbeat b > 3 * 1000000000"

definition spinCheckTimeout :: "string \<Rightarrow> int \<Rightarrow> 'h control_block \<Rightarrow> 'h control_block" where
  "spinCheckTimeout localIP now s =
     sendViewChangeVote \<lparr>ps_epoch = 0, ps_type = HEARTBEAT, ps_proof = [], ps_ip = localIP, ps_data = []\<rparr>
       (fold (\<lambda>(ip, b) s. if timed_out now b then broadcastMaliciousViewChange localIP ip (latestEpoch b + 1) s else s)
          (proxiesTimeout s) s)"

section \<open>The callback of the client proxy\<close>

type_synonym invalid_bits = "(string \<times> epoch_size_t \<times> bool) list"

definition bit_of :: "invalid_bits \<Rightarrow> string \<Rightarrow> epoch_size_t \<times> bool" where
  "bit_of bits ip = (case map_of bits ip of None \<Rightarrow> (0, False) | Some b \<Rightarrow> b)"

definition initInvalidBits :: "string list \<Rightarrow> invalid_bits" where
  "initInvalidBits ips = map (\<lambda>ip. (ip, 0, False)) ips"

definition maliciousCallback :: "string \<Rightarrow> epoch_size_t \<Rightarrow> invalid_bits \<Rightarrow> invalid_bits option" where
  "maliciousCallback maliciousId maliciousEpoch bits =
     (if fst (bit_of bits maliciousId) \<noteq> 0 then None
      else Some (AList.update maliciousId (maliciousEpoch, True) bits))"

section \<open>Runs\<close>

text \<open>A client proxy sets the number of servers and starts the service; then messages arrive.\<close>

definition started :: "nat \<Rightarrow> 'h \<Rightarrow> 'h control_block" where
  "started n h = (newControlBlock h)\<lparr>totalServerCount := n, ccb_start := True\<rparr>"

fun receive_all ::
    "(string \<Rightarrow> epoch_size_t \<Rightarrow> 'h \<Rightarrow> 'h option) \<Rightarrow> (int \<times> proof_set) list \<Rightarrow> 'h control_block \<Rightarrow> 'h control_block option" where
  "receive_all handle [] s = Some s"
| "receive_all handle ((now, m) # ms) s = Option.bind (recvProofSet handle now m s) (receive_all handle ms)"

lemma started_eq: "Option.bind (setConsensusCount n (newControlBlock h)) startService = Some (started n h)"
  by (simp add: setConsensusCount_def startService_def newControlBlock_def started_def)

lemma receive_all_append:
  "receive_all handle (xs @ ys) s = Option.bind (receive_all handle xs s) (receive_all handle ys)"
proof (induction xs arbitrary: s)
  case (Cons x xs)
  then show ?case by (cases x; cases "recvProofSet handle (fst x) (snd x) s") simp_all
qed simp

lemma receive_all_snoc:
  "receive_all handle (ms @ [(now, m)]) s = Option.bind (receive_all handle ms s) (recvProofSet handle now m)"
proof -
  have "receive_all handle [(now, m)] = recvProofSet handle now m"
  proof (rule ext)
    show "receive_all handle [(now, m)] s = recvProofSet handle now m s" for s
      by (cases "recvProofSet handle now m s") simp_all
  qed
  then show ?thesis by (simp only: receive_all_append)
qed

section \<open>The invariant\<close>

lemma proxy_set [simp]: "proxy (set_proxy ip b s) t = (if t = ip then b else proxy s t)"
  by (simp add: proxy_def set_proxy_def update_conv')

lemma proxy_update [simp]:
  "proxy (s\<lparr>epochApproveMap := a\<rparr>) t = proxy s t" "proxy (s\<lparr>handle_state := h\<rparr>) t = proxy s t"
  "proxy (s\<lparr>epochStaleBit := x\<rparr>) t = proxy s t"
  by (simp_all add: proxy_def)

lemma set_proxy_sel [simp]:
  "ccb_start (set_proxy ip b s) = ccb_start s" "totalServerCount (set_proxy ip b s) = totalServerCount s"
  "epochApproveMap (set_proxy ip b s) = epochApproveMap s" "handle_state (set_proxy ip b s) = handle_state s"
  by (simp_all add: set_proxy_def)

lemma new_block_valid [simp]: "pb_isValid newProxyBlock" "epochVoters newProxyBlock e = {}"
  by (simp_all add: newProxyBlock_def)

abbreviation valid :: "'h control_block \<Rightarrow> string \<Rightarrow> bool" where
  "valid s t \<equiv> pb_isValid (proxy s t)"

abbreviation voters :: "'h control_block \<Rightarrow> string \<Rightarrow> epoch_size_t \<Rightarrow> string set" where
  "voters s t \<equiv> epochVoters (proxy s t)"

abbreviation invalid_since :: "'h control_block \<Rightarrow> string \<Rightarrow> epoch_size_t" where
  "invalid_since s t \<equiv> firstInvalidEpoch (proxy s t)"

definition voted :: "(int \<times> proof_set) list \<Rightarrow> string \<Rightarrow> string \<Rightarrow> epoch_size_t \<Rightarrow> bool" where
  "voted ms ob t e \<longleftrightarrow> (\<exists>m \<in> snd ` set ms. ps_type m = MALICIOUS \<and> ps_ip m = ob \<and> ps_proof m = t \<and> ps_epoch m = e)"

definition approved :: "(int \<times> proof_set) list \<Rightarrow> string \<Rightarrow> nat \<Rightarrow> bool" where
  "approved ms ob i \<longleftrightarrow> (\<exists>m \<in> snd ` set ms. ps_type m = CON \<and> ps_ip m = ob \<and> unat (ps_epoch m) = i)"

definition quorum :: "nat \<Rightarrow> nat" where
  "quorum n = (n - 1) div 3 + 1"

definition ccb_inv :: "nat \<Rightarrow> (int \<times> proof_set) list \<Rightarrow> 'h control_block \<Rightarrow> bool" where
  "ccb_inv n ms s \<longleftrightarrow> ccb_start s \<and> totalServerCount s = n \<and>
     (\<forall>t e. finite (voters s t e) \<and> (\<forall>ob \<in> voters s t e. voted ms ob t e)) \<and>
     (\<forall>t. \<not> valid s t \<longrightarrow> quorum n \<le> card (voters s t (invalid_since s t))) \<and>
     (\<forall>ob i. ob \<in> epochApproveMap s i \<longrightarrow> approved ms ob i \<or> (\<not> valid s ob \<and> unat (invalid_since s ob) \<le> i)) \<and>
     (\<forall>ob i. i < MAX_EPOCH \<longrightarrow> \<not> valid s ob \<longrightarrow> unat (invalid_since s ob) \<le> i \<longrightarrow> ob \<in> epochApproveMap s i) \<and>
     (\<forall>ob i. i < MAX_EPOCH \<longrightarrow> valid s ob \<longrightarrow> approved ms ob i \<longrightarrow> ob \<in> epochApproveMap s i)"

lemma ccb_invD:
  assumes "ccb_inv n ms s"
  shows "ccb_start s" "totalServerCount s = n" "finite (voters s t e)" "ob \<in> voters s t e \<Longrightarrow> voted ms ob t e"
    "\<not> valid s t \<Longrightarrow> quorum n \<le> card (voters s t (invalid_since s t))"
    "ob \<in> epochApproveMap s i \<Longrightarrow> approved ms ob i \<or> (\<not> valid s ob \<and> unat (invalid_since s ob) \<le> i)"
    "i < MAX_EPOCH \<Longrightarrow> \<not> valid s ob \<Longrightarrow> unat (invalid_since s ob) \<le> i \<Longrightarrow> ob \<in> epochApproveMap s i"
    "i < MAX_EPOCH \<Longrightarrow> valid s ob \<Longrightarrow> approved ms ob i \<Longrightarrow> ob \<in> epochApproveMap s i"
  using assms unfolding ccb_inv_def by blast+

lemma voted_snoc: "voted (ms @ [(now, m)]) ob t e \<longleftrightarrow>
    voted ms ob t e \<or> (ps_type m = MALICIOUS \<and> ps_ip m = ob \<and> ps_proof m = t \<and> ps_epoch m = e)"
  by (auto simp: voted_def)

lemma approved_snoc: "approved (ms @ [(now, m)]) ob i \<longleftrightarrow>
    approved ms ob i \<or> (ps_type m = CON \<and> ps_ip m = ob \<and> unat (ps_epoch m) = i)"
  by (auto simp: approved_def)

lemma inv_started: "ccb_inv n [] (started n h)"
  by (simp add: ccb_inv_def started_def newControlBlock_def proxy_def approved_def)

lemma inv_more:
  assumes "ccb_inv n ms s" and "ps_type m \<noteq> CON \<or> \<not> valid s (ps_ip m)"
  shows "ccb_inv n (ms @ [(now, m)]) s"
  using assms unfolding ccb_inv_def voted_snoc approved_snoc by blast

lemma inv_touch:
  assumes "ccb_inv n ms s" and "pb_isValid b = valid s ip" and "epochVoters b = voters s ip" and "firstInvalidEpoch b = invalid_since s ip"
  shows "ccb_inv n ms (set_proxy ip b s)"
proof -
  have eqs: "pb_isValid (proxy (set_proxy ip b s) t) = valid s t" "epochVoters (proxy (set_proxy ip b s) t) = voters s t"
    "firstInvalidEpoch (proxy (set_proxy ip b s) t) = invalid_since s t" for t
    using assms(2-4) by simp_all
  show ?thesis using assms(1) unfolding ccb_inv_def set_proxy_sel eqs .
qed

lemma inv_confirm:
  assumes "ccb_inv n ms s" and "confirmedClientProxy (ps_ip m) (ps_epoch m) s = Some s'" and "ps_type m = CON"
  shows "ccb_inv n (ms @ [(now, m)]) s'"
proof -
  have s': "s' = s\<lparr>epochApproveMap := (epochApproveMap s)(unat (ps_epoch m) := insert (ps_ip m) (epochApproveMap s (unat (ps_epoch m))))\<rparr>"
    using assms(2) by (simp add: confirmedClientProxy_def split: if_splits)
  show ?thesis using assms(1,3) unfolding ccb_inv_def s' voted_snoc approved_snoc by auto
qed

lemma inv_vote:
  assumes "ccb_inv n ms s" and "voted ms ob t e" and "valid s t"
  shows "ccb_inv n ms (set_proxy t ((proxy s t)\<lparr>epochVoters := (voters s t)(e := insert ob (voters s t e))\<rparr>) s)"
  using assms unfolding ccb_inv_def by auto

lemma inv_mark:
  assumes "ccb_inv n ms s" and "valid s t" and "quorum n \<le> card (voters s t e)" and "maliciousTarget handle t e s = Some s'"
  shows "ccb_inv n ms s'"
proof -
  obtain h where s': "unat e < MAX_EPOCH" "s' = (set_proxy t ((proxy s t)\<lparr>pb_isValid := False, firstInvalidEpoch := e\<rparr>) s)
      \<lparr>handle_state := h, epochStaleBit := (epochStaleBit s)(unat e := True),
       epochApproveMap := (\<lambda>i. if unat e \<le> i \<and> i < MAX_EPOCH then insert t (epochApproveMap s i) else epochApproveMap s i)\<rparr>"
    using assms(4) by (auto simp: maliciousTarget_def bind_eq_Some_conv split: if_splits)
  have p: "proxy s' u = (if u = t then (proxy s t)\<lparr>pb_isValid := False, firstInvalidEpoch := e\<rparr> else proxy s u)"
    "epochApproveMap s' i = (if unat e \<le> i \<and> i < MAX_EPOCH then insert t (epochApproveMap s i) else epochApproveMap s i)"
    "ccb_start s' = ccb_start s" "totalServerCount s' = totalServerCount s" for u i
    by (simp_all add: s'(2))
  note inv = ccb_invD[OF assms(1)]
  show ?thesis unfolding ccb_inv_def
  proof (intro conjI allI impI)
    fix ob i assume "ob \<in> epochApproveMap s' i"
    then show "approved ms ob i \<or> \<not> valid s' ob \<and> unat (invalid_since s' ob) \<le> i"
      using inv(6)[of ob i] assms(2) by (auto simp: p split: if_splits)
  next
    fix ob i assume "i < MAX_EPOCH" "\<not> valid s' ob" "unat (invalid_since s' ob) \<le> i"
    then show "ob \<in> epochApproveMap s' i" using inv(7)[of i ob] by (auto simp: p split: if_splits)
  next
    fix ob i assume "i < MAX_EPOCH" "valid s' ob" "approved ms ob i"
    then show "ob \<in> epochApproveMap s' i" using inv(8)[of i ob] by (auto simp: p split: if_splits)
  qed (use inv(1,2,3,4,5) assms(3) in \<open>auto simp: p\<close>)
qed


text \<open>What a started control block does with a message, the creation of blocks by the index operator apart.\<close>

lemma recv_eq:
  assumes "ccb_start s"
  shows "recvProofSet handle now m s =
    (if \<not> valid s (ps_ip m) then Some s
     else case ps_type m of
        HEARTBEAT \<Rightarrow> Some (set_proxy (ps_ip m) ((proxy s (ps_ip m))\<lparr>lastHeartbeat := now\<rparr>) s)
      | CON \<Rightarrow> confirmedClientProxy (ps_ip m) (ps_epoch m)
          (set_proxy (ps_ip m) ((proxy s (ps_ip m))\<lparr>latestEpoch := ps_epoch m, lastHeartbeat := now\<rparr>) s)
      | MALICIOUS \<Rightarrow> obtainMalicious handle (ps_ip m) (ps_proof m) (ps_epoch m) (set_proxy (ps_ip m) (proxy s (ps_ip m)) s)
      | TX \<Rightarrow> Some s)"
proof -
  have "(map_of (proxiesTimeout s) (ps_ip m) \<noteq> None \<and> \<not> valid s (ps_ip m)) \<longleftrightarrow> \<not> valid s (ps_ip m)"
    by (auto simp: proxy_def split: option.splits)
  then show ?thesis using assms by (simp add: recvProofSet_def Let_def split: proof_type.split)
qed

lemma inv_obtain:
  assumes "ccb_inv n ms s" and "voted ms ob t e" and "obtainMalicious handle ob t e s = Some s'"
  shows "ccb_inv n ms s'"
proof (cases "valid s t")
  case True
  let ?s = "set_proxy t ((proxy s t)\<lparr>epochVoters := (voters s t)(e := insert ob (voters s t e))\<rparr>) s"
  have inv: "ccb_inv n ms ?s" by (rule inv_vote[OF assms(1,2) True])
  have "valid ?s t" "voters ?s t e = insert ob (voters s t e)" using True by simp_all
  then show ?thesis using inv assms(3) True inv_mark[OF inv, of t e handle s'] ccb_invD(2)[OF assms(1)]
    by (auto simp: obtainMalicious_def Let_def quorum_def split: if_splits)
next
  case False
  then show ?thesis using assms(1,3) by (simp add: obtainMalicious_def Let_def)
qed

lemma inv_recv:
  assumes "ccb_inv n ms s" and "recvProofSet handle now m s = Some s'"
  shows "ccb_inv n (ms @ [(now, m)]) s'"
proof -
  have step: "recvProofSet handle now m s = Some s'" "ccb_start s" using assms(2) ccb_invD(1)[OF assms(1)] by simp_all
  show ?thesis
  proof (cases "valid s (ps_ip m)")
    case False
    then show ?thesis using step inv_more[OF assms(1)] by (simp add: recv_eq)
  next
    case True
    show ?thesis
    proof (cases "ps_type m")
      case TX
      then show ?thesis using True step inv_more[OF assms(1), of m now] by (simp add: recv_eq)
    next
      case HEARTBEAT
      let ?s = "set_proxy (ps_ip m) ((proxy s (ps_ip m))\<lparr>lastHeartbeat := now\<rparr>) s"
      have "ccb_inv n ms ?s" by (rule inv_touch[OF assms(1)]) simp_all
      then show ?thesis using HEARTBEAT True step inv_more[of n ms ?s m now] by (simp add: recv_eq)
    next
      case CON
      let ?s = "set_proxy (ps_ip m) ((proxy s (ps_ip m))\<lparr>latestEpoch := ps_epoch m, lastHeartbeat := now\<rparr>) s"
      have "ccb_inv n ms ?s" by (rule inv_touch[OF assms(1)]) simp_all
      then show ?thesis using CON True step inv_confirm[of n ms ?s m s' now] by (simp add: recv_eq)
    next
      case MALICIOUS
      let ?s = "set_proxy (ps_ip m) (proxy s (ps_ip m)) s"
      have "ccb_inv n ms ?s" by (rule inv_touch[OF assms(1)]) simp_all
      then have "ccb_inv n (ms @ [(now, m)]) ?s" using MALICIOUS by (intro inv_more) simp_all
      moreover have "voted (ms @ [(now, m)]) (ps_ip m) (ps_proof m) (ps_epoch m)" using MALICIOUS by (simp add: voted_snoc)
      ultimately show ?thesis using MALICIOUS True step inv_obtain by (simp add: recv_eq)
    qed
  qed
qed

lemma inv_receive_all:
  "receive_all handle ms (started n h) = Some s \<Longrightarrow> ccb_inv n ms s"
proof (induction ms arbitrary: s rule: rev_induct)
  case Nil
  then show ?case using inv_started[of n h] by simp
next
  case (snoc x ms)
  obtain now m where x: "x = (now, m)" by fastforce
  then obtain s1 where "receive_all handle ms (started n h) = Some s1" "recvProofSet handle now m s1 = Some s"
    using snoc.prems by (auto simp: receive_all_snoc bind_eq_Some_conv)
  then show ?case using inv_recv snoc.IH x by blast
qed

section \<open>The callback is entered once for each proxy\<close>

definition bits_ok :: "invalid_bits control_block \<Rightarrow> bool" where
  "bits_ok s \<longleftrightarrow> (\<forall>t. bit_of (handle_state s) t = (if valid s t then (0, False) else (invalid_since s t, True)))"

definition msg_ok :: "proof_set \<Rightarrow> bool" where
  "msg_ok m \<longleftrightarrow> (ps_type m = CON \<longrightarrow> unat (ps_epoch m) < MAX_EPOCH) \<and>
     (ps_type m = MALICIOUS \<longrightarrow> ps_epoch m \<noteq> 0 \<and> unat (ps_epoch m) < MAX_EPOCH)"

lemma bit_of_update [simp]: "bit_of (AList.update ip b bits) t = (if t = ip then b else bit_of bits t)"
  by (simp add: bit_of_def update_conv')

lemma bits_touch:
  assumes "bits_ok s" and "pb_isValid b = valid s ip" and "firstInvalidEpoch b = invalid_since s ip"
  shows "bits_ok (set_proxy ip b s)"
  using assms by (auto simp: bits_ok_def)

lemma bits_obtain:
  assumes "bits_ok s" and "ccb_start s" and "e \<noteq> 0" and "unat e < MAX_EPOCH"
  shows "\<exists>s'. obtainMalicious maliciousCallback ob t e s = Some s' \<and> bits_ok s' \<and> ccb_start s'"
proof (cases "valid s t")
  case True
  let ?s = "set_proxy t ((proxy s t)\<lparr>epochVoters := (voters s t)(e := insert ob (voters s t e))\<rparr>) s"
  have s1: "bits_ok ?s" "valid ?s t" "ccb_start ?s" using assms(1,2) True by (auto simp: bits_ok_def)
  then have "\<exists>s'. maliciousTarget maliciousCallback t e ?s = Some s' \<and> bits_ok s' \<and> ccb_start s'"
    using assms(3,4) True by (auto simp: maliciousTarget_def maliciousCallback_def bits_ok_def)
  then show ?thesis using True s1 by (simp add: obtainMalicious_def Let_def)
qed (use assms in \<open>simp add: obtainMalicious_def Let_def\<close>)

lemma bits_recv:
  assumes "bits_ok s" and "ccb_start s" and "msg_ok m"
  shows "\<exists>s'. recvProofSet maliciousCallback now m s = Some s' \<and> bits_ok s' \<and> ccb_start s'"
proof -
  have touch: "bits_ok (set_proxy ip ((proxy s ip)\<lparr>lastHeartbeat := now\<rparr>) s)"
    "bits_ok (set_proxy ip ((proxy s ip)\<lparr>latestEpoch := e, lastHeartbeat := now\<rparr>) s)" "bits_ok (set_proxy ip (proxy s ip) s)" for ip e
    by (rule bits_touch[OF assms(1)]; simp)+
  have "bits_ok (s1\<lparr>epochApproveMap := a\<rparr>) = bits_ok s1" for s1 a by (simp add: bits_ok_def)
  then show ?thesis using assms touch bits_obtain[OF touch(3)[of "ps_ip m"], of "ps_epoch m"]
    by (cases "ps_type m") (simp_all add: recv_eq confirmedClientProxy_def msg_ok_def)
qed

lemma bits_receive_all:
  assumes "\<forall>m \<in> snd ` set ms. msg_ok m" and "bits_ok s" and "ccb_start s"
  shows "\<exists>s'. receive_all maliciousCallback ms s = Some s' \<and> bits_ok s'"
  using assms
proof (induction ms arbitrary: s)
  case (Cons x ms)
  then obtain s1 where "recvProofSet maliciousCallback (fst x) (snd x) s = Some s1" "bits_ok s1" "ccb_start s1"
    using bits_recv[of s "snd x" "fst x"] by auto
  then show ?case using Cons by (cases x) simp
qed simp

section \<open>Properties\<close>

text \<open>C18. A proxy is voted out only by a quorum. Whatever messages a started control block has processed, a proxy
  that is marked invalid since epoch \<open>e\<close> has been accused of exactly that epoch by more
  than \<open>(n - 1) / 3\<close> different servers; so if at most that many servers are faulty, a correct one
  accused it.\<close>

theorem malicious_mark_quorum:
  assumes "receive_all handle ms (started n h) = Some s" and "\<not> pb_isValid (proxy s t)"
    and "finite F" and "card F \<le> (n - 1) div 3"
  shows "\<exists>m \<in> snd ` set ms. ps_type m = MALICIOUS \<and> ps_proof m = t \<and> ps_epoch m = firstInvalidEpoch (proxy s t) \<and> ps_ip m \<notin> F"
proof -
  note inv = ccb_invD[OF inv_receive_all[OF assms(1)]]
  let ?V = "voters s t (invalid_since s t)"
  have "card F < card ?V" using inv(5)[OF assms(2)] assms(4) by (simp add: quorum_def)
  then have "\<not> ?V \<subseteq> F" using card_mono[OF assms(3), of ?V] by auto
  then show ?thesis using inv(4)[of _ t "invalid_since s t"] unfolding voted_def by blast
qed

definition con_msg :: "string \<Rightarrow> epoch_size_t \<Rightarrow> proof_set" where
  "con_msg ip epoch = \<lparr>ps_epoch = epoch, ps_type = CON, ps_proof = [], ps_ip = ip, ps_data = []\<rparr>"

lemmas ccb_eval = recvProofSet_def obtainMalicious_def maliciousTarget_def maliciousCallback_def confirmedClientProxy_def
  set_proxy_def proxy_def newProxyBlock_def started_def newControlBlock_def initInvalidBits_def bit_of_def
  accuse_msg_def con_msg_def MAX_EPOCH_def Let_def

theorem malicious_mark_quorum_witness:
  "\<exists>s. receive_all maliciousCallback [(0, accuse_msg ''A'' ''D'' 3), (0, accuse_msg ''B'' ''D'' 3)]
       (started 4 (initInvalidBits [''A'', ''B'', ''C'', ''D''])) = Some s \<and> \<not> pb_isValid (proxy s ''D'') \<and>
    (\<exists>m \<in> snd ` set [(0 :: int, accuse_msg ''A'' ''D'' 3), (0, accuse_msg ''B'' ''D'' 3)].
       ps_type m = MALICIOUS \<and> ps_proof m = ''D'' \<and> ps_epoch m = firstInvalidEpoch (proxy s ''D'') \<and> ps_ip m \<notin> {''A''})"
proof -
  let ?ms = "[(0 :: int, accuse_msg ''A'' ''D'' 3), (0, accuse_msg ''B'' ''D'' 3)]"
  obtain s where s: "receive_all maliciousCallback ?ms (started 4 (initInvalidBits [''A'', ''B'', ''C'', ''D''])) = Some s"
    "\<not> pb_isValid (proxy s ''D'')"
    by (simp add: ccb_eval)
  show ?thesis using s malicious_mark_quorum[OF s, of "{''A''}"] by (intro exI[of _ s] conjI) simp_all
qed

text \<open>C19. Composition with the client proxy. With the callback that the client proxy installs, messages whose epochs
  are below \<open>MAX_EPOCH\<close> (and not zero for accusations) never abort the server: in particular
  the callback is not entered twice for a proxy. Afterwards the invalid bits of the client
  proxy say of every proxy what the control block says: marked or not, and since when.\<close>

theorem control_block_callback_safe:
  assumes "\<forall>m \<in> snd ` set ms. msg_ok m"
  shows "\<exists>s. receive_all maliciousCallback ms (started n (initInvalidBits ips)) = Some s \<and>
    (\<forall>t. bit_of (handle_state s) t =
       (if pb_isValid (proxy s t) then (0, False) else (firstInvalidEpoch (proxy s t), True)))"
proof -
  have "bit_of (initInvalidBits ips) t = (0, False)" for t
    by (auto simp: bit_of_def initInvalidBits_def map_of_map_keys split: option.split dest!: map_of_SomeD)
  then have "bits_ok (started n (initInvalidBits ips))"
    by (simp add: bits_ok_def started_def newControlBlock_def proxy_def)
  from bits_receive_all[OF assms this] show ?thesis by (auto simp: bits_ok_def started_def)
qed

theorem control_block_callback_safe_witness:
  "\<exists>s. receive_all maliciousCallback [(0, accuse_msg ''A'' ''D'' 3), (0, con_msg ''B'' 1), (0, accuse_msg ''B'' ''D'' 3), (0, accuse_msg ''C'' ''D'' 3)]
       (started 4 (initInvalidBits [''A'', ''B'', ''C'', ''D''])) = Some s \<and>
    (\<forall>t. bit_of (handle_state s) t =
       (if pb_isValid (proxy s t) then (0, False) else (firstInvalidEpoch (proxy s t), True)))"
  by (rule control_block_callback_safe) (simp add: msg_ok_def accuse_msg_def con_msg_def MAX_EPOCH_def)




text \<open>Every server has a raft group of its own, and the groups are not ordered against each other. Two
  servers that receive the same votes, each sender's votes in the same order, can mark the
  same proxy invalid since different epochs.\<close>

theorem view_change_order_dependent:
  "\<exists>ms1 ms2 s1 s2. (\<forall>ip. filter (\<lambda>x. ps_ip (snd x) = ip) ms1 = filter (\<lambda>x. ps_ip (snd x) = ip) ms2) \<and>
    receive_all maliciousCallback ms1 (started 4 (initInvalidBits [''A'', ''B'', ''C'', ''D''])) = Some s1 \<and>
    receive_all maliciousCallback ms2 (started 4 (initInvalidBits [''A'', ''B'', ''C'', ''D''])) = Some s2 \<and>
    \<not> pb_isValid (proxy s1 ''D'') \<and> \<not> pb_isValid (proxy s2 ''D'') \<and>
    firstInvalidEpoch (proxy s1 ''D'') \<noteq> firstInvalidEpoch (proxy s2 ''D'')"
proof -
  let ?A = "(0 :: int, accuse_msg ''A'' ''D'' 5)" and ?A' = "(0 :: int, accuse_msg ''A'' ''D'' 7)"
  let ?B = "(0 :: int, accuse_msg ''B'' ''D'' 5)" and ?C = "(0 :: int, accuse_msg ''C'' ''D'' 7)"
  let ?start = "started 4 (initInvalidBits [''A'', ''B'', ''C'', ''D''])"
  obtain s1 where s1: "receive_all maliciousCallback [?A, ?B, ?A', ?C] ?start = Some s1"
    "\<not> pb_isValid (proxy s1 ''D'')" "firstInvalidEpoch (proxy s1 ''D'') = 5"
    by (simp add: ccb_eval)
  obtain s2 where s2: "receive_all maliciousCallback [?A, ?A', ?C, ?B] ?start = Some s2"
    "\<not> pb_isValid (proxy s2 ''D'')" "firstInvalidEpoch (proxy s2 ''D'') = 7"
    by (simp add: ccb_eval)
  have "filter (\<lambda>x. ps_ip (snd x) = ip) [?A, ?B, ?A', ?C] = filter (\<lambda>x. ps_ip (snd x) = ip) [?A, ?A', ?C, ?B]" for ip
    by (auto simp: accuse_msg_def)
  then show ?thesis using s1 s2 by (intro exI[of _ "[?A, ?B, ?A', ?C]"] exI[of _ "[?A, ?A', ?C, ?B]"] exI[of _ s1] exI[of _ s2]) simp
qed

end
