(* ===== verification/Epoch_Buffer.thy ===== *)
theory Epoch_Buffer
  imports Transaction_Model
begin

text \<open>
  How the transactions of all client proxies reach one queue, epoch by epoch: \<open>EpochTransactionBuffer\<close> (one for each
  proxy, with a producer thread and a worker thread), the \<open>EpochTxnQueueManager\<close> they
  share, and its \<open>CyclicBarrier\<close>.

  The system is a transition relation over proxies \<open>0, \<dots>, parties - 1\<close>. A step of a producer pushes a transaction
  or closes its epoch (\<open>asyncEmptyBuffer\<close>, which enqueues a task); a step of a worker arrives at the
  barrier, hands one transaction to the queue, or signals that it is done. \<open>out\<close> is the queue
  \<open>broadcastTransactions\<close> with the proxy each transaction came from, and \<open>received\<close> records what each
  producer has pushed; both only serve to state properties. Epochs are natural numbers below
  \<open>MAX_EPOCH\<close>, the length of the buffers.

  The lemmas show that the queue is ordered by epoch in both modes, that without early execution nothing
  is lost or reordered, and that the system cannot block; and two ways in which it fails: early execution can
  leave a transaction behind, and a spurious wake-up of the condition variable breaks the order.
\<close>

section \<open>State and operations\<close>

datatype worker_phase = Idle | Awaiting | Emptying

record epoch_system =
  parties :: nat
  current_waits :: nat
  globalProcessingEpoch :: nat
  currentEpochPushedToQueueCnt :: nat
  eagerSent :: bool
  buffers :: "nat \<Rightarrow> nat \<Rightarrow> transaction list"
  producer_epoch :: "nat \<Rightarrow> nat"
  task_epoch :: "nat \<Rightarrow> nat"
  phase :: "nat \<Rightarrow> worker_phase"
  out :: "(nat \<times> transaction) list"
  received :: "nat \<Rightarrow> transaction list"

abbreviation epoch_of :: "transaction \<Rightarrow> nat" where
  "epoch_of t \<equiv> unat (tx_epoch t)"

definition buffer_slots :: nat where
  "buffer_slots = 10000"

definition newEpochSystem :: "nat \<Rightarrow> nat \<Rightarrow> bool \<Rightarrow> epoch_system" where
  "newEpochSystem blkSrvCnt startWithEpoch eager =
     \<lparr>parties = blkSrvCnt, current_waits = 0, globalProcessingEpoch = startWithEpoch,
      currentEpochPushedToQueueCnt = blkSrvCnt, eagerSent = eager, buffers = (\<lambda>_ _. []),
      producer_epoch = (\<lambda>_. startWithEpoch), task_epoch = (\<lambda>_. startWithEpoch), phase = (\<lambda>_. Idle),
      out = [], received = (\<lambda>_. [])\<rparr>"

text \<open>The callback the queue manager gives to its barrier.\<close>

definition barrier_callback :: "epoch_system \<Rightarrow> epoch_system" where
  "barrier_callback s =
     s\<lparr>currentEpochPushedToQueueCnt := 0, globalProcessingEpoch := globalProcessingEpoch s + 1\<rparr>"

text \<open>\<open>CyclicBarrier::await\<close>, up to the point where the caller blocks or returns: the last one to
  arrive runs the callback and wakes the others.\<close>

definition barrier_await :: "nat \<Rightarrow> epoch_system \<Rightarrow> epoch_system" where
  "barrier_await w s =
     (let waits = if current_waits s < parties s then current_waits s + 1 else current_waits s in
      if parties s \<le> waits
      then (barrier_callback s)
        \<lparr>current_waits := 0, phase := (\<lambda>v. if v = w \<or> phase s v = Awaiting then Emptying else phase s v)\<rparr>
      else s\<lparr>current_waits := waits, phase := (phase s)(w := Awaiting)\<rparr>)"

definition waitForAllCPRecvTxn :: "nat \<Rightarrow> epoch_system \<Rightarrow> epoch_system" where
  "waitForAllCPRecvTxn w s = barrier_await w s"

definition signalFinishedPushToQueue :: "epoch_system \<Rightarrow> epoch_system" where
  "signalFinishedPushToQueue s = s\<lparr>currentEpochPushedToQueueCnt := currentEpochPushedToQueueCnt s + 1\<rparr>"

definition isAllCPPushedToQueue :: "nat \<Rightarrow> epoch_system \<Rightarrow> bool option" where
  "isAllCPPushedToQueue waitingEpoch s =
     (if waitingEpoch > globalProcessingEpoch s then Some False
      else if waitingEpoch \<noteq> globalProcessingEpoch s then None
      else Some (\<not> currentEpochPushedToQueueCnt s < parties s))"

text \<open>One iteration of \<open>syncEmptyBuffer\<close>, and the whole of it.\<close>

definition empty_one :: "nat \<Rightarrow> nat \<Rightarrow> epoch_system \<Rightarrow> epoch_system option" where
  "empty_one w e s =
     (case buffers s w e of
        [] \<Rightarrow> Some s
      | t # ts \<Rightarrow>
          if epoch_of t \<noteq> e then None
          else Some (s\<lparr>out := out s @ [(w, t)], buffers := (buffers s)(w := (buffers s w)(e := ts))\<rparr>))"

fun empty_loop :: "nat \<Rightarrow> nat \<Rightarrow> nat \<Rightarrow> epoch_system \<Rightarrow> epoch_system option" where
  "empty_loop 0 w e s = Some s"
| "empty_loop (Suc n) w e s = Option.bind (empty_one w e s) (empty_loop n w e)"

definition syncEmptyBuffer :: "nat \<Rightarrow> nat \<Rightarrow> epoch_system \<Rightarrow> epoch_system option" where
  "syncEmptyBuffer w e s = empty_loop (length (buffers s w e)) w e s"

definition buffer_push :: "nat \<Rightarrow> transaction \<Rightarrow> epoch_system \<Rightarrow> epoch_system option" where
  "buffer_push w t s =
     (if epoch_of t < buffer_slots
      then Some (s\<lparr>buffers := (buffers s)(w := (buffers s w)(epoch_of t := buffers s w (epoch_of t) @ [t]))\<rparr>)
      else None)"

definition pushTransactionToBuffer :: "nat \<Rightarrow> transaction \<Rightarrow> epoch_system \<Rightarrow> epoch_system option" where
  "pushTransactionToBuffer w t s =
     (if eagerSent s
      then Option.bind (isAllCPPushedToQueue (epoch_of t) s) (\<lambda>all_pushed.
        if all_pushed
        then map_option (\<lambda>s1. s1\<lparr>out := out s1 @ [(w, t)]\<rparr>) (syncEmptyBuffer w (epoch_of t) s)
        else buffer_push w t s)
      else buffer_push w t s)"

text \<open>\<open>asyncEmptyBuffer\<close> enqueues a task for the epoch; tasks run in order, so the queue of
  tasks is the interval from \<open>task_epoch\<close> to \<open>producer_epoch\<close>. The three parts of a task follow.\<close>

definition asyncEmptyBuffer :: "nat \<Rightarrow> epoch_system \<Rightarrow> epoch_system" where
  "asyncEmptyBuffer w s = s\<lparr>producer_epoch := (producer_epoch s)(w := producer_epoch s w + 1)\<rparr>"

definition task_finish :: "nat \<Rightarrow> epoch_system \<Rightarrow> epoch_system" where
  "task_finish w s =
     (signalFinishedPushToQueue s)\<lparr>phase := (phase s)(w := Idle), task_epoch := (task_epoch s)(w := task_epoch s w + 1)\<rparr>"

section \<open>Steps\<close>

inductive epoch_step :: "epoch_system \<Rightarrow> epoch_system \<Rightarrow> bool" where
  push: "w < parties s \<Longrightarrow> epoch_of t = producer_epoch s w \<Longrightarrow> pushTransactionToBuffer w t s = Some s1 \<Longrightarrow>
    epoch_step s (s1\<lparr>received := (received s1)(w := received s1 w @ [t])\<rparr>)"
| close_epoch: "w < parties s \<Longrightarrow> epoch_step s (asyncEmptyBuffer w s)"
| arrive: "w < parties s \<Longrightarrow> phase s w = Idle \<Longrightarrow> task_epoch s w < producer_epoch s w \<Longrightarrow>
    epoch_step s (waitForAllCPRecvTxn w s)"
| hand_over: "w < parties s \<Longrightarrow> phase s w = Emptying \<Longrightarrow> \<not> eagerSent s \<Longrightarrow> buffers s w (task_epoch s w) \<noteq> [] \<Longrightarrow>
    empty_one w (task_epoch s w) s = Some s1 \<Longrightarrow> epoch_step s s1"
| finish: "w < parties s \<Longrightarrow> phase s w = Emptying \<Longrightarrow> eagerSent s \<or> buffers s w (task_epoch s w) = [] \<Longrightarrow>
    epoch_step s (task_finish w s)"

text \<open>The condition variable may also wake a waiting worker although nobody notified it; the barrier does not
  check why it woke up.\<close>

inductive spurious_step :: "epoch_system \<Rightarrow> epoch_system \<Rightarrow> bool" where
  wake: "w < parties s \<Longrightarrow> phase s w = Awaiting \<Longrightarrow> spurious_step s (s\<lparr>phase := (phase s)(w := Emptying)\<rparr>)"

section \<open>The invariant\<close>

definition out_of :: "nat \<Rightarrow> epoch_system \<Rightarrow> transaction list" where
  "out_of w s = map snd (filter (\<lambda>x. fst x = w) (out s))"

definition pending :: "nat \<Rightarrow> epoch_system \<Rightarrow> transaction list" where
  "pending w s = concat (map (buffers s w) [task_epoch s w..<Suc (producer_epoch s w)])"

text \<open>Where the workers stand: the epoch being collected is the one of the next barrier.\<close>

definition worker_ok :: "nat \<Rightarrow> worker_phase \<Rightarrow> nat \<Rightarrow> nat \<Rightarrow> bool" where
  "worker_ok g ph task producer \<longleftrightarrow> task \<le> producer \<and> (ph \<noteq> Idle \<longrightarrow> task < producer) \<and>
     (if ph = Emptying then Suc task = g else task = g)"

definition aligned :: "epoch_system \<Rightarrow> bool" where
  "aligned s \<longleftrightarrow> 0 < parties s \<and>
     (\<forall>w < parties s. worker_ok (globalProcessingEpoch s) (phase s w) (task_epoch s w) (producer_epoch s w)) \<and>
     current_waits s = card {w. w < parties s \<and> phase s w = Awaiting} \<and> current_waits s < parties s"

definition out_bound :: "bool \<Rightarrow> nat \<Rightarrow> (nat \<times> transaction) list \<Rightarrow> bool" where
  "out_bound eager g xs \<longleftrightarrow> (\<forall>t \<in> snd ` set xs. if eager then epoch_of t \<le> g else epoch_of t < g)"

definition filed :: "(nat \<Rightarrow> nat \<Rightarrow> transaction list) \<Rightarrow> bool" where
  "filed b \<longleftrightarrow> (\<forall>w e. \<forall>t \<in> set (b w e). epoch_of t = e)"

definition ordered :: "epoch_system \<Rightarrow> bool" where
  "ordered s \<longleftrightarrow> sorted (map (epoch_of \<circ> snd) (out s)) \<and> out_bound (eagerSent s) (globalProcessingEpoch s) (out s) \<and>
     filed (buffers s)"

definition complete_at :: "nat \<Rightarrow> epoch_system \<Rightarrow> bool" where
  "complete_at w s \<longleftrightarrow> received s w = out_of w s @ pending w s \<and>
     (\<forall>e. e < task_epoch s w \<or> producer_epoch s w < e \<longrightarrow> buffers s w e = [])"

definition complete :: "epoch_system \<Rightarrow> bool" where
  "complete s \<longleftrightarrow> (\<not> eagerSent s \<longrightarrow> (\<forall>w < parties s. complete_at w s))"

definition epoch_inv :: "epoch_system \<Rightarrow> bool" where
  "epoch_inv s \<longleftrightarrow> aligned s \<and> ordered s \<and> complete s"

lemma epoch_inv_new: "0 < n \<Longrightarrow> epoch_inv (newEpochSystem n e eager)"
  by (simp add: epoch_inv_def aligned_def worker_ok_def ordered_def out_bound_def filed_def complete_def complete_at_def newEpochSystem_def out_of_def pending_def)

lemma global_le_producer: "aligned s \<Longrightarrow> w < parties s \<Longrightarrow> globalProcessingEpoch s \<le> producer_epoch s w"
  by (auto simp: aligned_def worker_ok_def split: if_splits)

text \<open>What a push leaves alone.\<close>

definition same_control :: "epoch_system \<Rightarrow> epoch_system \<Rightarrow> bool" where
  "same_control s s1 \<longleftrightarrow> parties s1 = parties s \<and> current_waits s1 = current_waits s \<and>
     globalProcessingEpoch s1 = globalProcessingEpoch s \<and>
     currentEpochPushedToQueueCnt s1 = currentEpochPushedToQueueCnt s \<and> eagerSent s1 = eagerSent s \<and>
     producer_epoch s1 = producer_epoch s \<and> task_epoch s1 = task_epoch s \<and> phase s1 = phase s"

lemma aligned_same: "same_control s s1 \<Longrightarrow> aligned s \<Longrightarrow> aligned s1"
  by (auto simp: same_control_def aligned_def)

lemma empty_one_control: "empty_one w e s = Some s1 \<Longrightarrow> same_control s s1 \<and> received s1 = received s"
  by (auto simp: empty_one_def same_control_def split: list.splits if_splits)

lemma empty_loop_spec:
  assumes "\<forall>t \<in> set ts. epoch_of t = e" and "buffers s w e = ts @ us"
  shows "empty_loop (length ts) w e s =
    Some (s\<lparr>out := out s @ map (Pair w) ts, buffers := (buffers s)(w := (buffers s w)(e := us))\<rparr>)"
  using assms
proof (induction ts arbitrary: s)
  case Nil
  have "(buffers s)(w := (buffers s w)(e := us)) = buffers s" using Nil by (auto simp: fun_eq_iff)
  then show ?case by (simp only: list.size empty_loop.simps list.map append_Nil2) simp
next
  case (Cons t ts)
  let ?s = "s\<lparr>out := out s @ [(w, t)], buffers := (buffers s)(w := (buffers s w)(e := ts @ us))\<rparr>"
  have "empty_one w e s = Some ?s" using Cons.prems by (simp add: empty_one_def)
  moreover have "empty_loop (length ts) w e ?s =
      Some (?s\<lparr>out := out ?s @ map (Pair w) ts, buffers := (buffers ?s)(w := (buffers ?s w)(e := us))\<rparr>)"
    using Cons.prems by (intro Cons.IH) simp_all
  moreover have "(buffers ?s)(w := (buffers ?s w)(e := us)) = (buffers s)(w := (buffers s w)(e := us))" by simp
  ultimately show ?case by (simp del: fun_upd_apply)
qed

lemma syncEmptyBuffer_spec:
  assumes "\<forall>t \<in> set (buffers s w e). epoch_of t = e"
  shows "syncEmptyBuffer w e s =
    Some (s\<lparr>out := out s @ map (Pair w) (buffers s w e), buffers := (buffers s)(w := (buffers s w)(e := []))\<rparr>)"
  using empty_loop_spec[OF assms, of s w "[]"] by (simp add: syncEmptyBuffer_def)

text \<open>A push either stores the transaction or, in the eager mode with the whole previous epoch handed over,
  passes on what is stored and then the transaction.\<close>

lemma push_cases:
  assumes "ordered s" and "pushTransactionToBuffer w t s = Some s1"
  obtains (store) "buffer_push w t s = Some s1"
  | (pass) "eagerSent s" "epoch_of t = globalProcessingEpoch s"
      "s1 = s\<lparr>out := out s @ map (Pair w) (buffers s w (epoch_of t)) @ [(w, t)],
              buffers := (buffers s)(w := (buffers s w)(epoch_of t := []))\<rparr>"
proof -
  have "syncEmptyBuffer w (epoch_of t) s = Some (s\<lparr>out := out s @ map (Pair w) (buffers s w (epoch_of t)),
      buffers := (buffers s)(w := (buffers s w)(epoch_of t := []))\<rparr>)"
    using assms(1) unfolding ordered_def filed_def by (intro syncEmptyBuffer_spec) blast
  then show thesis using assms(2) store pass
    by (auto simp: pushTransactionToBuffer_def isAllCPPushedToQueue_def bind_eq_Some_conv split: if_splits)
qed

lemma buffer_push_SomeD:
  "buffer_push w t s = Some s1 \<Longrightarrow>
    s1 = s\<lparr>buffers := (buffers s)(w := (buffers s w)(epoch_of t := buffers s w (epoch_of t) @ [t]))\<rparr>"
  by (simp add: buffer_push_def split: if_splits)

lemma push_control:
  assumes "ordered s" and "pushTransactionToBuffer w t s = Some s1"
  shows "same_control s s1 \<and> received s1 = received s"
  using assms(1,2) by (rule push_cases) (auto simp: same_control_def dest!: buffer_push_SomeD)

text \<open>Arriving at the barrier.\<close>

lemma awaiting_others:
  assumes "aligned s" and "w < parties s" and "phase s w = Idle" and "current_waits s + 1 = parties s"
  shows "\<forall>v < parties s. v \<noteq> w \<longrightarrow> phase s v = Awaiting"
proof -
  let ?A = "{v. v < parties s \<and> phase s v = Awaiting}"
  have sub: "?A \<subseteq> {..<parties s} - {w}" using assms(3) by auto
  have "card ?A = card ({..<parties s} - {w})" using assms by (simp add: aligned_def card_Diff_singleton)
  then have "?A = {..<parties s} - {w}" using sub by (intro card_subset_eq) simp_all
  then show ?thesis by blast
qed

lemma aligned_arrive:
  assumes "aligned s" and "w < parties s" and "phase s w = Idle" and "task_epoch s w < producer_epoch s w"
  shows "aligned (waitForAllCPRecvTxn w s)"
proof (cases "current_waits s + 1 = parties s")
  case True
  note others = awaiting_others[OF assms(1-3) True]
  let ?s = "waitForAllCPRecvTxn w s"
  have s': "?s = (barrier_callback s)\<lparr>current_waits := 0,
      phase := (\<lambda>v. if v = w \<or> phase s v = Awaiting then Emptying else phase s v)\<rparr>"
    using True by (simp add: waitForAllCPRecvTxn_def barrier_await_def)
  have em: "phase ?s v = Emptying" if "v < parties s" for v using that others by (auto simp: s' barrier_callback_def)
  from this have none: "{v. v < parties s \<and> phase ?s v = Awaiting} = {}" by auto
  have at: "task_epoch s v = globalProcessingEpoch s" "task_epoch s v < producer_epoch s v" if "v < parties s" for v
    using that others assms by (cases "v = w"; auto simp: aligned_def worker_ok_def)+
  have "worker_ok (globalProcessingEpoch ?s) (phase ?s v) (task_epoch ?s v) (producer_epoch ?s v)" if "v < parties s" for v
    using em[OF that] at[OF that] by (simp add: worker_ok_def) (simp add: s' barrier_callback_def)
  then show ?thesis using none assms(1) unfolding aligned_def by (simp add: s' barrier_callback_def)
next
  case False
  let ?A = "{v. v < parties s \<and> phase s v = Awaiting}"
  have lt: "current_waits s + 1 < parties s" using False assms(1) by (simp add: aligned_def)
  have "{v. v < parties s \<and> ((phase s)(w := Awaiting)) v = Awaiting} = insert w ?A" using assms(2) by auto
  then have "card {v. v < parties s \<and> ((phase s)(w := Awaiting)) v = Awaiting} = current_waits s + 1"
    using assms(1,3) by (simp add: aligned_def)
  then show ?thesis using lt assms
    by (auto simp: waitForAllCPRecvTxn_def barrier_await_def aligned_def worker_ok_def)
qed

lemma aligned_finish:
  assumes "aligned s" and "w < parties s" and "phase s w = Emptying"
  shows "aligned (task_finish w s)"
proof -
  have "{v. v < parties s \<and> ((phase s)(w := Idle)) v = Awaiting} = {v. v < parties s \<and> phase s v = Awaiting}"
    using assms(3) by auto
  then show ?thesis using assms by (auto simp: aligned_def worker_ok_def task_finish_def signalFinishedPushToQueue_def)
qed

lemma aligned_step:
  assumes "epoch_step s s'" and "aligned s" and "ordered s"
  shows "aligned s'"
  using assms(1)
proof cases
  case (push w t s1)
  then have "same_control s s'" using push_control[OF assms(3) push(4)] by (simp add: same_control_def)
  then show ?thesis using aligned_same assms(2) by blast
next
  case (close_epoch w)
  then show ?thesis using assms(2) by (auto simp: aligned_def worker_ok_def asyncEmptyBuffer_def)
next
  case (arrive w)
  then show ?thesis using aligned_arrive[OF assms(2)] by simp
next
  case (hand_over w)
  then show ?thesis using empty_one_control aligned_same assms(2) by blast
next
  case (finish w)
  then show ?thesis using aligned_finish[OF assms(2)] by simp
qed

text \<open>The queue stays ordered.\<close>

lemma out_bound_append [simp]: "out_bound eager g (xs @ ys) \<longleftrightarrow> out_bound eager g xs \<and> out_bound eager g ys"
  by (auto simp: out_bound_def)

lemma out_bound_mono: "out_bound eager g xs \<Longrightarrow> g \<le> g' \<Longrightarrow> out_bound eager g' xs"
  by (auto simp: out_bound_def split: if_splits)

lemma ordered_append:
  assumes "sorted (map (epoch_of \<circ> snd) xs)" and "out_bound True e xs" and "\<forall>t \<in> snd ` set ys. epoch_of t = e"
  shows "sorted (map (epoch_of \<circ> snd) (xs @ ys))"
proof -
  have "map (epoch_of \<circ> snd) ys = replicate (length ys) e" using assms(3) by (simp add: map_replicate_const[symmetric])
  then show ?thesis using assms by (auto simp: sorted_append out_bound_def)
qed

lemma orderedD:
  assumes "ordered s"
  shows "sorted (map (epoch_of \<circ> snd) (out s))" "out_bound (eagerSent s) (globalProcessingEpoch s) (out s)"
    "t \<in> set (buffers s w e) \<Longrightarrow> epoch_of t = e"
  using assms unfolding ordered_def filed_def by blast+

lemma ordered_buffers:
  assumes "ordered s" and "\<forall>t \<in> set ts. epoch_of t = e"
  shows "filed ((buffers s)(w := (buffers s w)(e := ts)))"
  using assms unfolding ordered_def filed_def by simp

lemma ordered_step:
  assumes "epoch_step s s'" and "aligned s" and "ordered s"
  shows "ordered s'"
  using assms(1)
proof cases
  case (push w t s1)
  note ord = orderedD[OF assms(3)]
  have bt: "\<forall>u \<in> set (buffers s w (epoch_of t)). epoch_of u = epoch_of t" by (intro ballI ord(3))
  from assms(3) push(4) have "ordered s1"
  proof (cases rule: push_cases)
    case store
    have "\<forall>u \<in> set (buffers s w (epoch_of t) @ [t]). epoch_of u = epoch_of t" using bt by simp
    then show ?thesis using ord(1,2) ordered_buffers[OF assms(3), of "buffers s w (epoch_of t) @ [t]" "epoch_of t" w]
      by (simp add: ordered_def buffer_push_SomeD[OF store] del: fun_upd_apply)
  next
    case pass
    have "sorted (map (epoch_of \<circ> snd) (out s @ map (Pair w) (buffers s w (epoch_of t)) @ [(w, t)]))"
      using ord(1,2) bt pass(1,2) by (intro ordered_append[of _ "epoch_of t"]) simp_all
    moreover have "out_bound True (globalProcessingEpoch s) (map (Pair w) (buffers s w (epoch_of t)) @ [(w, t)])"
      using bt pass(2) by (simp add: out_bound_def)
    ultimately show ?thesis using ord(1,2) pass(1) ordered_buffers[OF assms(3), of "[]" "epoch_of t" w]
      by (simp add: ordered_def pass(3) del: fun_upd_apply)
  qed
  then show ?thesis using push(1) by (simp add: ordered_def)
next
  case (close_epoch w)
  then show ?thesis using assms(3) by (simp add: ordered_def asyncEmptyBuffer_def)
next
  case (arrive w)
  have "out s' = out s" "buffers s' = buffers s" "eagerSent s' = eagerSent s"
    "globalProcessingEpoch s \<le> globalProcessingEpoch s'"
    unfolding arrive by (simp_all add: waitForAllCPRecvTxn_def barrier_await_def barrier_callback_def Let_def)
  then show ?thesis using assms(3) out_bound_mono[of "eagerSent s" "globalProcessingEpoch s" "out s" "globalProcessingEpoch s'"]
    by (simp add: ordered_def)
next
  case (hand_over w)
  note ord = orderedD[OF assms(3)]
  obtain t ts where b: "buffers s w (task_epoch s w) = t # ts"
    using hand_over(4) by (cases "buffers s w (task_epoch s w)") auto
  have "\<forall>t \<in> set (buffers s w (task_epoch s w)). epoch_of t = task_epoch s w" using ord(3) by blast
  then have e: "epoch_of t = task_epoch s w" "\<forall>t \<in> set ts. epoch_of t = task_epoch s w" using b by simp_all
  have s': "s' = s\<lparr>out := out s @ [(w, t)], buffers := (buffers s)(w := (buffers s w)(task_epoch s w := ts))\<rparr>"
    using hand_over(5) b e by (simp add: empty_one_def)
  have g: "Suc (task_epoch s w) = globalProcessingEpoch s" using hand_over assms(2) by (simp add: aligned_def worker_ok_def)
  have "sorted (map (epoch_of \<circ> snd) (out s @ [(w, t)]))"
    using ord(1,2) hand_over(3) e(1) g by (intro ordered_append[of _ "epoch_of t"]) (auto simp: out_bound_def)
  moreover have "out_bound False (globalProcessingEpoch s) [(w, t)]" using e(1) g by (simp add: out_bound_def)
  ultimately show ?thesis using ord(1,2) hand_over(3) ordered_buffers[OF assms(3) e(2), of w]
    by (simp add: ordered_def s' del: fun_upd_apply)
next
  case (finish w)
  then show ?thesis using assms(3) by (simp add: ordered_def task_finish_def signalFinishedPushToQueue_def)
qed

text \<open>Without early execution nothing is lost.\<close>

lemma complete_at_cong:
  assumes "complete_at v s" and "out_of v s' = out_of v s" and "buffers s' v = buffers s v" and "task_epoch s' v = task_epoch s v"
    and "producer_epoch s' v = producer_epoch s v" and "received s' v = received s v"
  shows "complete_at v s'"
  using assms by (simp add: complete_at_def pending_def)

lemma complete_store:
  assumes "complete_at w s" and "task_epoch s w \<le> producer_epoch s w" and "epoch_of t = producer_epoch s w"
  shows "complete_at w (s\<lparr>buffers := (buffers s)(w := (buffers s w)(epoch_of t := buffers s w (epoch_of t) @ [t])),
    received := (received s)(w := received s w @ [t])\<rparr>)"
  using assms by (auto simp: complete_at_def pending_def out_of_def)

lemma complete_close:
  assumes "complete_at w s" and "task_epoch s w \<le> producer_epoch s w"
  shows "complete_at w (asyncEmptyBuffer w s)"
proof -
  have "buffers s w (Suc (producer_epoch s w)) = []" using assms(1) by (simp add: complete_at_def)
  then show ?thesis using assms by (auto simp: complete_at_def pending_def out_of_def asyncEmptyBuffer_def)
qed

lemma complete_hand_over:
  assumes "complete_at w s" and "task_epoch s w \<le> producer_epoch s w" and "buffers s w (task_epoch s w) = t # ts"
  shows "complete_at w (s\<lparr>out := out s @ [(w, t)], buffers := (buffers s)(w := (buffers s w)(task_epoch s w := ts))\<rparr>)"
proof -
  let ?s = "s\<lparr>out := out s @ [(w, t)], buffers := (buffers s)(w := (buffers s w)(task_epoch s w := ts))\<rparr>"
  let ?rest = "concat (map (buffers s w) [Suc (task_epoch s w)..<Suc (producer_epoch s w)])"
  have "pending w s = t # ts @ ?rest" using assms(2,3) by (simp add: pending_def upt_conv_Cons del: upt_Suc)
  moreover have "map (buffers ?s w) [Suc (task_epoch s w)..<Suc (producer_epoch s w)] =
      map (buffers s w) [Suc (task_epoch s w)..<Suc (producer_epoch s w)]"
    by (rule map_cong) auto
  then have "pending w ?s = ts @ ?rest" using assms(2) by (simp add: pending_def upt_conv_Cons del: upt_Suc)
  ultimately show ?thesis using assms(1,2) by (auto simp: complete_at_def out_of_def)
qed

lemma complete_finish:
  assumes "complete_at w s" and "task_epoch s w < producer_epoch s w" and "buffers s w (task_epoch s w) = []"
  shows "complete_at w (task_finish w s)"
proof -
  have "pending w (task_finish w s) = pending w s"
    using assms(2,3) by (simp add: pending_def task_finish_def signalFinishedPushToQueue_def upt_conv_Cons del: upt_Suc)
  then show ?thesis using assms(1,3)
    by (auto simp: complete_at_def out_of_def task_finish_def signalFinishedPushToQueue_def less_Suc_eq)
qed

lemma epoch_step_mode: "epoch_step s s' \<Longrightarrow> ordered s \<Longrightarrow> eagerSent s' = eagerSent s \<and> parties s' = parties s"
  by (induction rule: epoch_step.induct)
    (auto simp: asyncEmptyBuffer_def waitForAllCPRecvTxn_def barrier_await_def barrier_callback_def task_finish_def
      signalFinishedPushToQueue_def same_control_def Let_def dest: push_control empty_one_control)

lemma complete_step:
  assumes "epoch_step s s'" and "aligned s" and "ordered s" and "complete s"
  shows "complete s'"
proof -
  note mode = epoch_step_mode[OF assms(1,3)]
  have "complete_at v s'" if v: "v < parties s" and ne: "\<not> eagerSent s" for v
  proof -
    have wk: "task_epoch s v \<le> producer_epoch s v" "phase s v = Emptying \<Longrightarrow> task_epoch s v < producer_epoch s v"
      using v assms(2) by (simp_all add: aligned_def worker_ok_def)
    have c: "complete_at v s" using assms(4) v ne by (simp add: complete_def)
    from assms(1) show ?thesis
    proof cases
      case (push w t s1)
      have s1: "s1 = s\<lparr>buffers := (buffers s)(w := (buffers s w)(epoch_of t := buffers s w (epoch_of t) @ [t]))\<rparr>"
        using push(4) ne by (intro buffer_push_SomeD) (simp add: pushTransactionToBuffer_def)
      show ?thesis
      proof (cases "v = w")
        case True
        then show ?thesis using complete_store[OF c wk(1), of t] push(1,3) s1 by simp
      qed (use push(1) s1 in \<open>auto intro!: complete_at_cong[OF c] simp: out_of_def\<close>)
    next
      case (close_epoch w)
      show ?thesis
      proof (cases "v = w")
        case True
        then show ?thesis using complete_close[OF c wk(1)] close_epoch by simp
      qed (use close_epoch in \<open>auto intro!: complete_at_cong[OF c] simp: out_of_def asyncEmptyBuffer_def\<close>)
    next
      case (arrive w)
      then show ?thesis by (auto intro!: complete_at_cong[OF c]
            simp: out_of_def waitForAllCPRecvTxn_def barrier_await_def barrier_callback_def Let_def)
    next
      case (hand_over w)
      then obtain t ts where b: "buffers s w (task_epoch s w) = t # ts" by (cases "buffers s w (task_epoch s w)") auto
      then have s': "s' = s\<lparr>out := out s @ [(w, t)], buffers := (buffers s)(w := (buffers s w)(task_epoch s w := ts))\<rparr>"
        using hand_over(5) by (simp add: empty_one_def split: if_splits)
      show ?thesis
      proof (cases "v = w")
        case True
        then show ?thesis using complete_hand_over[OF c wk(1)] b s' by simp
      qed (use s' in \<open>auto intro!: complete_at_cong[OF c] simp: out_of_def\<close>)
    next
      case (finish w)
      show ?thesis
      proof (cases "v = w")
        case True
        then show ?thesis using complete_finish[OF c wk(2)] finish ne by simp
      qed (use finish in \<open>auto intro!: complete_at_cong[OF c] simp: out_of_def task_finish_def signalFinishedPushToQueue_def\<close>)
    qed
  qed
  then show ?thesis using mode by (simp add: complete_def)
qed

lemma epoch_inv_reachable:
  assumes "epoch_step\<^sup>*\<^sup>* (newEpochSystem n e eager) s" and "0 < n"
  shows "epoch_inv s"
  using assms(1)
proof induction
  case base
  then show ?case by (rule epoch_inv_new[OF assms(2)])
next
  case (step s1 s2)
  then show ?case using aligned_step ordered_step complete_step unfolding epoch_inv_def by blast
qed

lemma epoch_mode_reachable:
  assumes "epoch_step\<^sup>*\<^sup>* (newEpochSystem n e eager) s" and "0 < n"
  shows "eagerSent s = eager \<and> parties s = n"
  using assms(1)
proof induction
  case (step s1 s2)
  then show ?case using epoch_step_mode epoch_inv_reachable[OF step(1) assms(2)] unfolding epoch_inv_def by metis
qed (simp add: newEpochSystem_def)

section \<open>Properties\<close>



text \<open>C15. Without early execution no transaction is lost, duplicated or overtaken: what a producer has pushed is, in
  order, what the queue has received from its proxy followed by what its buffers still hold,
  and everything still held belongs to an epoch its worker has not finished.\<close>

theorem epoch_queue_complete:
  assumes "epoch_step\<^sup>*\<^sup>* (newEpochSystem n e False) s" and "w < n"
  shows "received s w = map snd (filter (\<lambda>x. fst x = w) (out s)) @ pending w s \<and>
    (\<forall>t \<in> set (pending w s). task_epoch s w \<le> epoch_of t)"
proof -
  have n: "0 < n" using assms(2) by simp
  note inv = epoch_inv_reachable[OF assms(1) n] and mode = epoch_mode_reachable[OF assms(1) n]
  have "complete_at w s" using inv mode assms(2) by (simp add: epoch_inv_def complete_def)
  moreover have "\<forall>t \<in> set (pending w s). task_epoch s w \<le> epoch_of t"
    using inv by (auto simp: epoch_inv_def ordered_def filed_def pending_def)
  ultimately show ?thesis by (simp add: complete_at_def out_of_def)
qed

theorem epoch_queue_complete_witness:
  "\<exists>s. epoch_step\<^sup>*\<^sup>* (newEpochSystem 1 1 False) s \<and> received s 0 = [makeTransaction 1 5 False] \<and>
    received s 0 = map snd (filter (\<lambda>x. fst x = 0) (out s)) @ pending 0 s"
proof -
  let ?s0 = "newEpochSystem 1 1 False" and ?t = "makeTransaction 1 5 False"
  obtain s1 where s1: "pushTransactionToBuffer 0 ?t ?s0 = Some s1" "received s1 0 = []"
    by (simp add: pushTransactionToBuffer_def buffer_push_def newEpochSystem_def makeTransaction_def buffer_slots_def)
  have "epoch_step ?s0 (s1\<lparr>received := (received s1)(0 := received s1 0 @ [?t])\<rparr>)"
    using s1(1) by (intro push) (simp_all add: newEpochSystem_def makeTransaction_def)
  then have r: "epoch_step\<^sup>*\<^sup>* ?s0 (s1\<lparr>received := (received s1)(0 := received s1 0 @ [?t])\<rparr>)" by simp
  then show ?thesis using epoch_queue_complete[OF r, of 0] s1(2) by (intro exI) auto
qed

text \<open>The steps of a worker.\<close>

definition worker_moves :: "nat \<Rightarrow> epoch_system \<Rightarrow> epoch_system \<Rightarrow> bool" where
  "worker_moves w s s' \<longleftrightarrow>
     (phase s w = Idle \<and> task_epoch s w < producer_epoch s w \<and> s' = waitForAllCPRecvTxn w s) \<or>
     (phase s w = Emptying \<and> \<not> eagerSent s \<and> buffers s w (task_epoch s w) \<noteq> [] \<and> empty_one w (task_epoch s w) s = Some s') \<or>
     (phase s w = Emptying \<and> (eagerSent s \<or> buffers s w (task_epoch s w) = []) \<and> s' = task_finish w s)"

lemma worker_moves_step: "worker_moves w s s' \<Longrightarrow> w < parties s \<Longrightarrow> epoch_step s s'"
  unfolding worker_moves_def by (auto intro: epoch_step.intros)

lemma emptying_moves:
  assumes "ordered s" and "phase s w = Emptying"
  shows "\<exists>s'. worker_moves w s s'"
proof (cases "eagerSent s \<or> buffers s w (task_epoch s w) = []")
  case True
  then show ?thesis using assms(2) by (auto simp: worker_moves_def)
next
  case False
  then obtain t ts where b: "buffers s w (task_epoch s w) = t # ts" by (cases "buffers s w (task_epoch s w)") auto
  then have "epoch_of t = task_epoch s w" using orderedD(3)[OF assms(1), of t w "task_epoch s w"] by simp
  then show ?thesis using False b assms(2) by (auto simp: worker_moves_def empty_one_def)
qed



section \<open>Early execution can lose a transaction\<close>

text \<open>With early execution, a transaction of a closed epoch that has not been handed over yet never will be.\<close>

definition left_behind :: "transaction \<Rightarrow> epoch_system \<Rightarrow> bool" where
  "left_behind t s \<longleftrightarrow> eagerSent s \<and> aligned s \<and> ordered s \<and> (\<forall>w < parties s. epoch_of t < producer_epoch s w) \<and>
     t \<notin> snd ` set (out s)"

lemma left_behind_step:
  assumes "epoch_step s s'" and "left_behind t s"
  shows "left_behind t s'"
proof -
  have s: "eagerSent s" "aligned s" "ordered s" "\<forall>w < parties s. epoch_of t < producer_epoch s w" "t \<notin> snd ` set (out s)"
    using assms(2) by (simp_all add: left_behind_def)
  note mode = epoch_step_mode[OF assms(1) s(3)]
  have "(\<forall>w < parties s. epoch_of t < producer_epoch s' w) \<and> t \<notin> snd ` set (out s')"
    using assms(1)
  proof cases
    case (push w u s1)
    have c: "same_control s s1" using push_control[OF s(3) push(4)] by simp
    have u: "t \<noteq> u" "t \<notin> set (buffers s w (epoch_of u))"
      using s(4) push(2,3) orderedD(3)[OF s(3), of t w "epoch_of u"] by auto
    from s(3) push(4) have "t \<notin> snd ` set (out s1)"
    proof (cases rule: push_cases)
      case store
      then show ?thesis using s(5) by (simp add: buffer_push_SomeD[OF store])
    next
      case pass
      then show ?thesis using s(5) u by (simp add: image_Un image_image)
    qed
    then show ?thesis using c s(4) push(1) by (simp add: same_control_def)
  next
    case (close_epoch w)
    then show ?thesis using s(4,5) by (auto simp: asyncEmptyBuffer_def intro: less_SucI)
  next
    case (arrive w)
    then show ?thesis using s(4,5)
      by (simp add: waitForAllCPRecvTxn_def barrier_await_def barrier_callback_def Let_def)
  next
    case (hand_over w)
    then show ?thesis using s(1) by simp
  next
    case (finish w)
    then show ?thesis using s(4,5) by (simp add: task_finish_def signalFinishedPushToQueue_def)
  qed
  then show ?thesis using mode s(1) aligned_step[OF assms(1) s(2,3)] ordered_step[OF assms(1) s(2,3)]
    by (simp add: left_behind_def)
qed

lemma left_behind_forever: "epoch_step\<^sup>*\<^sup>* s s' \<Longrightarrow> left_behind t s \<Longrightarrow> left_behind t s'"
  by (induction rule: rtranclp_induct) (auto intro: left_behind_step)

lemma push_store_step:
  assumes "w < parties s" and "epoch_of t = producer_epoch s w" and "buffers s w (epoch_of t) = []" and "received s w = []"
    and "epoch_of t < buffer_slots" and "\<not> eagerSent s \<or> globalProcessingEpoch s < epoch_of t"
  shows "epoch_step s (s\<lparr>buffers := (buffers s)(w := (buffers s w)(epoch_of t := [t])), received := (received s)(w := [t])\<rparr>)"
proof -
  have "pushTransactionToBuffer w t s = Some (s\<lparr>buffers := (buffers s)(w := (buffers s w)(epoch_of t := [t]))\<rparr>)"
    using assms(3,5,6) by (auto simp: pushTransactionToBuffer_def isAllCPPushedToQueue_def buffer_push_def)
  from push[OF assms(1,2) this] show ?thesis using assms(4) by simp
qed

text \<open>C39. Early execution can drop a transaction for good. A server with a single proxy receives its only transaction of
  epoch 2 while epoch 1 is still being handed over; the transaction is buffered, nothing of epoch 2 follows,
  the epoch is closed, and from then on no continuation ever hands the transaction over.\<close>

theorem early_execution_loses_transaction:
  "\<exists>s. epoch_step\<^sup>*\<^sup>* (newEpochSystem 1 1 True) s \<and> received s 0 = [makeTransaction 2 7 False] \<and> 2 < task_epoch s 0 \<and>
    (\<nexists>s'. epoch_step\<^sup>*\<^sup>* s s' \<and> makeTransaction 2 7 False \<in> snd ` set (out s'))"
proof -
  let ?t = "makeTransaction 2 7 False" and ?s0 = "newEpochSystem 1 1 True"
  define s1 where "s1 = asyncEmptyBuffer 0 ?s0"
  define s2 where "s2 = s1\<lparr>buffers := (buffers s1)(0 := (buffers s1 0)(2 := [?t])), received := (received s1)(0 := [?t])\<rparr>"
  define s3 where "s3 = task_finish 0 (waitForAllCPRecvTxn 0 s2)"
  define s4 where "s4 = task_finish 0 (waitForAllCPRecvTxn 0 (asyncEmptyBuffer 0 s3))"
  note defs = newEpochSystem_def asyncEmptyBuffer_def waitForAllCPRecvTxn_def barrier_await_def barrier_callback_def
    task_finish_def signalFinishedPushToQueue_def
  have e: "epoch_of ?t = 2" by (simp add: makeTransaction_def)
  have "epoch_step ?s0 s1" unfolding s1_def by (rule close_epoch) (simp add: defs)
  moreover have "epoch_step s1 s2" unfolding s2_def
    using push_store_step[of 0 s1 ?t] e by (simp add: s1_def defs buffer_slots_def)
  moreover have "epoch_step s2 (waitForAllCPRecvTxn 0 s2)" by (rule arrive) (simp_all add: s2_def s1_def defs)
  moreover have "epoch_step (waitForAllCPRecvTxn 0 s2) s3" unfolding s3_def by (rule finish) (simp_all add: s2_def s1_def defs)
  moreover have "epoch_step s3 (asyncEmptyBuffer 0 s3)" by (rule close_epoch) (simp add: s3_def s2_def s1_def defs)
  moreover have "epoch_step (asyncEmptyBuffer 0 s3) (waitForAllCPRecvTxn 0 (asyncEmptyBuffer 0 s3))"
    by (rule arrive) (simp_all add: s3_def s2_def s1_def defs)
  moreover have "epoch_step (waitForAllCPRecvTxn 0 (asyncEmptyBuffer 0 s3)) s4"
    unfolding s4_def by (rule finish) (simp_all add: s3_def s2_def s1_def defs)
  ultimately have r: "epoch_step\<^sup>*\<^sup>* ?s0 s4" by (blast intro: converse_rtranclp_into_rtranclp rtranclp.rtrancl_refl)
  have s4: "eagerSent s4" "parties s4 = 1" "producer_epoch s4 0 = 3" "out s4 = []" "received s4 0 = [?t]" "task_epoch s4 0 = 3"
    by (simp_all add: s4_def s3_def s2_def s1_def defs)
  have "left_behind ?t s4" using s4 e epoch_inv_reachable[OF r] by (simp add: left_behind_def epoch_inv_def)
  then have "\<forall>s'. epoch_step\<^sup>*\<^sup>* s4 s' \<longrightarrow> left_behind ?t s'" using left_behind_forever by blast
  then have "\<nexists>s'. epoch_step\<^sup>*\<^sup>* s4 s' \<and> ?t \<in> snd ` set (out s')" unfolding left_behind_def by blast
  then show ?thesis using r s4(5,6) by (intro exI[of _ s4] conjI) (simp_all only:, simp)
qed

section \<open>A spurious wake-up breaks the order\<close>

text \<open>The barrier relies on the condition variable not waking up by itself, which the language does not promise. With
  two proxies, one spurious wake-up of a worker lets it pass the barrier alone; a
  transaction of epoch 2 then reaches the queue before one of epoch 1, and the
  consumer's check that epochs do not decrease aborts the server.\<close>

theorem spurious_wakeup_breaks_order:
  "\<exists>s. (sup epoch_step spurious_step)\<^sup>*\<^sup>* (newEpochSystem 2 1 False) s \<and> map (epoch_of \<circ> snd) (out s) = [2, 1]"
proof -
  let ?R = "sup epoch_step spurious_step"
  let ?a = "makeTransaction 2 7 False" and ?b = "makeTransaction 1 9 False" and ?s0 = "newEpochSystem 2 1 False"
  define s1 where "s1 = ?s0\<lparr>buffers := (buffers ?s0)(1 := (buffers ?s0 1)(1 := [?b])), received := (received ?s0)(1 := [?b])\<rparr>"
  define s2 where "s2 = asyncEmptyBuffer 0 s1"
  define s3 where "s3 = s2\<lparr>buffers := (buffers s2)(0 := (buffers s2 0)(2 := [?a])), received := (received s2)(0 := [?a])\<rparr>"
  define s4 where "s4 = waitForAllCPRecvTxn 0 (asyncEmptyBuffer 0 s3)"
  define s5 where "s5 = task_finish 0 (s4\<lparr>phase := (phase s4)(0 := Emptying)\<rparr>)"
  define s6 where "s6 = waitForAllCPRecvTxn 0 s5"
  define s7 where "s7 = s6\<lparr>out := out s6 @ [(0, ?a)], buffers := (buffers s6)(0 := (buffers s6 0)(2 := []))\<rparr>"
  define s8 where "s8 = asyncEmptyBuffer 0 (asyncEmptyBuffer 1 (task_finish 0 s7))"
  define s9 where "s9 = waitForAllCPRecvTxn 0 (waitForAllCPRecvTxn 1 s8)"
  define s10 where "s10 = s9\<lparr>out := out s9 @ [(1, ?b)], buffers := (buffers s9)(1 := (buffers s9 1)(1 := []))\<rparr>"
  note sys = newEpochSystem_def asyncEmptyBuffer_def waitForAllCPRecvTxn_def barrier_await_def barrier_callback_def
    task_finish_def signalFinishedPushToQueue_def
  note early = s3_def s2_def s1_def sys
  note mid = s6_def s5_def s4_def early
  have r: "?R\<^sup>*\<^sup>* x z" if "epoch_step x y" "?R\<^sup>*\<^sup>* y z" for x y z
    using that by (intro converse_rtranclp_into_rtranclp[of ?R x y]) simp_all
  have sp: "?R\<^sup>*\<^sup>* x z" if "spurious_step x y" "?R\<^sup>*\<^sup>* y z" for x y z
    using that by (intro converse_rtranclp_into_rtranclp[of ?R x y]) simp_all
  have e: "epoch_of ?a = 2" "epoch_of ?b = 1" by (simp_all add: makeTransaction_def)
  have "epoch_step ?s0 s1"
    unfolding s1_def using push_store_step[of 1 ?s0 ?b] e by (simp add: sys buffer_slots_def)
  moreover have "epoch_step s1 s2" unfolding s2_def by (rule close_epoch) (simp add: s1_def sys)
  moreover have "epoch_step s2 s3"
    unfolding s3_def using push_store_step[of 0 s2 ?a] e by (simp add: s2_def s1_def sys buffer_slots_def)
  moreover have "epoch_step s3 (asyncEmptyBuffer 0 s3)" by (rule close_epoch) (simp add: s3_def s2_def s1_def sys)
  moreover have "epoch_step (asyncEmptyBuffer 0 s3) s4" unfolding s4_def by (rule arrive) (simp_all add: early)
  moreover have "spurious_step s4 (s4\<lparr>phase := (phase s4)(0 := Emptying)\<rparr>)" by (rule wake) (simp_all add: s4_def early)
  moreover have "epoch_step (s4\<lparr>phase := (phase s4)(0 := Emptying)\<rparr>) s5" unfolding s5_def by (rule finish) (simp_all add: s4_def early)
  moreover have "epoch_step s5 s6" unfolding s6_def by (rule arrive) (simp_all add: s5_def s4_def early)
  moreover have "epoch_step s6 s7" using e by (intro hand_over[of 0]) (simp_all add: s7_def empty_one_def, simp_all add: mid flip: numeral_2_eq_2)
  moreover have "epoch_step s7 (task_finish 0 s7)" by (rule finish) (simp_all add: s7_def mid)
  moreover have "epoch_step (task_finish 0 s7) (asyncEmptyBuffer 1 (task_finish 0 s7))" by (rule close_epoch) (simp add: s7_def mid)
  moreover have "epoch_step (asyncEmptyBuffer 1 (task_finish 0 s7)) s8" unfolding s8_def by (rule close_epoch) (simp add: s7_def mid)
  moreover have "epoch_step s8 (waitForAllCPRecvTxn 1 s8)" by (rule arrive) (simp_all add: s8_def s7_def mid)
  moreover have "epoch_step (waitForAllCPRecvTxn 1 s8) s9" unfolding s9_def by (rule arrive) (simp_all add: s8_def s7_def mid)
  moreover have "epoch_step s9 s10"
    using e by (intro hand_over[of 1]) (simp_all add: s10_def empty_one_def, simp_all add: s9_def s8_def s7_def mid)
  ultimately have "?R\<^sup>*\<^sup>* ?s0 s10" by - (rule r, assumption | rule sp, assumption | rule rtranclp.rtrancl_refl)+
  moreover have "out s10 = [(0, ?a), (1, ?b)]" by (simp add: s10_def s9_def s8_def s7_def mid)
  ultimately show ?thesis using e by auto
qed

end
