(* ===== verification/Sha256.thy ===== *)
theory Sha256
  imports Neu_Prelude
begin

text \<open>
  \<^verbatim>\<open>src/common/sha224_256.c\<close> (SHA-224 and SHA-256 after RFC 4634) and its C++ wrapper
  \<^verbatim>\<open>include/common/sha256_hepler.h\<close>. The context is a record with the fields of
  \<^verbatim>\<open>SHA256Context\<close>; a function that mutates the context returns the new one beside its error
  code. The pointers are never null here, so the \<^verbatim>\<open>shaNull\<close> branches are not reached.

  The streaming interface is proved equal to the standard's one-shot description: pad the message,
  cut it into blocks of 64 bytes and fold the compression function over them.
\<close>

unbundle bit_operations_syntax

type_synonym byte = "8 word"

section \<open>The compression function\<close>

definition SHA256_SHR :: "nat \<Rightarrow> 32 word \<Rightarrow> 32 word" where
  "SHA256_SHR bits w = drop_bit bits w"

definition SHA256_ROTR :: "nat \<Rightarrow> 32 word \<Rightarrow> 32 word" where
  "SHA256_ROTR bits w = drop_bit bits w OR push_bit (32 - bits) w"

definition SHA256_SIGMA0 :: "32 word \<Rightarrow> 32 word" where
  "SHA256_SIGMA0 w = SHA256_ROTR 2 w XOR SHA256_ROTR 13 w XOR SHA256_ROTR 22 w"

definition SHA256_SIGMA1 :: "32 word \<Rightarrow> 32 word" where
  "SHA256_SIGMA1 w = SHA256_ROTR 6 w XOR SHA256_ROTR 11 w XOR SHA256_ROTR 25 w"

definition SHA256_sigma0 :: "32 word \<Rightarrow> 32 word" where
  "SHA256_sigma0 w = SHA256_ROTR 7 w XOR SHA256_ROTR 18 w XOR SHA256_SHR 3 w"

definition SHA256_sigma1 :: "32 word \<Rightarrow> 32 word" where
  "SHA256_sigma1 w = SHA256_ROTR 17 w XOR SHA256_ROTR 19 w XOR SHA256_SHR 10 w"

definition SHA_Ch :: "32 word \<Rightarrow> 32 word \<Rightarrow> 32 word \<Rightarrow> 32 word" where
  "SHA_Ch x y z = (x AND y) XOR (NOT x AND z)"

definition SHA_Maj :: "32 word \<Rightarrow> 32 word \<Rightarrow> 32 word \<Rightarrow> 32 word" where
  "SHA_Maj x y z = (x AND y) XOR (x AND z) XOR (y AND z)"

definition SHA224_H0 :: "32 word list" where
  "SHA224_H0 = [0xC1059ED8, 0x367CD507, 0x3070DD17, 0xF70E5939,
     0xFFC00B31, 0x68581511, 0x64F98FA7, 0xBEFA4FA4]"

definition SHA256_H0 :: "32 word list" where
  "SHA256_H0 = [0x6A09E667, 0xBB67AE85, 0x3C6EF372, 0xA54FF53A,
     0x510E527F, 0x9B05688C, 0x1F83D9AB, 0x5BE0CD19]"

text \<open>The table \<^verbatim>\<open>K\<close>, row by row as the source lays it out.\<close>

definition SHA256_K :: "32 word list" where
  "SHA256_K = concat
    [[0x428a2f98, 0x71374491, 0xb5c0fbcf, 0xe9b5dba5, 0x3956c25b],
     [0x59f111f1, 0x923f82a4, 0xab1c5ed5, 0xd807aa98, 0x12835b01],
     [0x243185be, 0x550c7dc3, 0x72be5d74, 0x80deb1fe, 0x9bdc06a7],
     [0xc19bf174, 0xe49b69c1, 0xefbe4786, 0x0fc19dc6, 0x240ca1cc],
     [0x2de92c6f, 0x4a7484aa, 0x5cb0a9dc, 0x76f988da, 0x983e5152],
     [0xa831c66d, 0xb00327c8, 0xbf597fc7, 0xc6e00bf3, 0xd5a79147],
     [0x06ca6351, 0x14292967, 0x27b70a85, 0x2e1b2138, 0x4d2c6dfc],
     [0x53380d13, 0x650a7354, 0x766a0abb, 0x81c2c92e, 0x92722c85],
     [0xa2bfe8a1, 0xa81a664b, 0xc24b8b70, 0xc76c51a3, 0xd192e819],
     [0xd6990624, 0xf40e3585, 0x106aa070, 0x19a4c116, 0x1e376c08],
     [0x2748774c, 0x34b0bcb5, 0x391c0cb3, 0x4ed8aa4a, 0x5b9cca4f],
     [0x682e6ff3, 0x748f82ee, 0x78a5636f, 0x84c87814, 0x8cc70208],
     [0x90befffa, 0xa4506ceb, 0xbef9a3f7, 0xc67178f2]]"

definition block_word :: "byte list \<Rightarrow> nat \<Rightarrow> 32 word" where
  "block_word blk t =
     push_bit 24 (ucast (blk ! (4 * t))) OR push_bit 16 (ucast (blk ! (4 * t + 1))) OR
     push_bit 8 (ucast (blk ! (4 * t + 2))) OR ucast (blk ! (4 * t + 3))"

text \<open>The array \<^verbatim>\<open>W\<close>, filled in order.\<close>

definition schedule_step :: "nat \<Rightarrow> 32 word list \<Rightarrow> 32 word list" where
  "schedule_step t W =
     W @ [SHA256_sigma1 (W ! (t - 2)) + W ! (t - 7) + SHA256_sigma0 (W ! (t - 15)) + W ! (t - 16)]"

definition schedule :: "byte list \<Rightarrow> 32 word list" where
  "schedule blk = fold schedule_step [16..<64] (map (block_word blk) [0..<16])"

type_synonym registers = "32 word \<times> 32 word \<times> 32 word \<times> 32 word \<times> 32 word \<times> 32 word \<times> 32 word \<times> 32 word"

definition sha_round :: "32 word \<Rightarrow> registers \<Rightarrow> registers" where
  "sha_round kw = (\<lambda>(A, B, C, D, E, F, G, H).
     let temp1 = H + SHA256_SIGMA1 E + SHA_Ch E F G + kw;
         temp2 = SHA256_SIGMA0 A + SHA_Maj A B C
     in (temp1 + temp2, A, B, C, D + temp1, E, F, G))"

definition compress :: "byte list \<Rightarrow> 32 word list \<Rightarrow> 32 word list" where
  "compress blk h =
     (let W = schedule blk;
          (A, B, C, D, E, F, G, H) =
            fold (\<lambda>t. sha_round (SHA256_K ! t + W ! t)) [0..<64]
              (h ! 0, h ! 1, h ! 2, h ! 3, h ! 4, h ! 5, h ! 6, h ! 7)
      in [h ! 0 + A, h ! 1 + B, h ! 2 + C, h ! 3 + D, h ! 4 + E, h ! 5 + F, h ! 6 + G, h ! 7 + H])"

section \<open>The streaming interface\<close>

definition shaSuccess :: nat where "shaSuccess = 0"
definition shaStateError :: nat where "shaStateError = 3"

definition SHA256_Message_Block_Size :: nat where "SHA256_Message_Block_Size = 64"
definition SHA256HashSize :: nat where "SHA256HashSize = 32"
definition SHA224HashSize :: nat where "SHA224HashSize = 28"

lemmas sha_consts = shaSuccess_def shaStateError_def SHA256_Message_Block_Size_def
  SHA256HashSize_def SHA224HashSize_def

record sha256_context =
  Intermediate_Hash :: "32 word list"
  Length_Low :: "32 word"
  Length_High :: "32 word"
  Message_Block_Index :: nat
  Message_Block :: "byte list"
  Computed :: bool
  Corrupted :: nat

text \<open>An object whose bytes are all zero, as \<^verbatim>\<open>SHA256Context ctx{}\<close>.\<close>

definition zero_context :: sha256_context where
  "zero_context = \<lparr>Intermediate_Hash = replicate 8 0, Length_Low = 0, Length_High = 0,
     Message_Block_Index = 0, Message_Block = replicate 64 0, Computed = False, Corrupted = 0\<rparr>"

definition SHA224_256Reset :: "32 word list \<Rightarrow> sha256_context \<Rightarrow> nat \<times> sha256_context" where
  "SHA224_256Reset H0 c =
     (shaSuccess, c\<lparr>Length_Low := 0, Length_High := 0, Message_Block_Index := 0,
        Intermediate_Hash := map (\<lambda>i. H0 ! i) [0..<8], Computed := False, Corrupted := 0\<rparr>)"

definition SHA256Reset :: "sha256_context \<Rightarrow> nat \<times> sha256_context" where
  "SHA256Reset = SHA224_256Reset SHA256_H0"

definition SHA224Reset :: "sha256_context \<Rightarrow> nat \<times> sha256_context" where
  "SHA224Reset = SHA224_256Reset SHA224_H0"

definition SHA224_256AddLength :: "32 word \<Rightarrow> sha256_context \<Rightarrow> sha256_context" where
  "SHA224_256AddLength len c =
     (let low = Length_Low c + len; wrap = low < Length_Low c;
          high = (if wrap then Length_High c + 1 else Length_High c)
      in c\<lparr>Length_Low := low, Length_High := high, Corrupted := (if wrap \<and> high = 0 then 1 else 0)\<rparr>)"

definition SHA224_256ProcessMessageBlock :: "sha256_context \<Rightarrow> sha256_context" where
  "SHA224_256ProcessMessageBlock c =
     c\<lparr>Intermediate_Hash := compress (Message_Block c) (Intermediate_Hash c), Message_Block_Index := 0\<rparr>"

text \<open>\<^verbatim>\<open>Message_Block[Message_Block_Index++] = b\<close>.\<close>

definition put_byte :: "byte \<Rightarrow> sha256_context \<Rightarrow> sha256_context" where
  "put_byte b c = c\<lparr>Message_Block := (Message_Block c)[Message_Block_Index c := b],
     Message_Block_Index := Message_Block_Index c + 1\<rparr>"

definition input_byte :: "byte \<Rightarrow> sha256_context \<Rightarrow> sha256_context" where
  "input_byte b c =
     (let c1 = SHA224_256AddLength 8 (put_byte b c)
      in if Corrupted c1 = 0 \<and> Message_Block_Index c1 = SHA256_Message_Block_Size
         then SHA224_256ProcessMessageBlock c1 else c1)"

fun input_loop :: "byte list \<Rightarrow> sha256_context \<Rightarrow> sha256_context" where
  "input_loop [] c = c"
| "input_loop (b # bs) c = (if Corrupted c \<noteq> 0 then c else input_loop bs (input_byte b c))"

definition SHA256Input :: "sha256_context \<Rightarrow> byte list \<Rightarrow> 32 word \<Rightarrow> nat \<times> sha256_context" where
  "SHA256Input c message_array len =
     (if len = 0 then (shaSuccess, c)
      else if Computed c then (shaStateError, c\<lparr>Corrupted := shaStateError\<rparr>)
      else if Corrupted c \<noteq> 0 then (Corrupted c, c)
      else (shaSuccess, input_loop (take (unat len) message_array) c))"

text \<open>The two padding loops write zeros up to a given index.\<close>

definition zero_until :: "nat \<Rightarrow> sha256_context \<Rightarrow> sha256_context" where
  "zero_until n c = (put_byte 0 ^^ (n - Message_Block_Index c)) c"

definition length_bytes :: "32 word \<Rightarrow> 32 word \<Rightarrow> byte list" where
  "length_bytes high low =
     [ucast (drop_bit 24 high), ucast (drop_bit 16 high), ucast (drop_bit 8 high), ucast high,
      ucast (drop_bit 24 low), ucast (drop_bit 16 low), ucast (drop_bit 8 low), ucast low]"

definition SHA224_256PadMessage :: "byte \<Rightarrow> sha256_context \<Rightarrow> sha256_context" where
  "SHA224_256PadMessage pad_byte c =
     (let c1 = (if Message_Block_Index c \<ge> SHA256_Message_Block_Size - 8
                then SHA224_256ProcessMessageBlock (zero_until SHA256_Message_Block_Size (put_byte pad_byte c))
                else put_byte pad_byte c);
          c2 = zero_until (SHA256_Message_Block_Size - 8) c1;
          c3 = c2\<lparr>Message_Block := take 56 (Message_Block c2) @ length_bytes (Length_High c2) (Length_Low c2)\<rparr>
      in SHA224_256ProcessMessageBlock c3)"

definition SHA224_256Finalize :: "byte \<Rightarrow> sha256_context \<Rightarrow> sha256_context" where
  "SHA224_256Finalize pad_byte c =
     (SHA224_256PadMessage pad_byte c)\<lparr>Message_Block := replicate SHA256_Message_Block_Size 0,
        Length_Low := 0, Length_High := 0, Computed := True\<rparr>"

definition masks :: "byte list" where
  "masks = [0x00, 0x80, 0xC0, 0xE0, 0xF0, 0xF8, 0xFC, 0xFE]"

definition markbit :: "byte list" where
  "markbit = [0x80, 0x40, 0x20, 0x10, 0x08, 0x04, 0x02, 0x01]"

definition SHA256FinalBits :: "sha256_context \<Rightarrow> byte \<Rightarrow> nat \<Rightarrow> nat \<times> sha256_context" where
  "SHA256FinalBits c message_bits len =
     (if len = 0 then (shaSuccess, c)
      else if Computed c \<or> len \<ge> 8 then (shaStateError, c\<lparr>Corrupted := shaStateError\<rparr>)
      else if Corrupted c \<noteq> 0 then (Corrupted c, c)
      else (shaSuccess,
        SHA224_256Finalize ((message_bits AND masks ! len) OR markbit ! len)
          (SHA224_256AddLength (of_nat len) c)))"

definition SHA224_256ResultN :: "sha256_context \<Rightarrow> nat \<Rightarrow> nat \<times> byte list \<times> sha256_context" where
  "SHA224_256ResultN c HashSize =
     (if Corrupted c \<noteq> 0 then (Corrupted c, [], c)
      else let c1 = (if Computed c then c else SHA224_256Finalize 0x80 c)
           in (shaSuccess,
               map (\<lambda>i. ucast (drop_bit (8 * (3 - i mod 4)) (Intermediate_Hash c1 ! (i div 4)))) [0..<HashSize],
               c1))"

definition SHA256Result :: "sha256_context \<Rightarrow> nat \<times> byte list \<times> sha256_context" where
  "SHA256Result c = SHA224_256ResultN c SHA256HashSize"

definition SHA224Result :: "sha256_context \<Rightarrow> nat \<times> byte list \<times> sha256_context" where
  "SHA224Result c = SHA224_256ResultN c SHA224HashSize"

section \<open>SHA256Helper\<close>

text \<open>
  A \<^verbatim>\<open>std::string\<close> is read as its bytes. \<^verbatim>\<open>append\<close> passes \<^verbatim>\<open>data.size()\<close> as an
  \<^verbatim>\<open>unsigned int\<close>, so only the low 32 bits of the length count.
\<close>

definition bytes_of :: "string \<Rightarrow> byte list" where
  "bytes_of s = map (\<lambda>c. of_nat (of_char c)) s"

definition string_of :: "byte list \<Rightarrow> string" where
  "string_of bs = map (\<lambda>b. char_of (unat b)) bs"

definition newSHA256Helper :: sha256_context where
  "newSHA256Helper = snd (SHA256Reset zero_context)"

definition helper_reset :: "sha256_context \<Rightarrow> bool \<times> sha256_context" where
  "helper_reset ctx = (let (e, ctx1) = SHA256Reset ctx in (e = shaSuccess, ctx1))"

definition helper_append :: "string \<Rightarrow> sha256_context \<Rightarrow> bool \<times> sha256_context" where
  "helper_append data ctx =
     (let (e, ctx1) = SHA256Input ctx (bytes_of data) (of_nat (length data)) in (e = shaSuccess, ctx1))"

definition helper_execute :: "sha256_context \<Rightarrow> bool \<times> string \<times> sha256_context" where
  "helper_execute ctx =
     (let (e, digest, ctx1) = SHA256Result ctx
      in if e \<noteq> shaSuccess then (False, replicate SHA256HashSize (char_of (0 :: nat)), ctx1)
         else let (ok, ctx2) = helper_reset ctx1 in (ok, string_of digest, ctx2))"

definition helper_hash :: "string \<Rightarrow> sha256_context \<Rightarrow> bool \<times> string \<times> sha256_context" where
  "helper_hash data ctx =
     (let (ok1, ctx1) = helper_reset ctx
      in if \<not> ok1 then (False, [], ctx1)
         else let (ok2, ctx2) = helper_append data ctx1
              in if \<not> ok2 then (False, [], ctx2) else helper_execute ctx2)"


section \<open>The standard's description\<close>

function blocks64 :: "byte list \<Rightarrow> byte list list" where
  "blocks64 m = (if length m < 64 then [] else take 64 m # blocks64 (drop 64 m))"
  by pat_completeness auto
termination by (relation "measure length") auto

declare blocks64.simps [simp del]

definition be64 :: "nat \<Rightarrow> byte list" where
  "be64 n = map (\<lambda>i. of_nat (n div 2 ^ (8 * (7 - i)))) [0..<8]"

definition pad_message :: "byte list \<Rightarrow> byte list" where
  "pad_message m = m @ [0x80] @ replicate ((119 - length m mod 64) mod 64) 0 @ be64 (8 * length m)"

definition be32 :: "32 word \<Rightarrow> byte list" where
  "be32 w = [ucast (drop_bit 24 w), ucast (drop_bit 16 w), ucast (drop_bit 8 w), ucast w]"

definition sha256_spec :: "byte list \<Rightarrow> byte list" where
  "sha256_spec m = concat (map be32 (fold compress (blocks64 (pad_message m)) SHA256_H0))"

lemma blocks64_short [simp]: "length m < 64 \<Longrightarrow> blocks64 m = []"
  by (simp add: blocks64.simps)

lemma blocks64_one [simp]: "length m = 64 \<Longrightarrow> blocks64 m = [m]"
  by (simp add: blocks64.simps)

lemma blocks64_append: "length p mod 64 = 0 \<Longrightarrow> blocks64 (p @ r) = blocks64 p @ blocks64 r"
proof (induction p rule: blocks64.induct)
  case (1 p)
  show ?case
  proof (cases "length p < 64")
    case True
    then show ?thesis using 1(2) by simp
  next
    case False
    then have "length (drop 64 p) mod 64 = 0" using 1(2) by (simp add: mod_if)
    then have "blocks64 (drop 64 p @ r) = blocks64 (drop 64 p) @ blocks64 r" using 1(1) False by simp
    then show ?thesis using False by (subst (1 2) blocks64.simps) simp
  qed
qed

text \<open>A context that has consumed the full blocks \<open>p\<close> and holds the bytes \<open>r\<close>.\<close>

definition sha_inv :: "byte list \<Rightarrow> byte list \<Rightarrow> sha256_context \<Rightarrow> bool" where
  "sha_inv p r c \<longleftrightarrow>
     \<not> Computed c \<and> Corrupted c = 0 \<and> length p mod 64 = 0 \<and> length r < 64 \<and>
     length (Message_Block c) = 64 \<and> Message_Block_Index c = length r \<and>
     take (length r) (Message_Block c) = r \<and>
     Intermediate_Hash c = fold compress (blocks64 p) SHA256_H0 \<and>
     unat (Length_High c) * 2 ^ 32 + unat (Length_Low c) = 8 * (length p + length r)"

lemma AddLength_ok:
  assumes "unat (Length_High c) * 2 ^ 32 + unat (Length_Low c) = n" and "n + unat k < 2 ^ 64"
  shows "\<exists>hi lo. SHA224_256AddLength k c = c\<lparr>Length_Low := lo, Length_High := hi, Corrupted := 0\<rparr> \<and>
    unat hi * 2 ^ 32 + unat lo = n + unat k"
proof -
  let ?lo = "Length_Low c + k"
  have L: "unat (Length_Low c) < 2 ^ 32" "unat k < 2 ^ 32"
    using unsigned_less[of "Length_Low c", where ?'a = nat] unsigned_less[of k, where ?'a = nat] by simp_all
  have lo: "unat ?lo = (unat (Length_Low c) + unat k) mod 2 ^ 32"
    by (simp add: unat_word_ariths)
  show ?thesis
  proof (cases "unat (Length_Low c) + unat k < 2 ^ 32")
    case True
    then have "unat ?lo = unat (Length_Low c) + unat k" using lo by simp
    moreover from this have "\<not> ?lo < Length_Low c" by (simp add: word_less_nat_alt)
    ultimately show ?thesis using assms
      by (intro exI[of _ "Length_High c"] exI[of _ ?lo]) (simp add: SHA224_256AddLength_def)
  next
    case False
    then have u: "unat ?lo = unat (Length_Low c) + unat k - 2 ^ 32" using lo L by (simp add: mod_if)
    then have w: "?lo < Length_Low c" using L False by (simp add: word_less_nat_alt)
    have "unat (Length_High c) * 2 ^ 32 + 2 ^ 32 \<le> n + unat k" using assms(1) False by simp
    then have "unat (Length_High c) + 1 < 2 ^ 32" using assms(2) by simp
    then have h: "unat (Length_High c + 1) = unat (Length_High c) + 1"
      by (simp add: unat_word_ariths)
    then have "Length_High c + 1 \<noteq> 0" by (metis add_is_0 unsigned_0 zero_neq_one)
    then show ?thesis using assms u w h False
      by (intro exI[of _ "Length_High c + 1"] exI[of _ ?lo]) (simp add: SHA224_256AddLength_def Let_def)
  qed
qed

lemma input_byte_inv:
  assumes "sha_inv p r c" and "8 * (length p + length r + 1) < 2 ^ 64"
  shows "sha_inv (if length r = 63 then p @ r @ [b] else p) (if length r = 63 then [] else r @ [b])
    (input_byte b c)"
proof -
  have len: "unat (Length_High (put_byte b c)) * 2 ^ 32 + unat (Length_Low (put_byte b c)) =
      8 * (length p + length r)"
    using assms(1) by (simp add: sha_inv_def put_byte_def)
  have lt: "8 * (length p + length r) + unat (8 :: 32 word) < 2 ^ 64" using assms(2) by simp
  obtain hi lo where add: "SHA224_256AddLength 8 (put_byte b c) =
      (put_byte b c)\<lparr>Length_Low := lo, Length_High := hi, Corrupted := 0\<rparr>"
    and v: "unat hi * 2 ^ 32 + unat lo = 8 * (length p + length r) + unat (8 :: 32 word)"
    using AddLength_ok[OF len lt] by blast
  have blk: "length (Message_Block c) = 64" "take (length r) (Message_Block c) = r" "length r < 64"
    using assms(1) by (simp_all add: sha_inv_def)
  then have tk: "take (Suc (length r)) ((Message_Block c)[length r := b]) = r @ [b]"
    by (simp add: take_Suc_conv_app_nth)
  show ?thesis
  proof (cases "length r = 63")
    case True
    then have "(Message_Block c)[63 := b] = r @ [b]" using tk blk(1) by simp
    moreover have "blocks64 (p @ r @ [b]) = blocks64 p @ [r @ [b]]"
      using assms(1) True blocks64_append[of p "r @ [b]"] by (simp add: sha_inv_def)
    ultimately show ?thesis using assms(1) True add v
      by (simp add: sha_inv_def input_byte_def put_byte_def sha_consts
          SHA224_256ProcessMessageBlock_def mod_simps)
  next
    case False
    then show ?thesis using assms(1) add v tk
      by (simp add: sha_inv_def input_byte_def put_byte_def sha_consts)
  qed
qed

lemma input_loop_inv:
  assumes "sha_inv p r c" and "8 * (length p + length r + length bs) < 2 ^ 64"
  shows "\<exists>p' r'. sha_inv p' r' (input_loop bs c) \<and> p' @ r' = p @ r @ bs"
  using assms
proof (induction bs arbitrary: p r c)
  case Nil
  then show ?case by auto
next
  case (Cons b bs)
  let ?p = "if length r = 63 then p @ r @ [b] else p" and ?r = "if length r = 63 then [] else r @ [b]"
  have "sha_inv ?p ?r (input_byte b c)" using Cons.prems by (intro input_byte_inv) simp_all
  moreover have "8 * (length ?p + length ?r + length bs) < 2 ^ 64" using Cons.prems(2) by simp
  ultimately obtain p' r' where "sha_inv p' r' (input_loop bs (input_byte b c))" "p' @ r' = ?p @ ?r @ bs"
    using Cons.IH by blast
  moreover have "Corrupted c = 0" using Cons.prems(1) by (simp add: sha_inv_def)
  ultimately show ?case by (intro exI[of _ p'] exI[of _ r']) (simp split: if_splits)
qed


lemma put_zeros:
  assumes "Message_Block_Index c + k \<le> length (Message_Block c)"
  shows "(put_byte 0 ^^ k) c =
    c\<lparr>Message_Block := take (Message_Block_Index c) (Message_Block c) @ replicate k 0 @
        drop (Message_Block_Index c + k) (Message_Block c),
      Message_Block_Index := Message_Block_Index c + k\<rparr>"
  using assms
proof (induction k)
  case 0
  then show ?case by simp
next
  case (Suc k)
  let ?i = "Message_Block_Index c" and ?b = "Message_Block c"
  have "(take ?i ?b @ replicate k 0 @ drop (?i + k) ?b)[?i + k := 0] =
      take ?i ?b @ replicate (Suc k) 0 @ drop (?i + Suc k) ?b"
    using Suc.prems by (simp add: list_update_append upd_conv_take_nth_drop drop_Suc tl_drop
        replicate_append_same[symmetric] nth_append Cons_nth_drop_Suc[symmetric])
  then show ?case using Suc by (simp add: put_byte_def)
qed

lemma zero_until_block:
  assumes "Message_Block_Index c \<le> n" and "n \<le> length (Message_Block c)"
  shows "zero_until n c =
    c\<lparr>Message_Block := take (Message_Block_Index c) (Message_Block c) @
        replicate (n - Message_Block_Index c) 0 @ drop n (Message_Block c), Message_Block_Index := n\<rparr>"
  using put_zeros[of c "n - Message_Block_Index c"] assms by (simp add: zero_until_def)

lemma byte_of_nat_256: "(of_nat (a * 256 + b) :: byte) = of_nat b"
proof -
  have "(256 :: byte) = 0" by (rule word_unat_eq_iff[THEN iffD2]) simp
  then show ?thesis by (simp only: of_nat_add of_nat_mult of_nat_numeral mult_zero_right add_0)
qed

lemma ucast_drop_bit: "(ucast (drop_bit k (w :: 32 word)) :: byte) = of_nat (unat w div 2 ^ k)"
proof -
  have "unat (drop_bit k w) = unat w div 2 ^ k"
    by (metis drop_bit_eq_div unat_drop_bit_eq)
  moreover have "(ucast v :: byte) = of_nat (unat v)" for v :: "32 word"
    by simp
  ultimately show ?thesis by metis
qed

lemma be64_unfold:
  "be64 n = [of_nat (n div 2 ^ 56), of_nat (n div 2 ^ 48), of_nat (n div 2 ^ 40), of_nat (n div 2 ^ 32),
     of_nat (n div 2 ^ 24), of_nat (n div 2 ^ 16), of_nat (n div 2 ^ 8), of_nat (n div 2 ^ 0)]"
proof -
  have "[0..<8] = [0, 1, 2, 3, 4, 5, 6, 7 :: nat]" by (simp add: upt_rec)
  then show ?thesis by (simp add: be64_def)
qed

lemma length_bytes_be64: "length_bytes hi lo = be64 (unat hi * 2 ^ 32 + unat lo)"
proof -
  let ?n = "unat hi * 2 ^ 32 + unat lo"
  have L: "unat lo < 2 ^ 32" using unsigned_less[of lo, where ?'a = nat] by simp
  have high: "?n div 2 ^ (32 + k) = unat hi div 2 ^ k" for k
    using L by (simp add: power_add div_mult2_eq)
  have low: "(of_nat (?n div 2 ^ k) :: byte) = of_nat (unat lo div 2 ^ k)" if "k \<le> 24" for k
  proof -
    have "(2 :: nat) ^ 32 = 2 ^ (24 - k) * 256 * 2 ^ k"
      using that by (simp flip: power_add)
    then have n: "?n = (unat hi * 2 ^ (24 - k) * 256) * 2 ^ k + unat lo" by (simp only: mult.assoc)
    have "?n div 2 ^ k = unat hi * 2 ^ (24 - k) * 256 + unat lo div 2 ^ k"
      unfolding n by (rule div_mult_self3) simp
    then show ?thesis by (simp only: byte_of_nat_256)
  qed
  have hi: "ucast (drop_bit k hi) = (of_nat (?n div 2 ^ (32 + k)) :: byte)" for k
    by (simp only: high ucast_drop_bit)
  have lo: "ucast (drop_bit k lo) = (of_nat (?n div 2 ^ k) :: byte)" if "k \<le> 24" for k
    by (simp only: low[OF that] ucast_drop_bit)
  have hi': "ucast (drop_bit 24 hi) = (of_nat (?n div 2 ^ 56) :: byte)"
    "ucast (drop_bit 16 hi) = (of_nat (?n div 2 ^ 48) :: byte)"
    "ucast (drop_bit 8 hi) = (of_nat (?n div 2 ^ 40) :: byte)"
    "ucast hi = (of_nat (?n div 2 ^ 32) :: byte)"
    using hi[of 24] hi[of 16] hi[of 8] hi[of 0] by (simp_all only: drop_bit_0 id_apply numeral_plus_numeral add_num_simps add_0_right)
  have lo': "ucast (drop_bit 24 lo) = (of_nat (?n div 2 ^ 24) :: byte)"
    "ucast (drop_bit 16 lo) = (of_nat (?n div 2 ^ 16) :: byte)"
    "ucast (drop_bit 8 lo) = (of_nat (?n div 2 ^ 8) :: byte)"
    "ucast lo = (of_nat (?n div 2 ^ 0) :: byte)"
    using lo[of 24] lo[of 16] lo[of 8] lo[of 0] by (simp_all only: drop_bit_0 id_apply)
  show ?thesis
    unfolding length_bytes_def hi' lo' be64_unfold ..
qed

lemma pad_block:
  assumes "Message_Block_Index c = length r" and "take (length r) (Message_Block c) = r"
    and "length (Message_Block c) = 64" and "length r < n" and "n \<le> 64"
  shows "zero_until n (put_byte b c) =
    c\<lparr>Message_Block := r @ [b] @ replicate (n - Suc (length r)) 0 @ drop n (Message_Block c),
      Message_Block_Index := n\<rparr>"
proof -
  have "take (Suc (length r)) ((Message_Block c)[length r := b]) = r @ [b]"
    using assms(2-5) by (simp add: take_Suc_conv_app_nth)
  moreover have "drop n ((Message_Block c)[length r := b]) = drop n (Message_Block c)"
    using assms(4) by simp
  ultimately show ?thesis
    using assms(1,3-5) zero_until_block[of "put_byte b c" n] by (simp add: put_byte_def)
qed

text \<open>The hash after padding: one more block, or two if the length does not fit.\<close>

lemma PadMessage_short:
  assumes "sha_inv p r c" and "length r < 56"
  shows "Intermediate_Hash (SHA224_256PadMessage 0x80 c) =
    compress (r @ [0x80] @ replicate (55 - length r) 0 @ length_bytes (Length_High c) (Length_Low c))
      (Intermediate_Hash c)"
proof -
  have idx: "Message_Block_Index c = length r" using assms(1) by (simp add: sha_inv_def)
  have z: "zero_until 56 (put_byte 0x80 c) =
      c\<lparr>Message_Block := r @ [0x80] @ replicate (55 - length r) 0 @ drop 56 (Message_Block c),
        Message_Block_Index := 56\<rparr>"
    using pad_block[of c r 56 "0x80"] assms by (simp add: sha_inv_def)
  have "56 - length r = Suc (55 - length r)" using assms(2) by simp
  then have t: "take (56 - length r) (b # replicate (55 - length r) 0 @ d) = b # replicate (55 - length r) 0"
    for b :: byte and d :: "byte list" by simp
  show ?thesis
    unfolding SHA224_256PadMessage_def Let_def sha_consts
    using assms(2) by (simp add: idx z t SHA224_256ProcessMessageBlock_def)
qed

lemma PadMessage_long:
  assumes "sha_inv p r c" and "\<not> length r < 56"
  shows "Intermediate_Hash (SHA224_256PadMessage 0x80 c) =
    compress (replicate 56 0 @ length_bytes (Length_High c) (Length_Low c))
      (compress (r @ [0x80] @ replicate (63 - length r) 0) (Intermediate_Hash c))"
proof -
  have idx: "Message_Block_Index c = length r" using assms(1) by (simp add: sha_inv_def)
  let ?b = "r @ [0x80] @ replicate (63 - length r) 0"
  have z: "zero_until 64 (put_byte 0x80 c) = c\<lparr>Message_Block := ?b, Message_Block_Index := 64\<rparr>"
    using pad_block[of c r 64 "0x80"] assms by (simp add: sha_inv_def)
  have "length ?b = 64" using assms by (simp add: sha_inv_def)
  then have z2: "zero_until 56 (c\<lparr>Message_Block := ?b, Intermediate_Hash := h, Message_Block_Index := 0\<rparr>) =
      c\<lparr>Message_Block := replicate 56 0 @ drop 56 ?b, Intermediate_Hash := h, Message_Block_Index := 56\<rparr>" for h
    by (simp add: zero_until_block)
  show ?thesis
    unfolding SHA224_256PadMessage_def Let_def sha_consts
    using assms(2) z2 by (simp add: idx z SHA224_256ProcessMessageBlock_def)
qed

lemma PadMessage_hash:
  assumes "sha_inv p r c"
  shows "Intermediate_Hash (SHA224_256PadMessage 0x80 c) =
    fold compress (blocks64 (pad_message (p @ r))) SHA256_H0"
proof -
  let ?i = "length r"
  let ?len = "length_bytes (Length_High c) (Length_Low c)"
  have p: "length p mod 64 = 0" and i: "?i < 64"
    and h: "Intermediate_Hash c = fold compress (blocks64 p) SHA256_H0"
    using assms by (simp_all add: sha_inv_def)
  have len8: "length ?len = 8" by (simp add: length_bytes_def)
  have len: "be64 (8 * length (p @ r)) = ?len"
    using assms by (simp add: sha_inv_def length_bytes_be64)
  have mod: "length (p @ r) mod 64 = ?i" using p i by (simp add: mod_add_eq[symmetric])
  have blocks: "blocks64 ((p @ r) @ x) = blocks64 p @ blocks64 (r @ x)" for x
    using blocks64_append[OF p, of "r @ x"] by simp
  show ?thesis
  proof (cases "?i < 56")
    case True
    then have k: "(119 - ?i) mod 64 = 55 - ?i" by (simp add: mod_if)
    have "length (r @ [0x80] @ replicate (55 - ?i) 0 @ ?len) = 64" using True len8 by simp
    then show ?thesis
      unfolding pad_message_def mod k len blocks PadMessage_short[OF assms True] h
      by (simp only: blocks64_one fold_append fold_simps o_apply)
  next
    case False
    then have k: "(119 - ?i) mod 64 = (63 - ?i) + 56" using i by (simp add: mod_if)
    let ?b1 = "r @ [0x80] @ replicate (63 - ?i) 0" and ?b2 = "replicate 56 0 @ ?len"
    have l: "length ?b1 = 64" "length ?b2 = 64" using i len8 by simp_all
    have "blocks64 (?b1 @ ?b2) = [?b1, ?b2]"
      using blocks64_append[of ?b1 ?b2] l by (simp only: blocks64_one append_Cons append_Nil) simp
    then have "blocks64 (r @ [0x80] @ replicate ((63 - ?i) + 56) 0 @ ?len) = [?b1, ?b2]"
      by (simp only: replicate_add append_assoc)
    then show ?thesis
      unfolding pad_message_def mod k len blocks PadMessage_long[OF assms False] h
      by (simp only: fold_append fold_simps o_apply)
  qed
qed

lemma compress_length: "length (compress blk h) = 8"
  by (simp add: compress_def Let_def split: prod.splits)

lemma fold_compress_length: "length (fold compress bs SHA256_H0) = 8"
proof (induction bs rule: rev_induct)
  case Nil
  then show ?case by (simp add: SHA256_H0_def)
qed (simp add: compress_length)

lemma digest_bytes:
  assumes "length h = 8"
  shows "map (\<lambda>i. ucast (drop_bit (8 * (3 - i mod 4)) (h ! (i div 4)))) [0..<32] = concat (map be32 h)"
proof -
  obtain h0 h1 h2 h3 h4 h5 h6 h7 where h: "h = [h0, h1, h2, h3, h4, h5, h6, h7]"
    using assms by (auto simp: numeral_eq_Suc length_Suc_conv)
  have "[0..<32] = [0, 1, 2, 3, 4, 5, 6, 7, 8, 9, 10, 11, 12, 13, 14, 15, 16, 17, 18, 19, 20, 21, 22,
      23, 24, 25, 26, 27, 28, 29, 30, 31 :: nat]" by (simp add: upt_rec)
  then show ?thesis unfolding h by (simp add: be32_def)
qed

lemma Result_spec:
  assumes "sha_inv p r c"
  shows "\<exists>c'. SHA256Result c = (shaSuccess, sha256_spec (p @ r), c')
    \<and> length (Message_Block c') = 64"
proof -
  have "Intermediate_Hash (SHA224_256Finalize 0x80 c) =
      fold compress (blocks64 (pad_message (p @ r))) SHA256_H0"
    using PadMessage_hash[OF assms] by (simp add: SHA224_256Finalize_def)
  then show ?thesis
    using assms digest_bytes[OF fold_compress_length[of "blocks64 (pad_message (p @ r))"]]
    by (simp add: SHA256Result_def SHA224_256ResultN_def sha_inv_def sha256_spec_def SHA256HashSize_def
        Let_def) (simp add: SHA224_256Finalize_def sha_consts)
qed

lemma Reset_inv:
  "length (Message_Block c) = 64 \<Longrightarrow> sha_inv [] [] (snd (SHA256Reset c))"
  by (simp add: sha_inv_def SHA256Reset_def SHA224_256Reset_def SHA256_H0_def upt_rec)

lemma Input_inv:
  assumes "sha_inv p r c" and "length bs < 2 ^ 32" and "8 * (length p + length r + length bs) < 2 ^ 64"
  obtains c' p' r' where "SHA256Input c bs (of_nat (length bs)) = (shaSuccess, c')" and "sha_inv p' r' c'"
    and "p' @ r' = p @ r @ bs"
proof (cases "bs = []")
  case True
  then show ?thesis using that[of c p r] assms(1) by (simp add: SHA256Input_def)
next
  case False
  have len: "unat (of_nat (length bs) :: 32 word) = length bs"
    using assms(2) by (simp add: unat_of_nat)
  then have nz: "of_nat (length bs) \<noteq> (0 :: 32 word)"
    using False by (metis length_0_conv unsigned_0)
  have "\<not> Computed c" "Corrupted c = 0" using assms(1) by (simp_all add: sha_inv_def)
  then have "SHA256Input c bs (of_nat (length bs)) = (shaSuccess, input_loop bs c)"
    using nz by (simp add: SHA256Input_def len)
  then show ?thesis using that input_loop_inv[OF assms(1,3)] by blast
qed

section \<open>The helper computes SHA-256\<close>

fun append_all :: "string list \<Rightarrow> sha256_context \<Rightarrow> bool \<times> sha256_context" where
  "append_all [] ctx = (True, ctx)"
| "append_all (s # ss) ctx =
     (let (ok1, ctx1) = helper_append s ctx; (ok2, ctx2) = append_all ss ctx1 in (ok1 \<and> ok2, ctx2))"

lemma bytes_of_simps [simp]:
  "length (bytes_of s) = length s" "bytes_of [] = []" "bytes_of (s @ t) = bytes_of s @ bytes_of t"
  by (simp_all add: bytes_of_def)

lemma bytes_string: "bytes_of (string_of bs) = bs"
proof -
  have "of_nat (of_char (char_of (unat b) :: char)) = b" for b :: byte
    using unsigned_less[of b, where ?'a = nat] by simp
  then show ?thesis by (simp add: bytes_of_def string_of_def comp_def)
qed

lemma length_string_of: "length (string_of bs) = length bs"
  by (simp add: string_of_def)

lemma append_all_inv:
  assumes "sha_inv p r c" and "\<forall>s \<in> set ss. length s < 2 ^ 32"
    and "8 * (length p + length r + length (concat ss)) < 2 ^ 64"
  shows "\<exists>c' p' r'. append_all ss c = (True, c') \<and> sha_inv p' r' c' \<and> p' @ r' = p @ r @ bytes_of (concat ss)"
  using assms
proof (induction ss arbitrary: p r c)
  case Nil
  then show ?case by auto
next
  case (Cons s ss)
  have s: "length (bytes_of s) < 2 ^ 32" "8 * (length p + length r + length (bytes_of s)) < 2 ^ 64"
    using Cons.prems(2,3) by simp_all
  from Input_inv[OF Cons.prems(1) s] obtain c1 p1 r1 where
    c1: "SHA256Input c (bytes_of s) (of_nat (length (bytes_of s))) = (shaSuccess, c1)"
    and inv: "sha_inv p1 r1 c1" and eq: "p1 @ r1 = p @ r @ bytes_of s" .
  have "length p1 + length r1 = length p + length r + length s"
    using arg_cong[OF eq, of length] by simp
  then have lt: "8 * (length p1 + length r1 + length (concat ss)) < 2 ^ 64" using Cons.prems(3) by simp
  have "\<forall>s \<in> set ss. length s < 2 ^ 32" using Cons.prems(2) by simp
  from Cons.IH[OF inv this lt] obtain c' p' r' where rest: "append_all ss c1 = (True, c')"
    "sha_inv p' r' c'" "p' @ r' = p1 @ r1 @ bytes_of (concat ss)" by (elim exE conjE)
  have "helper_append s c = (True, c1)" using c1 by (simp add: helper_append_def)
  then have "append_all (s # ss) c = (True, c')" using rest(1) by simp
  moreover have "p' @ r' = p @ r @ bytes_of (concat (s # ss))"
    using rest(3) eq by (metis append_assoc bytes_of_simps(3) concat.simps(2))
  ultimately show ?case using rest(2) by blast
qed

lemma helper_execute_spec:
  assumes "sha_inv p r c"
  obtains c' where "helper_execute c = (True, string_of (sha256_spec (p @ r)), c')" and "sha_inv [] [] c'"
proof -
  obtain c1 where c1: "SHA256Result c = (shaSuccess, sha256_spec (p @ r), c1)" "length (Message_Block c1) = 64"
    using Result_spec[OF assms] by blast
  then have "helper_execute c = (True, string_of (sha256_spec (p @ r)), snd (SHA256Reset c1))"
    by (simp add: helper_execute_def helper_reset_def SHA256Reset_def SHA224_256Reset_def)
  then show ?thesis using that Reset_inv[OF c1(2)] by blast
qed

lemma new_helper_inv: "sha_inv [] [] newSHA256Helper"
  using Reset_inv[of zero_context] by (simp add: newSHA256Helper_def zero_context_def)

text \<open>
  C26. Hashing is independent of how the input is cut: appending any list of strings to a new
  \<^verbatim>\<open>SHA256Helper\<close> and executing it succeeds and returns the SHA-256 digest of their concatenation as
  the standard describes it (padding, big-endian length, compression of 64-byte blocks), and leaves
  the helper ready for the next message.
\<close>

theorem helper_streaming:
  assumes "\<forall>s \<in> set parts. length s < 2 ^ 32" and "8 * length (concat parts) < 2 ^ 64"
  shows "\<exists>ctx ctx'. append_all parts newSHA256Helper = (True, ctx) \<and>
    helper_execute ctx = (True, string_of (sha256_spec (bytes_of (concat parts))), ctx') \<and> sha_inv [] [] ctx'"
proof -
  have "8 * (length ([] :: byte list) + length ([] :: byte list) + length (concat parts)) < 2 ^ 64"
    using assms(2) by simp
  from append_all_inv[OF new_helper_inv assms(1) this] obtain ctx p r where
    ctx: "append_all parts newSHA256Helper = (True, ctx)" "sha_inv p r ctx" "p @ r = bytes_of (concat parts)"
    by (metis append_Nil)
  from helper_execute_spec[OF ctx(2)] obtain ctx' where
    "helper_execute ctx = (True, string_of (sha256_spec (p @ r)), ctx')" "sha_inv [] [] ctx'" .
  then show ?thesis using ctx(1,3) by metis
qed

lemma compress_abc:
  "compress ([0x61, 0x62, 0x63, 0x80] @ replicate 59 0 @ [24]) SHA256_H0 =
    [0xba7816bf, 0x8f01cfea, 0x414140de, 0x5dae2223, 0xb00361a3, 0x96177a9c, 0xb410ff61, 0xf20015ad]"
  by code_simp

lemma sha256_abc:
  "sha256_spec (bytes_of ''abc'') =
    [0xba, 0x78, 0x16, 0xbf, 0x8f, 0x01, 0xcf, 0xea, 0x41, 0x41, 0x40, 0xde, 0x5d, 0xae, 0x22, 0x23,
     0xb0, 0x03, 0x61, 0xa3, 0x96, 0x17, 0x7a, 0x9c, 0xb4, 0x10, 0xff, 0x61, 0xf2, 0x00, 0x15, 0xad]"
proof -
  have b: "bytes_of ''abc'' = [0x61, 0x62, 0x63]" by (simp add: bytes_of_def)
  have l: "be64 24 = [0, 0, 0, 0, 0, 0, 0, 24]" by (simp add: be64_unfold)
  have r: "replicate 52 0 @ [0, 0, 0, 0, 0, 0, 0, 24] = replicate 59 0 @ [24 :: byte]" by code_simp
  have "pad_message (bytes_of ''abc'') = [0x61, 0x62, 0x63, 0x80] @ replicate 59 0 @ [24]"
    unfolding pad_message_def b by (simp add: l r)
  moreover have "length ([0x61, 0x62, 0x63, 0x80] @ replicate 59 0 @ [24 :: byte]) = 64" by simp
  ultimately have "blocks64 (pad_message (bytes_of ''abc'')) = [[0x61, 0x62, 0x63, 0x80] @ replicate 59 0 @ [24]]"
    by (simp only: blocks64_one)
  then show ?thesis
    unfolding sha256_spec_def by (simp only: fold_simps compress_abc) (simp add: be32_def)
qed

lemma helper_streaming_witness:
  "\<exists>ctx ctx'. append_all [''a'', ''bc''] newSHA256Helper = (True, ctx) \<and>
    helper_execute ctx = (True, string_of
      [0xba, 0x78, 0x16, 0xbf, 0x8f, 0x01, 0xcf, 0xea, 0x41, 0x41, 0x40, 0xde, 0x5d, 0xae, 0x22, 0x23,
       0xb0, 0x03, 0x61, 0xa3, 0x96, 0x17, 0x7a, 0x9c, 0xb4, 0x10, 0xff, 0x61, 0xf2, 0x00, 0x15, 0xad], ctx')"
proof -
  have c: "concat [''a'', ''bc''] = ''abc''" by simp
  show ?thesis
    using helper_streaming[of "[''a'', ''bc'']", unfolded c sha256_abc] by auto
qed

end
