(* ===== verification/Sample_Codec.thy ===== *)
theory Sample_Codec
  imports Main
begin

text \<open>
  A small concrete encoding of numbers, strings and lists of strings: numbers in unary, strings and lists with their
  length in front. Where the program calls a serialization library, the properties hold for every encoding that can be read back; this
  one shows that there are such encodings.
\<close>

definition nat_code :: "nat \<Rightarrow> string" where "nat_code n = replicate n CHR ''1'' @ ''0''"

definition read_nat :: "string \<Rightarrow> nat \<times> string" where
  "read_nat s = (let n = length (takeWhile (\<lambda>c. c = CHR ''1'') s) in (n, drop (Suc n) s))"

definition str_code :: "string \<Rightarrow> string" where "str_code s = nat_code (length s) @ s"

definition read_str :: "string \<Rightarrow> string \<times> string" where
  "read_str s = (let (n, r) = read_nat s in (take n r, drop n r))"

fun read_strs :: "nat \<Rightarrow> string \<Rightarrow> string list \<times> string" where
  "read_strs 0 s = ([], s)"
| "read_strs (Suc n) s = (let (x, r) = read_str s; (xs, r') = read_strs n r in (x # xs, r'))"

definition list_code :: "string list \<Rightarrow> string" where "list_code xs = nat_code (length xs) @ concat (map str_code xs)"

definition read_list :: "string \<Rightarrow> string list \<times> string" where
  "read_list s = (let (n, r) = read_nat s in read_strs n r)"

lemma read_nat_code: "read_nat (nat_code n @ r) = (n, r)"
proof -
  have "takeWhile (\<lambda>c. c = CHR ''1'') (replicate n CHR ''1'' @ CHR ''0'' # r) = replicate n CHR ''1''"
    by (induction n) simp_all
  then show ?thesis by (simp add: read_nat_def nat_code_def)
qed

lemma read_str_code: "read_str (str_code s @ r) = (s, r)"
  by (simp add: read_str_def str_code_def read_nat_code)

lemma read_strs_code: "read_strs (length xs) (concat (map str_code xs) @ r) = (xs, r)"
  by (induction xs) (simp_all add: read_str_code)

lemma read_list_code: "read_list (list_code xs @ r) = (xs, r)" "read_list (list_code xs) = (xs, [])"
  using read_strs_code[of xs "[]"] by (simp_all add: read_list_def list_code_def read_nat_code read_strs_code)

end
