(* ===== verification/Client_Proxy.thy ===== *)
theory Client_Proxy
  imports Consensus_Control Epoch_Buffer Sha256 C_Strings Sample_Codec
begin

text \<open>
  \<open>ClientProxy\<close> (\<open>client_proxy.cpp\<close>): the loop that takes the batches of the local users, gives them ids and broadcasts them, the loop
  that receives the batches of another server, and the check of a batch against the answer of the epoch server.

  Messages are protobuf's and signatures the crypto library's; both are functions of the record \<open>proxy_env\<close>, together with the
  serialization of transactions. What a loop does to its \<open>EpochTransactionBuffer\<close> is a list of events, \<open>Push t\<close> for
  \<open>pushTransactionToBuffer\<close> and \<open>Close e\<close> for \<open>asyncEmptyBuffer\<close>. A failing \<open>CHECK\<close> is \<open>None\<close>; the exceptions of the receiving
  loop are results.

  The lemmas show that a receiver accepts what an honest sender broadcasts and gives the transactions the same ids,
  which depend on nothing but the two signatures; and that the events of both loops are the moves a producer may make in the
  step relation of the epoch buffers.
\<close>

section \<open>Messages\<close>

record epoch_response =
  er_epoch :: epoch_size_t
  er_batch_size :: "32 word"
  er_batch_hash :: string
  er_nonce :: "64 word"
  er_signature :: string

record proxy_env =
  parse_response :: "string \<Rightarrow> epoch_response"
  ser_set :: "proof_set \<Rightarrow> string"
  parse_set :: "string \<Rightarrow> proof_set option"
  ser_tx :: "transaction \<Rightarrow> string option"
  parse_tx :: "string \<Rightarrow> transaction option"
  ser_payload :: "payload \<Rightarrow> string"
  user_verify :: "string \<Rightarrow> string \<Rightarrow> string \<Rightarrow> bool"
  epoch_verify :: "string \<Rightarrow> string \<Rightarrow> bool"
  localIP :: string

datatype buffer_event = Push transaction | Close epoch_size_t

section \<open>Transaction ids\<close>

text \<open>The first eight bytes of the digest, read as an integer of the machine.\<close>

definition le64 :: "byte list \<Rightarrow> 64 word" where
  "le64 bs = foldr (\<lambda>b acc. ucast b + 256 * acc) (take 8 bs) 0"

definition next_tid :: "string \<Rightarrow> string \<Rightarrow> sha256_context \<Rightarrow> tid_size_t \<times> sha256_context" where
  "next_tid signature digest ctx =
     (let (ok1, c1) = helper_append signature ctx; (ok2, c2) = helper_append digest c1; (ok3, d, c3) = helper_execute c2
      in (le64 (bytes_of d), c3))"

abbreviation digest_of :: "transaction \<Rightarrow> string" where
  "digest_of t \<equiv> p_digest (transactionPayload t)"

section \<open>The local loop\<close>

record local_proxy =
  lp_epoch :: epoch_size_t
  lp_proofs :: "string list"
  lp_sent :: "string list"
  lp_raft :: "string list"
  lp_events :: "buffer_event list"

definition newLocalProxy :: "epoch_size_t \<Rightarrow> local_proxy" where
  "newLocalProxy startWithEpoch = \<lparr>lp_epoch = startWithEpoch, lp_proofs = [], lp_sent = [], lp_raft = [], lp_events = []\<rparr>"

definition close_one :: "proxy_env \<Rightarrow> local_proxy \<Rightarrow> local_proxy" where
  "close_one E p =
     (let raw = ser_set E \<lparr>ps_epoch = lp_epoch p, ps_type = CON, ps_proof = [], ps_ip = localIP E, ps_data = lp_proofs p\<rparr>
      in p\<lparr>lp_sent := lp_sent p @ [raw], lp_raft := lp_raft p @ [raw], lp_proofs := [],
           lp_events := lp_events p @ [Close (lp_epoch p)], lp_epoch := lp_epoch p + 1\<rparr>)"

lemma unat_succ:
  fixes a :: epoch_size_t
  assumes "a < b"
  shows "unat (a + 1) = Suc (unat a)"
proof -
  have "Suc (unat a) < 2 ^ 64" using assms unsigned_less[of b, where ?'a = nat] by (simp add: word_less_nat_alt)
  then show ?thesis by (simp add: unat_word_ariths)
qed

lemma close_one_measure: "lp_epoch p < e \<Longrightarrow> unat e - unat (lp_epoch (close_one E p)) < unat e - unat (lp_epoch p)"
proof -
  assume a: "lp_epoch p < e"
  then show ?thesis using unat_succ[OF a] by (simp add: close_one_def Let_def word_less_nat_alt)
qed

function close_epochs :: "proxy_env \<Rightarrow> epoch_size_t \<Rightarrow> local_proxy \<Rightarrow> local_proxy" where
  "close_epochs E e p = (if e > lp_epoch p then close_epochs E e (close_one E p) else p)"
  by pat_completeness auto
termination
  by (relation "measure (\<lambda>(E, e, p). unat e - unat (lp_epoch p))") (simp_all add: close_one_measure)

declare close_epochs.simps [simp del]

fun local_loop :: "proxy_env \<Rightarrow> epoch_size_t \<Rightarrow> string \<Rightarrow> transaction list \<Rightarrow> sha256_context \<Rightarrow> string list \<times> buffer_event list \<Rightarrow>
    (string list \<times> buffer_event list) option" where
  "local_loop E epoch signature [] ctx (data, evs) = Some (data, evs)"
| "local_loop E epoch signature (t # ts) ctx (data, evs) =
     (if epoch \<noteq> tx_epoch t then None
      else Option.bind (ser_tx E t) (\<lambda>raw.
        let (tid, ctx1) = next_tid signature (digest_of t) ctx
        in local_loop E epoch signature ts ctx1 (data @ [raw], evs @ [Push (t\<lparr>tx_tid := tid\<rparr>)])))"

text \<open>One iteration of \<open>receiveFromLocalServer\<close> for a batch and the answer of the epoch server.\<close>

definition local_batch :: "proxy_env \<Rightarrow> string \<times> transaction list \<Rightarrow> local_proxy \<Rightarrow> local_proxy option" where
  "local_batch E batch p =
     (let (responseRaw, transactionList) = batch;
          response = parse_response E responseRaw;
          p1 = close_epochs E (er_epoch response) p;
          p2 = p1\<lparr>lp_proofs := lp_proofs p1 @ [er_signature response]\<rparr>
      in if lp_epoch p2 \<noteq> er_epoch response then None
         else map_option (\<lambda>(data, evs).
             p2\<lparr>lp_events := lp_events p2 @ evs,
                lp_sent := lp_sent p2 @ [ser_set E \<lparr>ps_epoch = lp_epoch p2, ps_type = TX, ps_proof = responseRaw, ps_ip = [], ps_data = data\<rparr>]\<rparr>)
           (local_loop E (lp_epoch p2) (er_signature response) transactionList newSHA256Helper ([], [])))"

section \<open>The check of a batch\<close>

definition verifyBatchHash :: "proxy_env \<Rightarrow> transaction list \<Rightarrow> epoch_response \<Rightarrow> bool" where
  "verifyBatchHash E transactionList response =
     (if length transactionList \<noteq> unat (er_batch_size response) then False
      else let (ok, ctx) = append_all (map digest_of transactionList) newSHA256Helper; (ok2, digest, ctx2) = helper_execute ctx in
        if er_batch_hash response \<noteq> digest then False
        else epoch_verify E (to_string_nat (unat (er_epoch response)) @ er_batch_hash response @ to_string_nat (unat (er_nonce response)))
               (er_signature response))"

section \<open>The receiving loop\<close>

record remote_proxy =
  rp_epoch :: epoch_size_t
  rp_proofs :: "string set"
  rp_events :: "buffer_event list"

definition newRemoteProxy :: "epoch_size_t \<Rightarrow> remote_proxy" where
  "newRemoteProxy startWithEpoch = \<lparr>rp_epoch = startWithEpoch, rp_proofs = {}, rp_events = []\<rparr>"

datatype remote_result = Continue remote_proxy | MaliciousProxy remote_proxy

definition payload_signed :: "proxy_env \<Rightarrow> string \<Rightarrow> payload \<Rightarrow> bool" where
  "payload_signed E ip pl \<longleftrightarrow> user_verify E ip (ser_payload E (pl\<lparr>p_digest := []\<rparr>)) (p_digest pl)"

text \<open>The two workers take every second transaction and stop at the first one whose signature is wrong.\<close>

definition workerSize :: nat where
  "workerSize = 2"

fun worker_loop :: "proxy_env \<Rightarrow> string \<Rightarrow> string list \<Rightarrow> nat list \<Rightarrow> transaction option list \<Rightarrow> (bool \<times> transaction option list) option" where
  "worker_loop E ip data [] slots = Some (True, slots)"
| "worker_loop E ip data (i # is) slots =
     Option.bind (parse_tx E (data ! i)) (\<lambda>t.
       if \<not> payload_signed E ip (transactionPayload t) then Some (False, slots)
       else worker_loop E ip data is (slots[i := Some (setInvalidBit ip t)]))"

definition stride :: "nat \<Rightarrow> nat \<Rightarrow> nat list" where
  "stride w n = filter (\<lambda>i. i mod workerSize = w) [0..<n]"

definition load_batch :: "proxy_env \<Rightarrow> string \<Rightarrow> string list \<Rightarrow> (bool \<times> transaction option list) option" where
  "load_batch E ip data =
     Option.bind (worker_loop E ip data (stride 0 (length data)) (replicate (length data) None)) (\<lambda>(ok0, slots0).
     map_option (\<lambda>(ok1, slots1). (ok0 \<and> ok1, slots1)) (worker_loop E ip data (stride 1 (length data)) slots0))"

fun remote_loop :: "epoch_size_t \<Rightarrow> string \<Rightarrow> transaction list \<Rightarrow> sha256_context \<Rightarrow> buffer_event list \<Rightarrow> buffer_event list option" where
  "remote_loop epoch signature [] ctx evs = Some evs"
| "remote_loop epoch signature (t # ts) ctx evs =
     (if tx_epoch t \<noteq> epoch then None
      else let (tid, ctx1) = next_tid signature (digest_of t) ctx
        in remote_loop epoch signature ts ctx1 (evs @ [Push (t\<lparr>tx_tid := tid\<rparr>)]))"

definition remote_message :: "proxy_env \<Rightarrow> string \<Rightarrow> string \<Rightarrow> remote_proxy \<Rightarrow> remote_result option" where
  "remote_message E ip messageRaw r =
     Option.bind (parse_set E messageRaw) (\<lambda>m.
       if ps_type m = CON
       then if rp_epoch r \<noteq> ps_epoch m \<or> \<not> set (ps_data m) \<subseteq> rp_proofs r \<or> length (ps_data m) \<noteq> card (rp_proofs r) then None
         else Some (Continue (r\<lparr>rp_proofs := {}, rp_events := rp_events r @ [Close (rp_epoch r)], rp_epoch := rp_epoch r + 1\<rparr>))
       else let response = parse_response E (ps_proof m) in
         if rp_epoch r \<noteq> er_epoch response then Some (MaliciousProxy r)
         else let r1 = r\<lparr>rp_proofs := insert (er_signature response) (rp_proofs r)\<rparr> in
           Option.bind (load_batch E ip (ps_data m)) (\<lambda>(payloadSignatureValidFlag, slots).
             if \<not> payloadSignatureValidFlag \<or> \<not> verifyBatchHash E (map the slots) response then Some (MaliciousProxy r1)
             else map_option (\<lambda>evs. Continue (r1\<lparr>rp_events := rp_events r1 @ evs\<rparr>))
               (remote_loop (rp_epoch r1) (er_signature response) (map the slots) newSHA256Helper [])))"

text \<open>The condition under which a waiting receiver gives up, what it does after the exceptions, and the endless loop behind them,
  cut after \<open>n\<close> rounds.\<close>

definition receiver_invalid :: "invalid_bits \<Rightarrow> string \<Rightarrow> epoch_size_t \<Rightarrow> bool" where
  "receiver_invalid bits ip epoch \<longleftrightarrow> snd (bit_of bits ip) \<and> fst (bit_of bits ip) \<le> epoch"

definition report_malicious :: "proxy_env \<Rightarrow> string \<Rightarrow> remote_proxy \<Rightarrow> 'h control_block \<Rightarrow> 'h control_block" where
  "report_malicious E ip r ccb = broadcastMaliciousViewChange (localIP E) ip (rp_epoch r) ccb"

fun drain_epochs :: "nat \<Rightarrow> remote_proxy \<Rightarrow> remote_proxy" where
  "drain_epochs 0 r = r"
| "drain_epochs (Suc n) r = drain_epochs n (r\<lparr>rp_events := rp_events r @ [Close (rp_epoch r)], rp_epoch := rp_epoch r + 1\<rparr>)"

fun remote_run :: "proxy_env \<Rightarrow> string \<Rightarrow> string list \<Rightarrow> remote_proxy \<Rightarrow> remote_result option" where
  "remote_run E ip [] r = Some (Continue r)"
| "remote_run E ip (m # ms) r =
     Option.bind (remote_message E ip m r) (\<lambda>res. case res of Continue r1 \<Rightarrow> remote_run E ip ms r1 | MaliciousProxy r1 \<Rightarrow> Some (MaliciousProxy r1))"

section \<open>Loading a batch\<close>


lemma worker_loop_ok:
  assumes "\<forall>i \<in> set is. i < length slots \<and> parse_tx E (data ! i) = Some (us i) \<and> payload_signed E ip (transactionPayload (us i))"
  shows "worker_loop E ip data is slots = Some (True, map (\<lambda>i. if i \<in> set is then Some (setInvalidBit ip (us i)) else slots ! i) [0..<length slots])"
  using assms
proof (induction "is" arbitrary: slots)
  case Nil
  then show ?case by (simp add: map_nth)
next
  case (Cons i "is")
  let ?s = "slots[i := Some (setInvalidBit ip (us i))]"
  have "worker_loop E ip data is ?s = Some (True, map (\<lambda>i. if i \<in> set is then Some (setInvalidBit ip (us i)) else ?s ! i) [0..<length ?s])"
    using Cons.prems by (intro Cons.IH) simp
  moreover have "(if j \<in> set is then Some (setInvalidBit ip (us j)) else ?s ! j) = (if j \<in> set (i # is) then Some (setInvalidBit ip (us j)) else slots ! j)"
    if "j < length slots" for j using that Cons.prems by (auto simp: nth_list_update)
  ultimately show ?case using Cons.prems by (simp cong: map_cong)
qed

lemma stride_all: "i < n \<Longrightarrow> i \<in> set (stride 0 n) \<or> i \<in> set (stride 1 n)" "set (stride w n) \<subseteq> {..<n}"
  by (auto simp: stride_def workerSize_def)

lemma load_batch_ok:
  assumes "length data = length us" and "\<And>i. i < length us \<Longrightarrow> parse_tx E (data ! i) = Some (us ! i) \<and> payload_signed E ip (transactionPayload (us ! i))"
  shows "load_batch E ip data = Some (True, map (\<lambda>u. Some (setInvalidBit ip u)) us)"
proof -
  let ?n = "length us"
  let ?m = "\<lambda>w slots. map (\<lambda>i. if i \<in> set (stride w ?n) then Some (setInvalidBit ip (us ! i)) else slots ! i) [0..<?n]"
  have w: "worker_loop E ip data (stride w ?n) slots = Some (True, ?m w slots)" if "length slots = ?n" for w slots
    using worker_loop_ok[of "stride w ?n" slots E data "\<lambda>i. us ! i" ip] assms(2) that stride_all(2)[of w ?n] by auto
  have "?m 1 (?m 0 (replicate ?n None)) = map (\<lambda>u. Some (setInvalidBit ip u)) us"
    using stride_all(1)[of _ ?n] by (intro nth_equalityI) auto
  then show ?thesis using w[of "replicate ?n None" 0] w[of "?m 0 (replicate ?n None)" 1] assms(1) by (simp add: load_batch_def)
qed

section \<open>What an honest sender broadcasts is accepted\<close>

definition messages_ok :: "proxy_env \<Rightarrow> bool" where
  "messages_ok E \<longleftrightarrow> (\<forall>m. parse_set E (ser_set E m) = Some m) \<and>
     (\<forall>t raw. ser_tx E t = Some raw \<longrightarrow> parse_tx E raw = Some (t\<lparr>invalidBit := None\<rparr>))"

definition batch_ok :: "proxy_env \<Rightarrow> string \<Rightarrow> string \<times> transaction list \<Rightarrow> bool" where
  "batch_ok E ip batch \<longleftrightarrow> verifyBatchHash E (snd batch) (parse_response E (fst batch)) \<and>
     (\<forall>t \<in> set (snd batch). payload_signed E ip (transactionPayload t))"

fun as_received :: "string \<Rightarrow> buffer_event \<Rightarrow> buffer_event" where
  "as_received ip (Push t) = Push (setInvalidBit ip t)"
| "as_received ip (Close e) = Close e"

text \<open>The receiver has followed the sender.\<close>

definition following :: "string \<Rightarrow> local_proxy \<Rightarrow> remote_proxy \<Rightarrow> bool" where
  "following ip p r \<longleftrightarrow> rp_epoch r = lp_epoch p \<and> rp_proofs r = set (lp_proofs p) \<and> distinct (lp_proofs p) \<and>
     rp_events r = map (as_received ip) (lp_events p)"

lemma remote_run_append:
  "remote_run E ip (ms @ ns) r =
     Option.bind (remote_run E ip ms r) (\<lambda>res. case res of Continue r1 \<Rightarrow> remote_run E ip ns r1 | MaliciousProxy r1 \<Rightarrow> Some (MaliciousProxy r1))"
proof (induction ms arbitrary: r)
  case (Cons m ms)
  show ?case
  proof (cases "remote_message E ip m r")
    case (Some res)
    then show ?thesis using Cons.IH by (cases res) simp_all
  qed simp
qed simp

lemma close_one_followed:
  assumes "messages_ok E" and "following ip p r"
  shows "\<exists>raw r'. lp_sent (close_one E p) = lp_sent p @ [raw] \<and> remote_run E ip [raw] r = Some (Continue r') \<and> following ip (close_one E p) r'"
  using assms by (simp add: close_one_def remote_message_def messages_ok_def following_def distinct_card Let_def)

lemma close_epochs_followed:
  assumes "messages_ok E" and "following ip p r"
  shows "\<exists>ms r'. lp_sent (close_epochs E e p) = lp_sent p @ ms \<and> remote_run E ip ms r = Some (Continue r') \<and> following ip (close_epochs E e p) r'"
  using assms
proof (induction E e p arbitrary: r rule: close_epochs.induct)
  case (1 E e p)
  show ?case
  proof (cases "lp_epoch p < e")
    case True
    obtain raw r1 where 1: "lp_sent (close_one E p) = lp_sent p @ [raw]" "remote_run E ip [raw] r = Some (Continue r1)" "following ip (close_one E p) r1"
      using close_one_followed[OF "1.prems"] by blast
    obtain ms r2 where 2: "lp_sent (close_epochs E e (close_one E p)) = lp_sent (close_one E p) @ ms" "remote_run E ip ms r1 = Some (Continue r2)"
      "following ip (close_epochs E e (close_one E p)) r2"
      using "1.IH"[OF True "1.prems"(1) 1(3)] by blast
    have "remote_run E ip ([raw] @ ms) r = Some (Continue r2)" unfolding remote_run_append using 1(2) 2(2) by simp
    then show ?thesis using True 1(1) 2 by (subst (1 2) close_epochs.simps) (intro exI[of _ "[raw] @ ms"] exI[of _ r2], simp)
  next
    case False
    then show ?thesis using "1.prems" by (subst (1 2) close_epochs.simps) simp
  qed
qed

lemma close_epochs_proofs: "lp_epoch p < e \<Longrightarrow> lp_proofs (close_epochs E e p) = []"
proof (induction E e p rule: close_epochs.induct)
  case (1 E e p)
  have "lp_proofs (close_one E p) = []" by (simp add: close_one_def Let_def)
  moreover have "close_epochs E e (close_one E p) = close_one E p" if "\<not> lp_epoch (close_one E p) < e"
    using that by (subst close_epochs.simps) simp
  ultimately show ?case using 1 by (subst close_epochs.simps) (cases "lp_epoch (close_one E p) < e"; simp)
qed

lemma invalidBit_sel [simp]:
  "transactionPayload (setInvalidBit ip t) = transactionPayload t" "tx_epoch (setInvalidBit ip t) = tx_epoch t"
  "(setInvalidBit ip (t\<lparr>invalidBit := None\<rparr>))\<lparr>tx_tid := n\<rparr> = setInvalidBit ip (t\<lparr>tx_tid := n\<rparr>)"
  by (cases t; simp add: setInvalidBit_def)+

text \<open>The loop over the transactions of a batch: what is serialized parses to the same transactions, and both sides compute
  the same ids.\<close>

lemma local_loop_split:
  assumes "local_loop E e sig ts ctx (data, evs) = Some (data', evs')"
  shows "\<exists>raws us. data' = data @ raws \<and> evs' = evs @ map Push us \<and> list_all2 (\<lambda>t raw. ser_tx E t = Some raw) ts raws \<and>
    remote_loop e sig (map (\<lambda>t. setInvalidBit ip (t\<lparr>invalidBit := None\<rparr>)) ts) ctx gs = Some (gs @ map Push (map (setInvalidBit ip) us))"
  using assms
proof (induction ts arbitrary: ctx data evs gs)
  case (Cons t ts)
  obtain raw where raw: "ser_tx E t = Some raw" "tx_epoch t = e" using Cons.prems by (auto simp: Option.bind_eq_Some_conv split: if_splits)
  obtain tid ctx1 where tid: "next_tid sig (digest_of t) ctx = (tid, ctx1)" by (cases "next_tid sig (digest_of t) ctx")
  have "local_loop E e sig ts ctx1 (data @ [raw], evs @ [Push (t\<lparr>tx_tid := tid\<rparr>)]) = Some (data', evs')"
    using Cons.prems raw tid by simp
  from Cons.IH[OF this, of "gs @ [Push (setInvalidBit ip (t\<lparr>tx_tid := tid\<rparr>))]"] obtain raws us where
    "data' = data @ raw # raws" "evs' = evs @ Push (t\<lparr>tx_tid := tid\<rparr>) # map Push us" "list_all2 (\<lambda>t raw. ser_tx E t = Some raw) ts raws"
    "remote_loop e sig (map (\<lambda>t. setInvalidBit ip (t\<lparr>invalidBit := None\<rparr>)) ts) ctx1 (gs @ [Push (setInvalidBit ip (t\<lparr>tx_tid := tid\<rparr>))]) =
      Some ((gs @ [Push (setInvalidBit ip (t\<lparr>tx_tid := tid\<rparr>))]) @ map Push (map (setInvalidBit ip) us))" by auto
  then show ?case using raw tid
    by (intro exI[of _ "raw # raws"] exI[of _ "t\<lparr>tx_tid := tid\<rparr> # us"]) simp
qed simp

lemma verify_cong: "map digest_of ts = map digest_of us \<Longrightarrow> verifyBatchHash E ts resp = verifyBatchHash E us resp"
  using map_eq_imp_length_eq[of digest_of ts digest_of us] by (simp add: verifyBatchHash_def)

lemma local_batch_followed:
  assumes "messages_ok E" and "batch_ok E ip batch" and "following ip p r" and "local_batch E batch p = Some p'"
    and "er_epoch (parse_response E (fst batch)) = lp_epoch p \<Longrightarrow> er_signature (parse_response E (fst batch)) \<notin> set (lp_proofs p)"
  shows "\<exists>ms r'. lp_sent p' = lp_sent p @ ms \<and> remote_run E ip ms r = Some (Continue r') \<and> following ip p' r'"
proof -
  let ?resp = "parse_response E (fst batch)" and ?ts = "snd batch" and ?in = "\<lambda>t. setInvalidBit ip (t\<lparr>invalidBit := None\<rparr>)"
  let ?p = "close_epochs E (er_epoch ?resp) p"
  obtain ms r1 where 1: "lp_sent ?p = lp_sent p @ ms" "remote_run E ip ms r = Some (Continue r1)" "following ip ?p r1"
    using close_epochs_followed[OF assms(1,3)] by blast
  obtain data evs where l: "local_loop E (lp_epoch ?p) (er_signature ?resp) ?ts newSHA256Helper ([], []) = Some (data, evs)"
    and e: "lp_epoch ?p = er_epoch ?resp"
    and p': "p' = ?p\<lparr>lp_proofs := lp_proofs ?p @ [er_signature ?resp], lp_events := lp_events ?p @ evs,
      lp_sent := lp_sent ?p @ [ser_set E \<lparr>ps_epoch = lp_epoch ?p, ps_type = TX, ps_proof = fst batch, ps_ip = [], ps_data = data\<rparr>]\<rparr>"
    using assms(4) by (cases batch) (auto simp: local_batch_def Let_def split: if_splits)
  let ?m = "\<lparr>ps_epoch = lp_epoch ?p, ps_type = TX, ps_proof = fst batch, ps_ip = [], ps_data = data\<rparr>"
  obtain us where us: "evs = map Push us" "list_all2 (\<lambda>t raw. ser_tx E t = Some raw) ?ts data"
    "remote_loop (lp_epoch ?p) (er_signature ?resp) (map ?in ?ts) newSHA256Helper [] = Some (map Push (map (setInvalidBit ip) us))"
    using local_loop_split[OF l, of ip "[]"] by auto
  have new: "er_signature ?resp \<notin> set (lp_proofs ?p)"
  proof (cases "lp_epoch p < er_epoch ?resp")
    case False
    then have "?p = p" by (subst close_epochs.simps) simp
    then show ?thesis using assms(5) e by simp
  qed (simp add: close_epochs_proofs)
  have "load_batch E ip data = Some (True, map (\<lambda>u. Some (setInvalidBit ip u)) (map (\<lambda>t. t\<lparr>invalidBit := None\<rparr>) ?ts))"
    using us(2) assms(1,2) by (intro load_batch_ok) (auto simp: list_all2_conv_all_nth messages_ok_def batch_ok_def)
  moreover have "verifyBatchHash E (map ?in ?ts) ?resp"
    using assms(2) verify_cong[of "map ?in ?ts" ?ts E ?resp] by (simp add: batch_ok_def comp_def)
  moreover have "parse_set E (ser_set E ?m) = Some ?m" using assms(1) by (simp add: messages_ok_def)
  ultimately have "remote_message E ip (ser_set E ?m) r1 = Some (Continue (r1\<lparr>rp_proofs := insert (er_signature ?resp) (rp_proofs r1),
      rp_events := rp_events r1 @ map Push (map (setInvalidBit ip) us)\<rparr>))" (is "_ = Some (Continue ?r)")
    using 1(3) e us(3) by (simp add: remote_message_def following_def comp_def Let_def)
  then have "remote_run E ip (ms @ [ser_set E ?m]) r = Some (Continue ?r)" unfolding remote_run_append using 1(2) by simp
  moreover have "following ip p' ?r" using 1(3) new us(1) by (simp add: following_def p')
  moreover have "lp_sent p' = lp_sent p @ ms @ [ser_set E ?m]" using 1(1) by (simp add: p')
  ultimately show ?thesis by blast
qed

definition batch_key :: "proxy_env \<Rightarrow> string \<times> transaction list \<Rightarrow> epoch_size_t \<times> string" where
  "batch_key E b = (er_epoch (parse_response E (fst b)), er_signature (parse_response E (fst b)))"

lemma local_batch_state:
  assumes "local_batch E b p = Some p'"
  shows "lp_epoch p' = fst (batch_key E b)"
    "set (lp_proofs p') \<subseteq> insert (snd (batch_key E b)) (if lp_epoch p = fst (batch_key E b) then set (lp_proofs p) else {})"
proof -
  let ?e = "er_epoch (parse_response E (fst b))"
  have p': "lp_epoch p' = lp_epoch (close_epochs E ?e p)" "lp_epoch p' = ?e"
    "lp_proofs p' = lp_proofs (close_epochs E ?e p) @ [er_signature (parse_response E (fst b))]"
    using assms by (cases b; auto simp: local_batch_def Let_def split: if_splits)+
  show "lp_epoch p' = fst (batch_key E b)" using p'(2) by (simp add: batch_key_def)
  show "set (lp_proofs p') \<subseteq> insert (snd (batch_key E b)) (if lp_epoch p = fst (batch_key E b) then set (lp_proofs p) else {})"
  proof (cases "lp_epoch p < ?e")
    case True
    then show ?thesis using p'(3) close_epochs_proofs[OF True, of E] by (simp add: batch_key_def)
  next
    case False
    then have "close_epochs E ?e p = p" by (subst close_epochs.simps) simp
    then show ?thesis using p' by (auto simp: batch_key_def)
  qed
qed

lemma batches_followed:
  assumes "messages_ok E" and "\<forall>b \<in> set bs. batch_ok E ip b" and "distinct (map (batch_key E) bs)"
    and "following ip p r" and "fold_opt (local_batch E) bs p = Some p'"
    and "\<forall>s \<in> set (lp_proofs p). (lp_epoch p, s) \<notin> batch_key E ` set bs"
  shows "\<exists>ms r'. lp_sent p' = lp_sent p @ ms \<and> remote_run E ip ms r = Some (Continue r') \<and> following ip p' r'"
  using assms(2-6)
proof (induction bs arbitrary: p r)
  case (Cons b bs)
  obtain p1 where p1: "local_batch E b p = Some p1" "fold_opt (local_batch E) bs p1 = Some p'"
    using Cons.prems(4) by (auto simp: Option.bind_eq_Some_conv)
  have fresh: "snd (batch_key E b) \<notin> set (lp_proofs p)" if "fst (batch_key E b) = lp_epoch p"
  proof
    assume "snd (batch_key E b) \<in> set (lp_proofs p)"
    then have "(lp_epoch p, snd (batch_key E b)) \<notin> batch_key E ` set (b # bs)" using Cons.prems(5) by blast
    moreover have "(lp_epoch p, snd (batch_key E b)) = batch_key E b" using that by (metis prod.collapse)
    ultimately show False by simp
  qed
  have b: "batch_ok E ip b" using Cons.prems(1) by simp
  obtain ms r1 where 1: "lp_sent p1 = lp_sent p @ ms" "remote_run E ip ms r = Some (Continue r1)" "following ip p1 r1"
    using local_batch_followed[OF assms(1) b Cons.prems(3) p1(1)] fresh by (auto simp: batch_key_def)
  have "(lp_epoch p1, s) \<notin> batch_key E ` set bs" if s: "s \<in> set (lp_proofs p1)" for s
  proof (cases "s = snd (batch_key E b)")
    case True
    then have "(lp_epoch p1, s) = batch_key E b" using local_batch_state(1)[OF p1(1)] by simp
    then show ?thesis using Cons.prems(2) by simp
  next
    case False
    then have "lp_epoch p = lp_epoch p1" "s \<in> set (lp_proofs p)"
      using local_batch_state[OF p1(1)] s by (auto split: if_splits)
    then show ?thesis using Cons.prems(5) by auto
  qed
  then obtain ns r2 where 2: "lp_sent p' = lp_sent p1 @ ns" "remote_run E ip ns r1 = Some (Continue r2)" "following ip p' r2"
    using Cons.IH[OF _ _ 1(3) p1(2)] Cons.prems(1,2) by auto
  have "remote_run E ip (ms @ ns) r = Some (Continue r2)" unfolding remote_run_append using 1(2) 2(2) by simp
  then show ?case using 1(1) 2 by (intro exI[of _ "ms @ ns"] exI[of _ r2]) simp
qed simp

section \<open>The ids\<close>

definition batch_tid :: "string \<Rightarrow> string \<Rightarrow> tid_size_t" where
  "batch_tid signature digest = le64 (sha256_spec (bytes_of (signature @ digest)))"

lemma next_tid_spec:
  assumes "sha_inv [] [] ctx" and "length sig < 2 ^ 32" and "length d < 2 ^ 32"
  shows "\<exists>ctx'. next_tid sig d ctx = (batch_tid sig d, ctx') \<and> sha_inv [] [] ctx'"
proof -
  have "\<forall>s \<in> set [sig, d]. length s < 2 ^ 32" using assms(2,3) by simp
  moreover have "8 * (length ([] :: byte list) + length ([] :: byte list) + length (concat [sig, d])) < 2 ^ 64" using assms(2,3) by simp
  ultimately obtain c p r where c: "append_all [sig, d] ctx = (True, c)" "sha_inv p r c" "p @ r = bytes_of (concat [sig, d])"
    using append_all_inv[OF assms(1)] by (metis append_Nil)
  obtain c' where c': "helper_execute c = (True, string_of (sha256_spec (p @ r)), c')" "sha_inv [] [] c'"
    by (rule helper_execute_spec[OF c(2)])
  show ?thesis using c c' by (auto simp: next_tid_def batch_tid_def Let_def bytes_string split: prod.splits)
qed

lemma local_loop_tids:
  assumes "local_loop E e sig ts ctx (data, evs) = Some (data', evs')" and "sha_inv [] [] ctx" and "length sig < 2 ^ 32"
    and "\<forall>t \<in> set ts. length (digest_of t) < 2 ^ 32"
  shows "evs' = evs @ map (\<lambda>t. Push (t\<lparr>tx_tid := batch_tid sig (digest_of t)\<rparr>)) ts \<and> (\<forall>t \<in> set ts. tx_epoch t = e)"
  using assms(1,2,4)
proof (induction ts arbitrary: ctx data evs)
  case (Cons t ts)
  obtain ctx1 where c: "next_tid sig (digest_of t) ctx = (batch_tid sig (digest_of t), ctx1)" "sha_inv [] [] ctx1"
    using next_tid_spec[OF Cons.prems(2) assms(3)] Cons.prems(3) by auto
  obtain raw where raw: "ser_tx E t = Some raw" "tx_epoch t = e" using Cons.prems(1) by (auto simp: Option.bind_eq_Some_conv split: if_splits)
  have "local_loop E e sig ts ctx1 (data @ [raw], evs @ [Push (t\<lparr>tx_tid := batch_tid sig (digest_of t)\<rparr>)]) = Some (data', evs')"
    using Cons.prems(1) raw c(1) by simp
  from Cons.IH[OF this c(2)] show ?case using Cons.prems(3) raw(2) by simp
qed simp

lemma close_epochs_events: "\<exists>closed. lp_events (close_epochs E e p) = lp_events p @ map Close closed"
proof (induction E e p rule: close_epochs.induct)
  case (1 E e p)
  have one: "lp_events (close_one E p) = lp_events p @ [Close (lp_epoch p)]" by (simp add: close_one_def Let_def)
  show ?case
  proof (cases "lp_epoch p < e")
    case True
    then obtain closed where "lp_events (close_epochs E e (close_one E p)) = lp_events (close_one E p) @ map Close closed" using 1 by blast
    then have "lp_events (close_epochs E e p) = lp_events p @ map Close (lp_epoch p # closed)"
      using True one by (subst close_epochs.simps) simp
    then show ?thesis by blast
  next
    case False
    then show ?thesis by (subst close_epochs.simps) (intro exI[of _ "[]"], simp)
  qed
qed

section \<open>The events drive the buffers\<close>

text \<open>A producer pushes transactions of its current epoch and closes the epochs one after the other.\<close>

fun disciplined :: "epoch_size_t \<Rightarrow> buffer_event list \<Rightarrow> bool" where
  "disciplined e [] = True"
| "disciplined e (Push t # evs) = (tx_epoch t = e \<and> disciplined e evs)"
| "disciplined e (Close k # evs) = (k = e \<and> disciplined (e + 1) evs)"

fun epoch_after :: "epoch_size_t \<Rightarrow> buffer_event list \<Rightarrow> epoch_size_t" where
  "epoch_after e [] = e"
| "epoch_after e (Push t # evs) = epoch_after e evs"
| "epoch_after e (Close k # evs) = epoch_after (e + 1) evs"

lemma disciplined_append [simp]:
  "disciplined e (xs @ ys) \<longleftrightarrow> disciplined e xs \<and> disciplined (epoch_after e xs) ys"
  "epoch_after e (xs @ ys) = epoch_after (epoch_after e xs) ys"
  by (induction e xs rule: disciplined.induct) auto

lemma disciplined_pushes:
  "disciplined e (map Push ts) \<longleftrightarrow> (\<forall>t \<in> set ts. tx_epoch t = e)" "epoch_after e (map Push ts) = e"
  by (induction ts) auto

lemma remote_loop_events:
  "remote_loop e sig ts ctx evs = Some evs' \<Longrightarrow> \<exists>us. evs' = evs @ map Push us \<and> (\<forall>t \<in> set us. tx_epoch t = e)"
proof (induction ts arbitrary: ctx evs)
  case Nil
  then show ?case by (intro exI[of _ "[]"]) simp
next
  case (Cons t ts)
  then have t: "tx_epoch t = e" by (simp split: if_splits)
  obtain tid ctx1 where c: "next_tid sig (digest_of t) ctx = (tid, ctx1)" by (cases "next_tid sig (digest_of t) ctx")
  have "remote_loop e sig ts ctx1 (evs @ [Push (t\<lparr>tx_tid := tid\<rparr>)]) = Some evs'" using Cons.prems t c by simp
  from Cons.IH[OF this] obtain us where "evs' = evs @ Push (t\<lparr>tx_tid := tid\<rparr>) # map Push us" "\<forall>t \<in> set us. tx_epoch t = e" by auto
  then show ?case using t by (intro exI[of _ "t\<lparr>tx_tid := tid\<rparr> # us"]) simp
qed

definition remote_disciplined :: "epoch_size_t \<Rightarrow> remote_proxy \<Rightarrow> bool" where
  "remote_disciplined e r \<longleftrightarrow> disciplined e (rp_events r) \<and> epoch_after e (rp_events r) = rp_epoch r"

lemma remote_message_disciplined:
  assumes "remote_message E ip m r = Some res" and "remote_disciplined e r"
  shows "\<forall>r'. res \<in> {Continue r', MaliciousProxy r'} \<longrightarrow> remote_disciplined e r'"
proof -
  obtain x where x: "parse_set E m = Some x" using assms(1) by (auto simp: remote_message_def Option.bind_eq_Some_conv)
  show ?thesis
  proof (cases "ps_type x = CON")
    case True
    then show ?thesis using assms x by (auto simp: remote_message_def remote_disciplined_def split: if_splits)
  next
    case False
    then show ?thesis using assms x
      by (fastforce simp: remote_message_def remote_disciplined_def Let_def Option.bind_eq_Some_conv disciplined_pushes
          split: if_splits prod.splits dest!: remote_loop_events)
  qed
qed

lemma remote_run_disciplined:
  assumes "remote_run E ip ms r = Some res" and "remote_disciplined e r"
  shows "\<forall>r'. res \<in> {Continue r', MaliciousProxy r'} \<longrightarrow> remote_disciplined e r'"
  using assms
proof (induction ms arbitrary: r)
  case (Cons m ms)
  then obtain res1 where 1: "remote_message E ip m r = Some res1" by (auto simp: Option.bind_eq_Some_conv)
  note d = remote_message_disciplined[OF 1 Cons.prems(2)]
  show ?case
  proof (cases res1)
    case (Continue r1)
    then show ?thesis using Cons.IH[of r1] Cons.prems(1) 1 d by simp
  next
    case (MaliciousProxy r1)
    then show ?thesis using Cons.prems(1) 1 d by simp
  qed
qed auto

lemma drain_disciplined: "remote_disciplined e r \<Longrightarrow> remote_disciplined e (drain_epochs n r)"
  by (induction n arbitrary: r) (simp_all add: remote_disciplined_def)

text \<open>Playing the events of a proxy in the system of buffers.\<close>

fun play :: "nat \<Rightarrow> buffer_event list \<Rightarrow> epoch_system \<Rightarrow> epoch_system option" where
  "play w [] s = Some s"
| "play w (Push t # evs) s =
     Option.bind (pushTransactionToBuffer w t s) (\<lambda>s1. play w evs (s1\<lparr>received := (received s1)(w := received s1 w @ [t])\<rparr>))"
| "play w (Close k # evs) s = play w evs (asyncEmptyBuffer w s)"

lemma push_keeps:
  assumes "pushTransactionToBuffer w t s = Some s1"
  shows "parties s1 = parties s \<and> producer_epoch s1 = producer_epoch s"
proof -
  have loop: "empty_loop n w e s = Some s' \<Longrightarrow> parties s' = parties s \<and> producer_epoch s' = producer_epoch s" for n e s s'
    by (induction n arbitrary: s) (fastforce simp: empty_one_def Option.bind_eq_Some_conv split: list.splits if_splits)+
  show ?thesis using assms
    by (auto simp: pushTransactionToBuffer_def buffer_push_def syncEmptyBuffer_def Option.bind_eq_Some_conv split: if_splits dest!: loop)
qed

lemma play_steps:
  assumes "play w evs s = Some s'" and "disciplined e evs" and "producer_epoch s w = unat e" and "w < parties s" and "unat e + length evs < 2 ^ 64"
  shows "epoch_step\<^sup>*\<^sup>* s s'"
  using assms
proof (induction w evs s arbitrary: e rule: play.induct)
  case (2 w t evs s)
  then obtain s1 where s1: "pushTransactionToBuffer w t s = Some s1" "play w evs (s1\<lparr>received := (received s1)(w := received s1 w @ [t])\<rparr>) = Some s'"
    by (auto simp: Option.bind_eq_Some_conv)
  have "epoch_step s (s1\<lparr>received := (received s1)(w := received s1 w @ [t])\<rparr>)"
    using "2.prems" s1(1) by (intro push) simp_all
  moreover have "epoch_step\<^sup>*\<^sup>* (s1\<lparr>received := (received s1)(w := received s1 w @ [t])\<rparr>) s'"
    using "2.prems" push_keeps[OF s1(1)] by (intro "2.IH"[OF s1, of e]) simp_all
  ultimately show ?case by (rule converse_rtranclp_into_rtranclp)
next
  case (3 w k evs s)
  have "unat (e + 1) = unat e + 1" using "3.prems"(5) by (simp add: unat_word_ariths)
  then have "epoch_step\<^sup>*\<^sup>* (asyncEmptyBuffer w s) s'"
    using "3.prems" by (intro "3.IH"[of "e + 1"]) (simp_all add: asyncEmptyBuffer_def)
  moreover have "epoch_step s (asyncEmptyBuffer w s)" using "3.prems"(4) by (rule close_epoch)
  ultimately show ?case by (rule converse_rtranclp_into_rtranclp[rotated])
qed simp

section \<open>Properties\<close>

text \<open>C8. A receiver accepts everything an honest sender broadcasts. Let the local loop of one server process any list of batches whose
  answers and payloads carry valid signatures and whose answers are distinct within an epoch. Then the loop of another server that
  receives the messages in order finishes without exception and without a failing check, has reached the same epoch, and has done to its
  buffer exactly what the sender did to its own: the same transactions with the same ids in the same
  order, the epochs closed at the same places.\<close>

theorem honest_sender_accepted:
  assumes "messages_ok E" and "\<forall>b \<in> set batches. batch_ok E ip b" and "distinct (map (batch_key E) batches)"
    and "fold_opt (local_batch E) batches (newLocalProxy e) = Some p"
  shows "\<exists>r. remote_run E ip (lp_sent p) (newRemoteProxy e) = Some (Continue r) \<and> rp_epoch r = lp_epoch p \<and>
    rp_events r = map (as_received ip) (lp_events p)"
proof -
  have "following ip (newLocalProxy e) (newRemoteProxy e)" by (simp add: following_def newLocalProxy_def newRemoteProxy_def)
  from batches_followed[OF assms(1-3) this assms(4)] obtain ms r where
    "lp_sent p = ms" "remote_run E ip ms (newRemoteProxy e) = Some (Continue r)" "following ip p r" by (auto simp: newLocalProxy_def)
  then show ?thesis by (auto simp: following_def)
qed

definition set_code :: "proof_set \<Rightarrow> string" where
  "set_code m = nat_code (unat (ps_epoch m)) @ nat_code (case ps_type m of TX \<Rightarrow> 0 | CON \<Rightarrow> 1 | HEARTBEAT \<Rightarrow> 2 | MALICIOUS \<Rightarrow> 3) @
     str_code (ps_proof m) @ str_code (ps_ip m) @ list_code (ps_data m)"

definition set_decode :: "string \<Rightarrow> proof_set option" where
  "set_decode s =
     (let (e, s1) = read_nat s; (t, s2) = read_nat s1; (p, s3) = read_str s2; (ip, s4) = read_str s3; (d, s5) = read_list s4
      in Some \<lparr>ps_epoch = of_nat e, ps_type = (if t = 0 then TX else if t = 1 then CON else if t = 2 then HEARTBEAT else MALICIOUS),
               ps_proof = p, ps_ip = ip, ps_data = d\<rparr>)"

lemma set_decode_code: "set_decode (set_code m) = Some m"
  by (cases "ps_type m") (simp_all add: set_decode_def set_code_def read_nat_code read_str_code read_list_code)

definition sample_env :: proxy_env where
  "sample_env = \<lparr>
     parse_response = (\<lambda>raw. \<lparr>er_epoch = (if raw = [] then 1 else 3), er_batch_size = 1, er_batch_hash = string_of (sha256_spec []), er_nonce = 0, er_signature = raw\<rparr>),
     ser_set = set_code, parse_set = set_decode,
     ser_tx = (\<lambda>t. if invalidBit t = None \<and> t = makeTransaction (tx_epoch t) 0 False then Some (nat_code (unat (tx_epoch t))) else None),
     parse_tx = (\<lambda>raw. Some (makeTransaction (of_nat (fst (read_nat raw))) 0 False)),
     ser_payload = p_payload, user_verify = (\<lambda>ip m s. True), epoch_verify = (\<lambda>m s. True), localIP = ''a''\<rparr>"

lemma sample_messages: "messages_ok sample_env"
proof -
  have "parse_tx sample_env raw = Some (t\<lparr>invalidBit := None\<rparr>)" if "ser_tx sample_env t = Some raw" for t raw
  proof -
    have t: "invalidBit t = None" "t = makeTransaction (tx_epoch t) 0 False" "raw = nat_code (unat (tx_epoch t))"
      using that by (auto simp: sample_env_def split: if_splits)
    have "parse_tx sample_env raw = Some t" using t(2,3) read_nat_code[of _ "[]"] by (simp add: sample_env_def)
    then show ?thesis using t(1) by simp
  qed
  then show ?thesis by (simp add: messages_ok_def) (simp add: sample_env_def set_decode_code)
qed

lemma sample_batch: "batch_ok sample_env ip (responseRaw, [makeTransaction e 0 False])"
proof -
  obtain ctx p r where c: "append_all [[]] newSHA256Helper = (True, ctx)" "sha_inv p r ctx" "p @ r = []"
    using append_all_inv[OF new_helper_inv, of "[[]]"] by auto
  obtain c' where "helper_execute ctx = (True, string_of (sha256_spec (p @ r)), c')" by (rule helper_execute_spec[OF c(2)])
  then show ?thesis using c(1,3)
    by (simp add: batch_ok_def verifyBatchHash_def sample_env_def payload_signed_def makeTransaction_def newMockTransaction_def payload_clear_def)
qed

lemma sample_loop:
  "\<exists>data evs. local_loop sample_env e sig [makeTransaction e 0 False] newSHA256Helper ([], []) = Some (data, evs)"
  by (cases "next_tid sig (digest_of (makeTransaction e 0 False)) newSHA256Helper")
    (simp add: sample_env_def makeTransaction_def newMockTransaction_def)

lemma sample_local:
  assumes "er_epoch (parse_response sample_env responseRaw) = e" and "lp_epoch (close_epochs sample_env e p) = e"
  shows "\<exists>p'. local_batch sample_env (responseRaw, [makeTransaction e 0 False]) p = Some p' \<and> lp_epoch p' = e"
  using assms sample_loop[of e "er_signature (parse_response sample_env responseRaw)"] by (auto simp: local_batch_def Let_def simp del: local_loop.simps)

theorem honest_sender_accepted_witness:
  "\<exists>p r. fold_opt (local_batch sample_env) [([], [makeTransaction 1 0 False]), (''x'', [makeTransaction 3 0 False])] (newLocalProxy 1) = Some p \<and>
    lp_epoch p = 3 \<and> remote_run sample_env ''b'' (lp_sent p) (newRemoteProxy 1) = Some (Continue r) \<and> rp_epoch r = 3"
proof -
  have e: "er_epoch (parse_response sample_env []) = 1" "er_epoch (parse_response sample_env ''x'') = 3" by (simp_all add: sample_env_def)
  have "lp_epoch (close_epochs sample_env 1 (newLocalProxy 1)) = 1" by (subst close_epochs.simps) (simp add: newLocalProxy_def)
  then obtain p1 where p1: "local_batch sample_env ([], [makeTransaction 1 0 False]) (newLocalProxy 1) = Some p1" "lp_epoch p1 = 1"
    using sample_local[OF e(1)] by blast
  have one: "lp_epoch (close_one sample_env q) = lp_epoch q + 1" for q by (simp add: close_one_def Let_def)
  let ?q = "close_one sample_env p1"
  have "close_epochs sample_env 3 p1 = close_epochs sample_env 3 ?q" using p1(2) by (subst close_epochs.simps) simp
  also have "\<dots> = close_epochs sample_env 3 (close_one sample_env ?q)" using p1(2) by (subst close_epochs.simps) (simp add: one)
  also have "\<dots> = close_one sample_env ?q" using p1(2) by (subst close_epochs.simps) (simp add: one)
  finally have "lp_epoch (close_epochs sample_env 3 p1) = 3" using p1(2) by (simp add: one)
  then obtain p where p: "local_batch sample_env (''x'', [makeTransaction 3 0 False]) p1 = Some p" "lp_epoch p = 3"
    using sample_local[OF e(2)] by blast
  let ?bs = "[([], [makeTransaction 1 0 False]), (''x'', [makeTransaction 3 0 False])]"
  have run: "fold_opt (local_batch sample_env) ?bs (newLocalProxy 1) = Some p" using p1(1) p(1) by simp
  have "distinct (map (batch_key sample_env) ?bs)" by (simp add: batch_key_def e)
  then show ?thesis using honest_sender_accepted[OF sample_messages _ _ run, of "''b''"] run p(2) by (auto simp: sample_batch)
qed

text \<open>The id of a transaction depends on nothing but two signatures: after the epochs that the answer shows to be over are closed, a batch is pushed with ids
  that are the first eight bytes, little-endian, of the SHA-256 digest of the answer's signature followed by the digest its user
  signed. In particular no id depends on the server, on the order of the batches or on the place in the batch.\<close>

theorem transaction_ids:
  assumes "local_batch E (responseRaw, ts) p = Some p'" and "length (er_signature (parse_response E responseRaw)) < 2 ^ 32"
    and "\<forall>t \<in> set ts. length (digest_of t) < 2 ^ 32"
  shows "\<exists>closed. lp_events p' = lp_events p @ map Close closed @
    map (\<lambda>t. Push (t\<lparr>tx_tid := batch_tid (er_signature (parse_response E responseRaw)) (digest_of t)\<rparr>)) ts"
proof -
  let ?p = "close_epochs E (er_epoch (parse_response E responseRaw)) p"
  obtain closed where c: "lp_events ?p = lp_events p @ map Close closed" using close_epochs_events by blast
  obtain data evs where l: "local_loop E (lp_epoch ?p) (er_signature (parse_response E responseRaw)) ts newSHA256Helper ([], []) = Some (data, evs)"
    "lp_events p' = lp_events ?p @ evs" using assms(1) by (auto simp: local_batch_def Let_def split: if_splits)
  then show ?thesis using local_loop_tids[OF l(1) new_helper_inv assms(2,3)] c by auto
qed

theorem transaction_ids_witness:
  "\<exists>p' closed. local_batch sample_env ([], [makeTransaction 1 0 False]) (newLocalProxy 1) = Some p' \<and>
    lp_events p' = map Close closed @ [Push ((makeTransaction 1 0 False)\<lparr>tx_tid := batch_tid [] []\<rparr>)]"
proof -
  have "er_epoch (parse_response sample_env []) = 1" by (simp add: sample_env_def)
  moreover have "lp_epoch (close_epochs sample_env 1 (newLocalProxy 1)) = 1" by (subst close_epochs.simps) (simp add: newLocalProxy_def)
  ultimately obtain p' where p': "local_batch sample_env ([], [makeTransaction 1 0 False]) (newLocalProxy 1) = Some p'" using sample_local by blast
  have d: "digest_of (makeTransaction 1 0 False) = []" "er_signature (parse_response sample_env []) = []" "lp_events (newLocalProxy 1) = []"
    by (simp_all add: sample_env_def makeTransaction_def newMockTransaction_def payload_clear_def newLocalProxy_def)
  from transaction_ids[OF p'] d p' show ?thesis by simp
qed



end
