(* ===== verification/Epoch_Server.thy ===== *)
theory Epoch_Server
  imports Client_Proxy
begin

text \<open>
  The epoch server (\<open>EVConsensusManager\<close>, \<open>ev_consensus_manager.cpp\<close>): the thread that answers the batches of the block servers with
  an epoch and a signature, the thread that takes the epochs agreed on by raft, and a group of such servers around a raft log.

  Messages are protobuf's, signatures the crypto library's, and the log is braft's; they are parameters. The clock is read in nanoseconds, and
  \<open>duration\<close> is in the same unit. Of the log only the promise of raft is used: there is one log, it only grows, every entry was pushed by
  some server, and every server applies the entries in order. A pushed message may be committed more than once, because a sender that gets no
  answer sends it again.

  The two threads share \<open>current_epoch\<close> only, which the answering thread reads once for each request; so one request is one step. What
  \<open>push_message_to_raft\<close> has been given is kept in \<open>request_queue\<close>.
\<close>

section \<open>State\<close>

record epoch_request =
  eq_batch_size :: "32 word"
  eq_batch_hash :: string

record epoch_env =
  parse_epoch_request :: "string \<Rightarrow> epoch_request"
  ser_response :: "epoch_response \<Rightarrow> string"
  ser_increase :: "epoch_size_t \<Rightarrow> string"
  parse_increase :: "string \<Rightarrow> epoch_size_t"
  epoch_sign :: "string \<Rightarrow> string"
  duration :: int

record epoch_server =
  current_epoch :: epoch_size_t
  epochApproveMap :: "epoch_size_t \<rightharpoonup> 64 word"
  epochSizeMap :: "epoch_size_t \<rightharpoonup> 64 word"
  totalSize :: "64 word"
  startTime :: int
  sent_increase_message :: bool
  request_queue :: "string list"

definition newEpochServer :: "int \<Rightarrow> epoch_server" where
  "newEpochServer now =
     \<lparr>current_epoch = 1, epochApproveMap = Map.empty, epochSizeMap = Map.empty, totalSize = 0, startTime = now,
      sent_increase_message = False, request_queue = []\<rparr>"

text \<open>\<open>operator[]\<close> of a \<open>std::map\<close>: a missing key is inserted with value 0.\<close>

definition map_ref :: "('k \<rightharpoonup> 64 word) \<Rightarrow> 'k \<Rightarrow> 64 word" where
  "map_ref m k = (case m k of Some v \<Rightarrow> v | None \<Rightarrow> 0)"

definition map_touch :: "'k \<Rightarrow> ('k \<rightharpoonup> 64 word) \<Rightarrow> ('k \<rightharpoonup> 64 word)" where
  "map_touch k m = m(k \<mapsto> map_ref m k)"

definition map_add_to :: "'k \<Rightarrow> 64 word \<Rightarrow> ('k \<rightharpoonup> 64 word) \<Rightarrow> ('k \<rightharpoonup> 64 word)" where
  "map_add_to k n m = m(k \<mapsto> map_ref m k + n)"

section \<open>The two threads\<close>

definition receiver_from_raft :: "epoch_env \<Rightarrow> string \<Rightarrow> epoch_server \<Rightarrow> epoch_server" where
  "receiver_from_raft V epoch_request_raw s =
     (let expect_epoch = parse_increase V epoch_request_raw;
          s1 = s\<lparr>epochApproveMap := map_add_to expect_epoch 1 (epochApproveMap s)\<rparr>
      in if expect_epoch > current_epoch s1 then s1\<lparr>current_epoch := expect_epoch\<rparr> else s1)"

text \<open>The first request of an epoch restarts the timer; the line of the log about the last epoch touches its size.\<close>

definition start_epoch :: "epoch_size_t \<Rightarrow> int \<Rightarrow> epoch_server \<Rightarrow> epoch_server" where
  "start_epoch epochNum now s =
     (if epochSizeMap s epochNum = None
      then s\<lparr>epochSizeMap := (if epochNum \<noteq> 1 then map_touch (epochNum - 1) (epochSizeMap s) else epochSizeMap s),
             startTime := now, sent_increase_message := False\<rparr>
      else s)"

definition check_timer :: "epoch_env \<Rightarrow> epoch_size_t \<Rightarrow> int \<Rightarrow> epoch_server \<Rightarrow> epoch_server" where
  "check_timer V epochNum now s =
     (if now - startTime s > duration V \<and> \<not> sent_increase_message s
      then s\<lparr>request_queue := request_queue s @ [ser_increase V (epochNum + 1)], sent_increase_message := True\<rparr>
      else s)"

text \<open>The string that is signed.\<close>

definition signed_message :: "epoch_size_t \<Rightarrow> string \<Rightarrow> 64 word \<Rightarrow> string" where
  "signed_message epoch batch_hash nonce = to_string_nat (unat epoch) @ batch_hash @ to_string_nat (unat nonce)"

definition answer_request :: "epoch_env \<Rightarrow> epoch_size_t \<Rightarrow> string \<Rightarrow> epoch_server \<Rightarrow> epoch_response \<times> epoch_server" where
  "answer_request V epochNum requestRaw s =
     (let request = parse_epoch_request V requestRaw;
          currentRequestSize = ucast (eq_batch_size request);
          s1 = s\<lparr>totalSize := totalSize s + currentRequestSize,
                 epochSizeMap := map_add_to epochNum currentRequestSize (epochSizeMap s)\<rparr>;
          response = \<lparr>er_epoch = epochNum, er_batch_size = eq_batch_size request, er_batch_hash = eq_batch_hash request, er_nonce = totalSize s1,
                      er_signature = epoch_sign V (signed_message epochNum (eq_batch_hash request) (totalSize s1))\<rparr>
      in (response, s1))"

definition receiver_from_user :: "epoch_env \<Rightarrow> int \<Rightarrow> int \<Rightarrow> string \<Rightarrow> epoch_server \<Rightarrow> string \<times> epoch_server" where
  "receiver_from_user V t1 t2 requestRaw s =
     (let epochNum = current_epoch s;
          (response, s1) = answer_request V epochNum requestRaw (check_timer V epochNum t2 (start_epoch epochNum t1 s))
      in (ser_response V response, s1))"

lemmas server_defs = receiver_from_raft_def receiver_from_user_def answer_request_def check_timer_def start_epoch_def Let_def

section \<open>The group\<close>

record epoch_group =
  g_server :: "nat \<Rightarrow> epoch_server"
  g_log :: "string list"
  g_applied :: "nat \<Rightarrow> nat"

definition newEpochGroup :: "(nat \<Rightarrow> int) \<Rightarrow> epoch_group" where
  "newEpochGroup now = \<lparr>g_server = (\<lambda>i. newEpochServer (now i)), g_log = [], g_applied = (\<lambda>_. 0)\<rparr>"

text \<open>\<open>on_apply\<close> hands one entry after the other to the consumer of the server.\<close>

definition on_apply :: "epoch_env \<Rightarrow> nat \<Rightarrow> epoch_group \<Rightarrow> epoch_group" where
  "on_apply V i g =
     g\<lparr>g_server := (g_server g)(i := receiver_from_raft V (g_log g ! g_applied g i) (g_server g i)),
       g_applied := (g_applied g)(i := g_applied g i + 1)\<rparr>"

inductive group_step :: "epoch_env \<Rightarrow> epoch_group \<Rightarrow> epoch_group \<Rightarrow> bool" for V where
  g_request: "group_step V g (g\<lparr>g_server := (g_server g)(i := snd (receiver_from_user V t1 t2 request (g_server g i)))\<rparr>)"
| g_commit: "m \<in> set (request_queue (g_server g i)) \<Longrightarrow> group_step V g (g\<lparr>g_log := g_log g @ [m]\<rparr>)"
| g_apply: "g_applied g i < length (g_log g) \<Longrightarrow> group_step V g (on_apply V i g)"

section \<open>The epoch of the group\<close>

definition top_epoch :: "epoch_env \<Rightarrow> string list \<Rightarrow> epoch_size_t" where
  "top_epoch V ms = fold (\<lambda>m e. max (parse_increase V m) e) ms 1"

definition increase_ok :: "epoch_env \<Rightarrow> bool" where
  "increase_ok V \<longleftrightarrow> (\<forall>e. parse_increase V (ser_increase V e) = e)"

definition group_inv :: "epoch_env \<Rightarrow> epoch_group \<Rightarrow> bool" where
  "group_inv V g \<longleftrightarrow>
     (\<forall>i. g_applied g i \<le> length (g_log g) \<and> current_epoch (g_server g i) = top_epoch V (take (g_applied g i) (g_log g))) \<and>
     (\<forall>i. \<forall>m \<in> set (request_queue (g_server g i)). unat (parse_increase V m) \<le> unat (top_epoch V (g_log g)) + 1) \<and>
     (\<forall>k < length (g_log g). unat (parse_increase V (g_log g ! k)) \<le> unat (top_epoch V (take k (g_log g))) + 1)"

lemma top_snoc [simp]: "top_epoch V (ms @ [m]) = max (parse_increase V m) (top_epoch V ms)"
  by (simp add: top_epoch_def)

lemma top_take: "top_epoch V (take k ms) \<le> top_epoch V ms"
proof -
  have "e \<le> fold (\<lambda>m e. max (parse_increase V m) e) ns e" for e :: epoch_size_t and ns
  proof (induction ns arbitrary: e)
    case (Cons n ns)
    have "e \<le> max (parse_increase V n) e" by simp
    also have "\<dots> \<le> fold (\<lambda>m e. max (parse_increase V m) e) ns (max (parse_increase V n) e)" by (rule Cons.IH)
    finally show ?case by simp
  qed simp
  from this[of "top_epoch V (take k ms)" "drop k ms"] show ?thesis
    by (simp add: top_epoch_def) (metis append_take_drop_id comp_apply fold_append)
qed

lemma unat_succ_le: "unat (e + 1 :: epoch_size_t) \<le> unat e + 1"
  by (simp add: unat_word_ariths)

lemma request_effect:
  assumes "increase_ok V"
  shows "current_epoch (snd (receiver_from_user V t1 t2 request s)) = current_epoch s"
    and "m \<in> set (request_queue (snd (receiver_from_user V t1 t2 request s))) \<Longrightarrow> m \<in> set (request_queue s) \<or> m = ser_increase V (current_epoch s + 1)"
  by (auto simp: server_defs split: if_splits)

lemma raft_effect:
  "current_epoch (receiver_from_raft V m s) = max (parse_increase V m) (current_epoch s)" "request_queue (receiver_from_raft V m s) = request_queue s"
  by (auto simp: server_defs max_def)

lemma group_inv_step:
  assumes V: "increase_ok V" and step: "group_step V g g'" and inv: "group_inv V g"
  shows "group_inv V g'"
  using step
proof cases
  case (g_request i t1 t2 request)
  have "current_epoch (g_server g i) \<le> top_epoch V (g_log g)" using inv top_take by (metis group_inv_def)
  then have "unat (current_epoch (g_server g i) + 1) \<le> unat (top_epoch V (g_log g)) + 1"
    using unat_succ_le[of "current_epoch (g_server g i)"] by (simp add: word_le_nat_alt)
  then have "unat (parse_increase V m) \<le> unat (top_epoch V (g_log g)) + 1"
    if "m \<in> set (request_queue (snd (receiver_from_user V t1 t2 request (g_server g i))))" for m
    using request_effect(2)[OF V that] inv V by (auto simp: group_inv_def increase_ok_def)
  then show ?thesis using inv by (auto simp: group_inv_def g_request request_effect(1)[OF V])
next
  case (g_commit m i)
  have "unat (top_epoch V (g_log g)) \<le> unat (top_epoch V (g_log g @ [m]))" by (simp add: word_le_nat_alt[symmetric])
  moreover have "unat (parse_increase V m) \<le> unat (top_epoch V (g_log g)) + 1" using g_commit inv by (auto simp: group_inv_def)
  ultimately show ?thesis using inv unfolding group_inv_def g_commit
    by (simp add: nth_append less_Suc_eq all_conj_distrib) (meson le_SucI order_trans Suc_le_mono)
next
  case (g_apply i)
  have "take (Suc (g_applied g i)) (g_log g) = take (g_applied g i) (g_log g) @ [g_log g ! g_applied g i]"
    using g_apply by (simp add: take_Suc_conv_app_nth)
  then show ?thesis using inv g_apply by (auto simp: group_inv_def on_apply_def raft_effect)
qed

lemma group_reachable:
  assumes "increase_ok V" and "(group_step V)\<^sup>*\<^sup>* (newEpochGroup now) g"
  shows "group_inv V g"
  using assms(2)
proof (induction rule: rtranclp_induct)
  case base
  then show ?case by (simp add: group_inv_def newEpochGroup_def newEpochServer_def top_epoch_def)
qed (rule group_inv_step[OF assms(1)])

section \<open>The answers of one server\<close>

datatype server_event = From_Raft string | From_User int int string

fun server_run :: "epoch_env \<Rightarrow> server_event list \<Rightarrow> epoch_server \<Rightarrow> string list \<times> epoch_server" where
  "server_run V [] s = ([], s)"
| "server_run V (From_Raft m # evs) s = server_run V evs (receiver_from_raft V m s)"
| "server_run V (From_User t1 t2 request # evs) s =
     (let (reply, s1) = receiver_from_user V t1 t2 request s; (replies, s2) = server_run V evs s1 in (reply # replies, s2))"

fun requests_of :: "epoch_env \<Rightarrow> server_event list \<Rightarrow> epoch_request list" where
  "requests_of V [] = []"
| "requests_of V (From_Raft m # evs) = requests_of V evs"
| "requests_of V (From_User t1 t2 request # evs) = parse_epoch_request V request # requests_of V evs"

text \<open>The codec of the answers reads back what it wrote, and the signature of a message verifies.\<close>

definition responses_ok :: "proxy_env \<Rightarrow> epoch_env \<Rightarrow> bool" where
  "responses_ok E V \<longleftrightarrow> (\<forall>r. parse_response E (ser_response V r) = r) \<and> (\<forall>m. epoch_verify E m (epoch_sign V m))"

definition request_sizes :: "epoch_request list \<Rightarrow> 64 word" where
  "request_sizes rs = sum_list (map (\<lambda>r. ucast (eq_batch_size r)) rs)"

definition response_of :: "epoch_env \<Rightarrow> epoch_size_t \<Rightarrow> 64 word \<Rightarrow> epoch_request \<Rightarrow> epoch_response" where
  "response_of V epoch nonce request =
     \<lparr>er_epoch = epoch, er_batch_size = eq_batch_size request, er_batch_hash = eq_batch_hash request, er_nonce = nonce,
      er_signature = epoch_sign V (signed_message epoch (eq_batch_hash request) nonce)\<rparr>"

lemma request_reply:
  fixes V request s
  defines "r \<equiv> parse_epoch_request V request"
  shows "fst (receiver_from_user V t1 t2 request s) = ser_response V (response_of V (current_epoch s) (totalSize s + ucast (eq_batch_size r)) r)"
    and "totalSize (snd (receiver_from_user V t1 t2 request s)) = totalSize s + ucast (eq_batch_size r)"
    and "current_epoch (snd (receiver_from_user V t1 t2 request s)) = current_epoch s"
  by (auto simp: server_defs response_of_def r_def)

lemma raft_keeps: "totalSize (receiver_from_raft V m s) = totalSize s" "current_epoch s \<le> current_epoch (receiver_from_raft V m s)"
  by (auto simp: server_defs)

lemma server_run_replies:
  assumes "server_run V evs s = (raws, s')"
  shows "\<exists>epochs. length epochs = length raws \<and> sorted epochs \<and> (\<forall>e \<in> set epochs. current_epoch s \<le> e) \<and> length raws = length (requests_of V evs) \<and>
    (\<forall>k < length raws. raws ! k = ser_response V (response_of V (epochs ! k) (totalSize s + request_sizes (take (Suc k) (requests_of V evs))) (requests_of V evs ! k)))"
  using assms
proof (induction V evs s arbitrary: raws rule: server_run.induct)
  case (2 V m evs s)
  from "2.IH" "2.prems" raft_keeps[where V = V and m = m and s = s] show ?case by (auto intro: order_trans)
next
  case (3 V t1 t2 request evs s)
  let ?r = "parse_epoch_request V request" and ?s1 = "snd (receiver_from_user V t1 t2 request s)"
  obtain rest where rest: "server_run V evs ?s1 = (rest, s')" "raws = fst (receiver_from_user V t1 t2 request s) # rest"
    using "3.prems" by (cases "server_run V evs (snd (receiver_from_user V t1 t2 request s))") (auto simp: split_beta Let_def)
  obtain epochs where e: "length epochs = length rest" "sorted epochs" "\<forall>e \<in> set epochs. current_epoch ?s1 \<le> e" "length rest = length (requests_of V evs)"
    "\<forall>k < length rest. rest ! k = ser_response V (response_of V (epochs ! k) (totalSize ?s1 + request_sizes (take (Suc k) (requests_of V evs))) (requests_of V evs ! k))"
    using "3.IH"[OF refl prod.collapse, OF rest(1)] by blast
  have "raws ! k = ser_response V (response_of V ((current_epoch s # epochs) ! k)
      (totalSize s + request_sizes (take (Suc k) (?r # requests_of V evs))) ((?r # requests_of V evs) ! k))" if "k < length raws" for k
    using that e(5) rest(2) by (cases k) (simp_all add: request_reply request_sizes_def add.assoc)
  then show ?case using e(1-4) rest(2) by (intro exI[of _ "current_epoch s # epochs"]) (auto simp: request_reply)
qed auto

section \<open>One message for each epoch\<close>

definition sent_once :: "epoch_env \<Rightarrow> epoch_server \<Rightarrow> bool" where
  "sent_once V s \<longleftrightarrow>
     distinct (map (parse_increase V) (request_queue s)) \<and>
     (\<forall>m \<in> set (request_queue s). unat (parse_increase V m) \<le> unat (current_epoch s) + 1) \<and>
     (\<forall>e v. epochSizeMap s e = Some v \<longrightarrow> e \<le> current_epoch s) \<and> 1 \<le> current_epoch s \<and>
     (\<forall>m \<in> set (request_queue s). unat (parse_increase V m) = unat (current_epoch s) + 1 \<longrightarrow>
        sent_increase_message s \<and> epochSizeMap s (current_epoch s) \<noteq> None)"

lemma sent_once_raft:
  assumes inv: "sent_once V s"
  shows "sent_once V (receiver_from_raft V m s)"
proof (cases "current_epoch s < parse_increase V m")
  case True
  have below: "unat (parse_increase V x) \<le> unat (parse_increase V m)" if "x \<in> set (request_queue s)" for x
  proof -
    have "unat (parse_increase V x) \<le> unat (current_epoch s) + 1" using inv that by (simp add: sent_once_def)
    then show ?thesis using True by (simp add: word_less_nat_alt)
  qed
  have "e \<le> parse_increase V m" if "epochSizeMap s e = Some v" for e v
    using inv that True unfolding sent_once_def by (meson less_imp_le order_trans)
  then show ?thesis using inv True below by (auto simp: sent_once_def receiver_from_raft_def Let_def intro: order_trans[OF _ less_imp_le] dest: below)
next
  case False
  then show ?thesis using inv by (simp add: sent_once_def receiver_from_raft_def)
qed

lemma unat_pred_le: "1 \<le> e \<Longrightarrow> e - 1 \<le> (e :: epoch_size_t)"
  by (metis linorder_not_le unat_1 unat_sub_if' word_le_nat_alt diff_le_self)

lemma sent_once_user:
  assumes V: "increase_ok V" and inv: "sent_once V s" and e: "unat (current_epoch s) + 1 < 2 ^ 64"
  shows "sent_once V (snd (receiver_from_user V t1 t2 request s))"
proof -
  let ?e = "current_epoch s"
  let ?s1 = "start_epoch ?e t1 s" 
  let ?s2 = "check_timer V ?e t2 ?s1"
  have succ: "unat (?e + 1) = unat ?e + 1" using e by (simp add: unat_word_ariths)
  have f1: "request_queue ?s1 = request_queue s" "current_epoch ?s1 = ?e" "\<forall>k v. epochSizeMap ?s1 k = Some v \<longrightarrow> k \<le> ?e"
    using inv unat_pred_le[of ?e] by (auto simp: start_epoch_def sent_once_def map_touch_def)
  have s1: "\<forall>m \<in> set (request_queue s). unat (parse_increase V m) = unat ?e + 1 \<longrightarrow> sent_increase_message ?s1"
    using inv by (auto simp: start_epoch_def sent_once_def)
  have f2: "current_epoch ?s2 = ?e" "epochSizeMap ?s2 = epochSizeMap ?s1" by (simp_all add: check_timer_def f1)
  have s2: "distinct (map (parse_increase V) (request_queue ?s2))" "\<forall>m \<in> set (request_queue ?s2). unat (parse_increase V m) \<le> unat ?e + 1"
    "\<forall>m \<in> set (request_queue ?s2). unat (parse_increase V m) = unat ?e + 1 \<longrightarrow> sent_increase_message ?s2"
    using inv V s1 f1 succ by (auto simp: check_timer_def sent_once_def increase_ok_def)
  have "snd (receiver_from_user V t1 t2 request s) =
      ?s2\<lparr>totalSize := totalSize ?s2 + ucast (eq_batch_size (parse_epoch_request V request)),
        epochSizeMap := map_add_to ?e (ucast (eq_batch_size (parse_epoch_request V request))) (epochSizeMap ?s2)\<rparr>"
    by (simp add: receiver_from_user_def answer_request_def Let_def)
  then show ?thesis using s2 f1 f2 inv by (auto simp: sent_once_def map_add_to_def)
qed

lemma epoch_mono: "current_epoch s \<le> current_epoch (snd (server_run V evs s))"
proof (induction V evs s rule: server_run.induct)
  case (2 V m evs s)
  then show ?case using raft_keeps(2)[of s V m] by (auto intro: order_trans)
next
  case (3 V t1 t2 request evs s)
  from "3"[OF refl prod.collapse] show ?case by (simp add: split_beta Let_def request_reply(3))
qed simp

lemma sent_once_run:
  assumes "increase_ok V" and "sent_once V s" and "unat (current_epoch (snd (server_run V evs s))) + 1 < 2 ^ 64"
  shows "sent_once V (snd (server_run V evs s))"
  using assms
proof (induction V evs s rule: server_run.induct)
  case (2 V m evs s)
  then show ?case using sent_once_raft by simp
next
  case (3 V t1 t2 request evs s)
  let ?s1 = "snd (receiver_from_user V t1 t2 request s)"
  have "current_epoch s \<le> current_epoch (snd (server_run V evs ?s1))" using epoch_mono[of ?s1 V evs] by (simp add: request_reply(3))
  then have "unat (current_epoch s) + 1 < 2 ^ 64" using "3.prems"(3) by (simp add: split_beta Let_def word_le_nat_alt)
  from sent_once_user[OF "3.prems"(1,2) this] show ?case
    using "3.IH"[OF refl prod.collapse "3.prems"(1)] "3.prems"(3) by (simp add: split_beta Let_def)
qed simp

section \<open>Properties\<close>

text \<open>C17. The epoch servers advance one epoch at a time and agree. Whatever the order of requests, timers, commits and applications, each server's
  epoch is the highest one in the part of the log it has applied, so servers that have applied the same part are in the same
  epoch; and applying the next entry leaves the epoch as it is or advances it by exactly one. No epoch number is skipped, although every server
  may ask for the next epoch and every request may be committed repeatedly.\<close>

theorem epoch_group_advances:
  assumes "increase_ok V" and "(group_step V)\<^sup>*\<^sup>* (newEpochGroup now) g"
  shows "(\<forall>i. current_epoch (g_server g i) = top_epoch V (take (g_applied g i) (g_log g))) \<and>
    (\<forall>i j. g_applied g i = g_applied g j \<longrightarrow> current_epoch (g_server g i) = current_epoch (g_server g j)) \<and>
    (\<forall>i. g_applied g i < length (g_log g) \<longrightarrow> unat (current_epoch (g_server (on_apply V i g) i)) \<in> {unat (current_epoch (g_server g i)), unat (current_epoch (g_server g i)) + 1})"
proof -
  have inv: "group_inv V g" by (rule group_reachable[OF assms])
  have "unat (current_epoch (g_server (on_apply V i g) i)) \<in> {unat (current_epoch (g_server g i)), unat (current_epoch (g_server g i)) + 1}"
    if "g_applied g i < length (g_log g)" for i
  proof -
    have "unat (parse_increase V (g_log g ! g_applied g i)) \<le> unat (current_epoch (g_server g i)) + 1" using inv that by (simp add: group_inv_def)
    then show ?thesis by (auto simp: on_apply_def raft_effect max_def word_le_nat_alt)
  qed
  then show ?thesis using inv by (simp add: group_inv_def)
qed

text \<open>Answers are ordered and bound to their requests. In any interleaving of requests and raft messages, an epoch server gives each request one
  answer, in order; the answers repeat the batch size and hash of their requests, their epochs never go back, the nonce is the number of
  transactions in all requests so far, and the signature is one that the block servers verify.\<close>

theorem epoch_replies_ordered:
  assumes "responses_ok E V" and "server_run V evs (newEpochServer now) = (raws, s)"
  shows "length raws = length (requests_of V evs) \<and> sorted (map (\<lambda>raw. er_epoch (parse_response E raw)) raws) \<and>
    (\<forall>k < length raws. let r = parse_response E (raws ! k); q = requests_of V evs ! k in
       er_batch_size r = eq_batch_size q \<and> er_batch_hash r = eq_batch_hash q \<and> er_nonce r = request_sizes (take (Suc k) (requests_of V evs)) \<and>
       epoch_verify E (to_string_nat (unat (er_epoch r)) @ er_batch_hash r @ to_string_nat (unat (er_nonce r))) (er_signature r))"
proof -
  obtain epochs where e: "length epochs = length raws" "sorted epochs" "length raws = length (requests_of V evs)"
    "\<forall>k < length raws. raws ! k = ser_response V (response_of V (epochs ! k) (request_sizes (take (Suc k) (requests_of V evs))) (requests_of V evs ! k))"
    using server_run_replies[OF assms(2)] by (auto simp: newEpochServer_def)
  have p: "parse_response E (raws ! k) = response_of V (epochs ! k) (request_sizes (take (Suc k) (requests_of V evs))) (requests_of V evs ! k)"
    if "k < length raws" for k using assms(1) e(4) that by (simp add: responses_ok_def)
  then have "map (\<lambda>raw. er_epoch (parse_response E raw)) raws = epochs" using e(1) by (intro nth_equalityI) (simp_all add: response_of_def)
  then show ?thesis using assms(1) e p by (auto simp: response_of_def responses_ok_def signed_message_def Let_def)
qed

text \<open>C34. The signature of an epoch server does not fix the epoch. The signed string is the epoch in decimal, the hash as sent, and the nonce in
  decimal, without separators, and nothing checks the length of the hash. Ask a server that is in epoch 1 about the digest of some
  transactions with the character 1 in front: the signature of the answer is accepted by every block server as one for the same
  transactions in epoch 11.\<close>

theorem epoch_signature_ambiguous:
  assumes "responses_ok E V" and "current_epoch s = 1" and "length ts < 2 ^ 32" and "snd (append_all (map digest_of ts) newSHA256Helper) = ctx"
    and "parse_epoch_request V request = \<lparr>eq_batch_size = of_nat (length ts), eq_batch_hash = ''1'' @ fst (snd (helper_execute ctx))\<rparr>"
    and "parse_response E (fst (receiver_from_user V t1 t2 request s)) = r"
  shows "er_epoch r = 1 \<and> verifyBatchHash E ts (r\<lparr>er_epoch := 11, er_batch_hash := fst (snd (helper_execute ctx))\<rparr>)"
proof -
  have u: "unat (of_nat (length ts) :: 32 word) = length ts" using assms(3) by (simp add: unat_of_nat)
  have d: "to_string_nat 11 = to_string_nat 1 @ ''1''" by (simp add: to_string_nat.simps digit_char_def) code_simp
  have r: "r = response_of V 1 (totalSize s + ucast (of_nat (length ts) :: 32 word)) \<lparr>eq_batch_size = of_nat (length ts), eq_batch_hash = ''1'' @ fst (snd (helper_execute ctx))\<rparr>"
    using assms(1,2,5,6) by (simp add: responses_ok_def request_reply)
  have "epoch_verify E (to_string_nat 11 @ fst (snd (helper_execute ctx)) @ to_string_nat (unat (er_nonce r))) (er_signature r)"
    using assms(1) by (simp add: responses_ok_def r response_of_def signed_message_def d)
  then show ?thesis using assms(4) u by (simp add: verifyBatchHash_def split_beta Let_def) (simp add: r response_of_def)
qed

text \<open>An epoch server asks for each epoch at most once, however many requests arrive after the time is up and however raft messages are
  interleaved.\<close>

theorem increase_requested_once:
  assumes "increase_ok V" and "server_run V evs (newEpochServer now) = (raws, s)" and "unat (current_epoch s) + 1 < 2 ^ 64"
  shows "distinct (map (parse_increase V) (request_queue s)) \<and> (\<forall>m \<in> set (request_queue s). unat (parse_increase V m) \<le> unat (current_epoch s) + 1)"
proof -
  have "sent_once V (newEpochServer now)" by (simp add: sent_once_def newEpochServer_def)
  from sent_once_run[OF assms(1) this, of evs] assms(2,3) show ?thesis by (simp add: sent_once_def)
qed

section \<open>Examples\<close>

definition response_code :: "epoch_response \<Rightarrow> string" where
  "response_code r = nat_code (unat (er_epoch r)) @ nat_code (unat (er_batch_size r)) @ str_code (er_batch_hash r) @ nat_code (unat (er_nonce r)) @ er_signature r"

definition response_decode :: "string \<Rightarrow> epoch_response" where
  "response_decode s =
     (let (e, s1) = read_nat s; (b, s2) = read_nat s1; (h, s3) = read_str s2; (n, s4) = read_nat s3
      in \<lparr>er_epoch = of_nat e, er_batch_size = of_nat b, er_batch_hash = h, er_nonce = of_nat n, er_signature = s4\<rparr>)"

definition sample_epoch_env :: epoch_env where
  "sample_epoch_env = \<lparr>
     parse_epoch_request = (\<lambda>raw. let (n, h) = read_nat raw in \<lparr>eq_batch_size = of_nat n, eq_batch_hash = h\<rparr>),
     ser_response = response_code, ser_increase = (\<lambda>e. nat_code (unat e)), parse_increase = (\<lambda>raw. of_nat (fst (read_nat raw))),
     epoch_sign = (\<lambda>m. CHR ''s'' # m), duration = 5\<rparr>"

definition signed_env :: proxy_env where
  "signed_env = sample_env\<lparr>parse_response := response_decode, epoch_verify := (\<lambda>m sig. sig = CHR ''s'' # m)\<rparr>"

lemma sample_increase: "increase_ok sample_epoch_env"
  using read_nat_code[of _ "[]"] by (simp add: increase_ok_def sample_epoch_env_def)

lemma sample_responses: "responses_ok signed_env sample_epoch_env"
  by (simp add: responses_ok_def sample_epoch_env_def signed_env_def response_decode_def response_code_def read_nat_code read_str_code)

lemma parse_sample_request: "parse_epoch_request sample_epoch_env (nat_code n @ h) = \<lparr>eq_batch_size = of_nat n, eq_batch_hash = h\<rparr>"
  by (simp add: sample_epoch_env_def read_nat_code)

text \<open>Server 0 answers a request after its time is up; the next epoch is committed, and server 1 applies it.\<close>

definition sample_asked :: epoch_group where
  "sample_asked = (newEpochGroup (\<lambda>_. 0))\<lparr>g_server := (g_server (newEpochGroup (\<lambda>_. 0)))(0 :=
     snd (receiver_from_user sample_epoch_env 0 10 (nat_code 1) (newEpochServer 0)))\<rparr>"

definition sample_committed :: epoch_group where
  "sample_committed = sample_asked\<lparr>g_log := g_log sample_asked @ [ser_increase sample_epoch_env 2]\<rparr>"

lemma sample_group_reach: "(group_step sample_epoch_env)\<^sup>*\<^sup>* (newEpochGroup (\<lambda>_. 0)) sample_committed"
proof -
  have "group_step sample_epoch_env (newEpochGroup (\<lambda>_. 0)) sample_asked"
    using g_request[of sample_epoch_env "newEpochGroup (\<lambda>_. 0)" 0 0 10 "nat_code 1"] by (simp add: sample_asked_def newEpochGroup_def)
  moreover have "group_step sample_epoch_env sample_asked sample_committed" unfolding sample_committed_def
    by (rule g_commit[of _ _ 0]) (simp add: sample_asked_def newEpochGroup_def server_defs newEpochServer_def sample_epoch_env_def)
  ultimately show ?thesis by (meson converse_rtranclp_into_rtranclp rtranclp.rtrancl_refl)
qed

theorem epoch_group_advances_witness:
  "unat (current_epoch (g_server (on_apply sample_epoch_env 1 sample_committed) 1)) \<in> {1, 2} \<and>
   current_epoch (g_server sample_committed 0) = current_epoch (g_server sample_committed 1)"
proof -
  have "g_applied sample_committed = (\<lambda>_. 0)" "length (g_log sample_committed) = 1" "current_epoch (g_server sample_committed 1) = 1"
    by (simp_all add: sample_committed_def sample_asked_def newEpochGroup_def newEpochServer_def)
  then show ?thesis using epoch_group_advances[OF sample_increase sample_group_reach] by auto
qed

theorem epoch_replies_ordered_witness:
  "\<exists>raws s. server_run sample_epoch_env [From_User 0 1 (nat_code 3 @ ''h''), From_User 2 3 (nat_code 4)] (newEpochServer 0) = (raws, s) \<and>
     length raws = 2 \<and> er_nonce (parse_response signed_env (raws ! 1)) = 7"
proof -
  let ?evs = "[From_User 0 1 (nat_code 3 @ ''h''), From_User 2 3 (nat_code 4)]"
  obtain raws s where r: "server_run sample_epoch_env ?evs (newEpochServer 0) = (raws, s)" by (cases "server_run sample_epoch_env ?evs (newEpochServer 0)") 
  have q: "requests_of sample_epoch_env ?evs = [\<lparr>eq_batch_size = 3, eq_batch_hash = ''h''\<rparr>, \<lparr>eq_batch_size = 4, eq_batch_hash = []\<rparr>]"
    using parse_sample_request[of 3 "''h''"] parse_sample_request[of 4 "[]"] by simp
  have "request_sizes (requests_of sample_epoch_env ?evs) = 7" unfolding q by (simp add: request_sizes_def)
  then show ?thesis using epoch_replies_ordered[OF sample_responses r] r q by (auto simp: Let_def)
qed

theorem epoch_signature_ambiguous_witness:
  "\<exists>r. parse_response signed_env (fst (receiver_from_user sample_epoch_env 0 1 (nat_code 0 @ ''1'' @ fst (snd (helper_execute newSHA256Helper))) (newEpochServer 0))) = r \<and>
     er_epoch r = 1 \<and> verifyBatchHash signed_env [] (r\<lparr>er_epoch := 11, er_batch_hash := fst (snd (helper_execute newSHA256Helper))\<rparr>)"
  using epoch_signature_ambiguous[OF sample_responses, of "newEpochServer 0" "[]" newSHA256Helper
      "nat_code 0 @ ''1'' @ fst (snd (helper_execute newSHA256Helper))" 0 1] parse_sample_request[of 0]
  by (simp add: newEpochServer_def)

theorem increase_requested_once_witness:
  "\<exists>raws s. server_run sample_epoch_env [From_User 0 10 (nat_code 1), From_User 0 20 (nat_code 1)] (newEpochServer 0) = (raws, s) \<and>
     distinct (map (parse_increase sample_epoch_env) (request_queue s))"
proof -
  let ?evs = "[From_User 0 10 (nat_code 1), From_User 0 20 (nat_code 1)]"
  obtain raws s where r: "server_run sample_epoch_env ?evs (newEpochServer 0) = (raws, s)" by (cases "server_run sample_epoch_env ?evs (newEpochServer 0)") 
  then have "current_epoch s = 1" by (auto simp: split_beta Let_def request_reply(3) newEpochServer_def)
  then show ?thesis using increase_requested_once[OF sample_increase r] r by auto
qed

end
