(* ===== verification/User_Collector.thy ===== *)
theory User_Collector
  imports Epoch_Server
begin

text \<open>
  \<open>UserCollector\<close> (\<open>user_collector.cpp\<close>): it takes the requests of the local users in batches, checks their signatures, asks the epoch servers
  for an epoch and hands the batch with the answer to the client proxy.

  The step relation has the threads of the class (the one that collects, the one that makes batches, and the receivers, which wait for
  answers and ask again when the answer is from an epoch that is over) and one epoch server, which may also serve others and take raft messages
  at any time. A batch is sent to \<open>minEpochServerCount\<close> epoch servers, and the string of the last one's answer overwrites the others;
  the server of the model is that last one. A failing \<open>CHECK\<close> is \<open>None\<close>, and the relation has no step for it.
\<close>

section \<open>Requests\<close>

record user_request =
  ur_payload :: string
  ur_digest :: string

record collector_env =
  parse_user_request :: "string \<Rightarrow> user_request"
  parse_payload :: "string \<Rightarrow> payload"
  ser_epoch_request :: "epoch_request \<Rightarrow> string"

definition USER_REQUEST_BATCH_SIZE :: nat where
  "USER_REQUEST_BATCH_SIZE = 300"

definition collected :: "payload \<Rightarrow> string \<Rightarrow> transaction" where
  "collected pl digest = newMockTransaction\<lparr>readOnlyFlag := False, transactionPayload := pl\<lparr>p_digest := digest\<rparr>\<rparr>"

definition collect_one :: "proxy_env \<Rightarrow> collector_env \<Rightarrow> string \<Rightarrow> transaction option" where
  "collect_one E C requestRaw =
     (let userRequest = parse_user_request C requestRaw
      in if \<not> user_verify E (localIP E) (ur_payload userRequest) (ur_digest userRequest) then None
         else Some (collected (parse_payload C (ur_payload userRequest)) (ur_digest userRequest)))"

fun collect_worker :: "proxy_env \<Rightarrow> collector_env \<Rightarrow> string list \<Rightarrow> nat list \<Rightarrow> transaction option list \<Rightarrow> transaction option list option" where
  "collect_worker E C raws [] slots = Some slots"
| "collect_worker E C raws (i # is) slots =
     Option.bind (collect_one E C (raws ! i)) (\<lambda>t. collect_worker E C raws is (slots[i := Some t]))"

text \<open>The two workers write to different slots, so their order does not matter.\<close>

definition collect_batch :: "proxy_env \<Rightarrow> collector_env \<Rightarrow> string list \<Rightarrow> transaction list option" where
  "collect_batch E C raws =
     map_option (map the)
       (Option.bind (collect_worker E C raws (stride 0 (length raws)) (replicate (length raws) None))
          (collect_worker E C raws (stride 1 (length raws))))"

definition batch_request :: "transaction list \<Rightarrow> epoch_request option" where
  "batch_request ts =
     (let (ok, ctx) = append_all (map digest_of ts) newSHA256Helper; (ok2, digest, ctx2) = helper_execute ctx
      in if ok then Some \<lparr>eq_batch_size = of_nat (length ts), eq_batch_hash = digest\<rparr> else None)"

section \<open>Receivers\<close>

record collector =
  latestEpoch :: epoch_size_t
  pendingTransactions :: "(string \<times> transaction list) list"

definition newCollector :: collector where
  "newCollector = \<lparr>latestEpoch = 1, pendingTransactions = []\<rparr>"

text \<open>What a receiver does with an answer, under the lock: \<open>None\<close> when it has to ask again.\<close>

definition take_reply :: "proxy_env \<Rightarrow> string \<Rightarrow> transaction list \<Rightarrow> collector \<Rightarrow> collector option" where
  "take_reply E responseRaw transactionList c =
     (let response = parse_response E responseRaw
      in if er_epoch response < latestEpoch c then None
         else Some (c\<lparr>latestEpoch := (if er_epoch response > latestEpoch c then er_epoch response else latestEpoch c),
                      pendingTransactions := pendingTransactions c @ [(responseRaw, map (\<lambda>t. t\<lparr>tx_epoch := er_epoch response\<rparr>) transactionList)]\<rparr>))"

datatype flight = No_Flight | Asked string "transaction list" | Answered string string "transaction list"

record collect_system =
  cs_buffer :: "string list"
  cs_flight :: "nat \<Rightarrow> flight"
  cs_next :: nat
  cs_collector :: collector
  cs_server :: epoch_server
  cs_received :: "string list"
  cs_total :: nat

definition newCollectSystem :: "int \<Rightarrow> collect_system" where
  "newCollectSystem now =
     \<lparr>cs_buffer = [], cs_flight = (\<lambda>_. No_Flight), cs_next = 0, cs_collector = newCollector, cs_server = newEpochServer now,
      cs_received = [], cs_total = 0\<rparr>"

text \<open>\<open>cs_received\<close> has all user requests, and \<open>cs_total\<close> counts the transactions the epoch server was asked about.\<close>

definition cs_serve :: "epoch_env \<Rightarrow> int \<Rightarrow> int \<Rightarrow> string \<Rightarrow> collect_system \<Rightarrow> string \<times> collect_system" where
  "cs_serve V t1 t2 request s =
     (let (reply, server) = receiver_from_user V t1 t2 request (cs_server s)
      in (reply, s\<lparr>cs_server := server, cs_total := cs_total s + unat (eq_batch_size (parse_epoch_request V request))\<rparr>))"

definition collectRequest :: "string \<Rightarrow> collect_system \<Rightarrow> collect_system" where
  "collectRequest message s = s\<lparr>cs_buffer := cs_buffer s @ [message], cs_received := cs_received s @ [message]\<rparr>"

definition processBatch :: "proxy_env \<Rightarrow> collector_env \<Rightarrow> nat \<Rightarrow> collect_system \<Rightarrow> collect_system option" where
  "processBatch E C requestSize s =
     Option.bind (collect_batch E C (take requestSize (cs_buffer s))) (\<lambda>transactionList.
     map_option (\<lambda>request.
         s\<lparr>cs_buffer := drop requestSize (cs_buffer s), cs_next := cs_next s + 1,
           cs_flight := (cs_flight s)(cs_next s := Asked (ser_epoch_request C request) transactionList)\<rparr>)
       (batch_request transactionList))"

definition receive_reply :: "proxy_env \<Rightarrow> nat \<Rightarrow> string \<Rightarrow> string \<Rightarrow> transaction list \<Rightarrow> collect_system \<Rightarrow> collect_system" where
  "receive_reply E b responseRaw request transactionList s =
     (case take_reply E responseRaw transactionList (cs_collector s) of
        None \<Rightarrow> s\<lparr>cs_flight := (cs_flight s)(b := Asked request transactionList)\<rparr>
      | Some c \<Rightarrow> s\<lparr>cs_flight := (cs_flight s)(b := No_Flight), cs_collector := c\<rparr>)"

inductive cs_step :: "proxy_env \<Rightarrow> epoch_env \<Rightarrow> collector_env \<Rightarrow> collect_system \<Rightarrow> collect_system \<Rightarrow> bool" for E V C where
  cs_collect: "cs_step E V C s (collectRequest message s)"
| cs_batch: "0 < n \<Longrightarrow> n \<le> USER_REQUEST_BATCH_SIZE \<Longrightarrow> n \<le> length (cs_buffer s) \<Longrightarrow> processBatch E C n s = Some s' \<Longrightarrow> cs_step E V C s s'"
| cs_answer: "cs_flight s b = Asked request ts \<Longrightarrow> cs_serve V t1 t2 request s = (reply, s') \<Longrightarrow>
    cs_step E V C s (s'\<lparr>cs_flight := (cs_flight s')(b := Answered reply request ts)\<rparr>)"
| cs_receive: "cs_flight s b = Answered reply request ts \<Longrightarrow> cs_step E V C s (receive_reply E b reply request ts s)"
| cs_other: "cs_serve V t1 t2 request s = (reply, s') \<Longrightarrow> cs_step E V C s s'"
| cs_raft: "cs_step E V C s (s\<lparr>cs_server := receiver_from_raft V m (cs_server s)\<rparr>)"

section \<open>Collecting a batch\<close>

lemma collect_worker_spec:
  assumes "\<forall>i \<in> set is. i < length slots"
  shows "collect_worker E C raws is slots =
    (if \<forall>i \<in> set is. collect_one E C (raws ! i) \<noteq> None
     then Some (map (\<lambda>i. if i \<in> set is then collect_one E C (raws ! i) else slots ! i) [0..<length slots]) else None)"
  using assms
proof (induction "is" arbitrary: slots)
  case Nil
  then show ?case by (simp add: map_nth)
next
  case (Cons i "is")
  show ?case
  proof (cases "collect_one E C (raws ! i)")
    case (Some t)
    have "(if j \<in> set is then collect_one E C (raws ! j) else slots[i := Some t] ! j) =
        (if j \<in> set (i # is) then collect_one E C (raws ! j) else slots ! j)" if "j < length slots" for j
      using that Some by (auto simp: nth_list_update)
    then show ?thesis using Cons Some by (simp cong: map_cong)
  qed simp
qed

lemma collect_batch_spec:
  "collect_batch E C raws = (if \<forall>raw \<in> set raws. collect_one E C raw \<noteq> None then Some (map (\<lambda>raw. the (collect_one E C raw)) raws) else None)"
proof -
  let ?n = "length raws"
  let ?P = "\<lambda>w. \<forall>i \<in> set (stride w ?n). collect_one E C (raws ! i) \<noteq> None"
  let ?m = "\<lambda>w slots. map (\<lambda>i. if i \<in> set (stride w ?n) then collect_one E C (raws ! i) else slots ! i) [0..<?n]"
  have all: "(\<forall>r \<in> set raws. collect_one E C r \<noteq> None) \<longleftrightarrow> ?P 0 \<and> ?P 1"
  proof
    assume "\<forall>r \<in> set raws. collect_one E C r \<noteq> None"
    then show "?P 0 \<and> ?P 1" using stride_all(2)[of _ ?n] by (meson lessThan_iff nth_mem subsetD)
  next
    assume "?P 0 \<and> ?P 1"
    then have "collect_one E C (raws ! i) \<noteq> None" if "i < ?n" for i using stride_all(1)[OF that] by blast
    then show "\<forall>r \<in> set raws. collect_one E C r \<noteq> None" by (metis in_set_conv_nth)
  qed
  have w: "collect_worker E C raws (stride w ?n) slots = (if ?P w then Some (?m w slots) else None)" if "length slots = ?n" for w slots
  proof -
    have "\<forall>i \<in> set (stride w ?n). i < length slots" using stride_all(2)[of w ?n] that by auto
    from collect_worker_spec[OF this] show ?thesis unfolding that .
  qed
  have "map the (?m 1 (?m 0 (replicate ?n None))) = map (\<lambda>r. the (collect_one E C r)) raws"
    using stride_all(1)[of _ ?n] by (intro nth_equalityI) auto
  then show ?thesis unfolding collect_batch_def all w[OF length_replicate]
    using w[of "?m 0 (replicate ?n None)" 1] by (cases "?P 0"; cases "?P 1") simp_all
qed

section \<open>The invariant\<close>

text \<open>What the properties assume of the libraries: codecs read back what they wrote, a signature verifies and no two messages have the same one,
  and the transactions of users can be serialized.\<close>

definition env_ok :: "proxy_env \<Rightarrow> epoch_env \<Rightarrow> collector_env \<Rightarrow> bool" where
  "env_ok E V C \<longleftrightarrow> messages_ok E \<and> responses_ok E V \<and> inj (epoch_sign V) \<and> (\<forall>q. parse_epoch_request V (ser_epoch_request C q) = q) \<and>
     (\<forall>pl d e. ser_tx E ((collected pl d)\<lparr>tx_epoch := e\<rparr>) \<noteq> None)"

text \<open>The user has signed the bytes that the payload is serialized to, without the field for the signature.\<close>

definition canonical :: "proxy_env \<Rightarrow> collector_env \<Rightarrow> string \<Rightarrow> bool" where
  "canonical E C message \<longleftrightarrow>
     (let bytes = ur_payload (parse_user_request C message) in ser_payload E ((parse_payload C bytes)\<lparr>p_digest := []\<rparr>) = bytes)"

definition batch_made :: "proxy_env \<Rightarrow> transaction list \<Rightarrow> bool" where
  "batch_made E ts \<longleftrightarrow> 0 < length ts \<and> length ts \<le> USER_REQUEST_BATCH_SIZE \<and>
     (\<forall>t \<in> set ts. (\<exists>pl d. t = collected pl d) \<and> payload_signed E (localIP E) (transactionPayload t))"

definition asked_ok :: "proxy_env \<Rightarrow> collector_env \<Rightarrow> string \<Rightarrow> transaction list \<Rightarrow> bool" where
  "asked_ok E C request ts \<longleftrightarrow> batch_made E ts \<and> map_option (ser_epoch_request C) (batch_request ts) = Some request"

definition reply_ok :: "epoch_env \<Rightarrow> nat \<Rightarrow> string \<Rightarrow> string \<Rightarrow> bool" where
  "reply_ok V issued request reply \<longleftrightarrow>
     (\<exists>e n. reply = ser_response V (response_of V e n (parse_epoch_request V request)) \<and> 1 \<le> e \<and> unat n \<le> issued)"

fun flight_ok :: "proxy_env \<Rightarrow> epoch_env \<Rightarrow> collector_env \<Rightarrow> nat \<Rightarrow> flight \<Rightarrow> bool" where
  "flight_ok E V C issued No_Flight \<longleftrightarrow> True"
| "flight_ok E V C issued (Asked request ts) \<longleftrightarrow> asked_ok E C request ts"
| "flight_ok E V C issued (Answered reply request ts) \<longleftrightarrow> asked_ok E C request ts \<and> reply_ok V issued request reply"

definition handed_ok :: "proxy_env \<Rightarrow> epoch_env \<Rightarrow> collector_env \<Rightarrow> nat \<Rightarrow> string \<times> transaction list \<Rightarrow> bool" where
  "handed_ok E V C issued b \<longleftrightarrow> (\<exists>request ts. asked_ok E C request ts \<and> reply_ok V issued request (fst b) \<and>
     snd b = map (\<lambda>t. t\<lparr>tx_epoch := er_epoch (parse_response E (fst b))\<rparr>) ts)"

abbreviation nonce_of :: "proxy_env \<Rightarrow> string \<Rightarrow> 64 word" where
  "nonce_of E reply \<equiv> er_nonce (parse_response E reply)"

abbreviation epochs_of :: "proxy_env \<Rightarrow> (string \<times> transaction list) list \<Rightarrow> epoch_size_t list" where
  "epochs_of E bs \<equiv> map (\<lambda>b. er_epoch (parse_response E (fst b))) bs"

fun flight_nonce :: "proxy_env \<Rightarrow> flight \<Rightarrow> 64 word option" where
  "flight_nonce E (Answered reply request ts) = Some (nonce_of E reply)"
| "flight_nonce E _ = None"

definition nonces_ok :: "proxy_env \<Rightarrow> (nat \<Rightarrow> flight) \<Rightarrow> (string \<times> transaction list) list \<Rightarrow> bool" where
  "nonces_ok E fl bs \<longleftrightarrow> distinct (map (\<lambda>b. nonce_of E (fst b)) bs) \<and>
     (\<forall>i. \<forall>b \<in> set bs. flight_nonce E (fl i) \<noteq> Some (nonce_of E (fst b))) \<and>
     (\<forall>i j. flight_nonce E (fl i) \<noteq> None \<longrightarrow> flight_nonce E (fl i) = flight_nonce E (fl j) \<longrightarrow> i = j)"

definition collector_ok :: "proxy_env \<Rightarrow> collector \<Rightarrow> bool" where
  "collector_ok E c \<longleftrightarrow> 1 \<le> latestEpoch c \<and> sorted (epochs_of E (pendingTransactions c)) \<and>
     (\<forall>e \<in> set (epochs_of E (pendingTransactions c)). 1 \<le> e \<and> e \<le> latestEpoch c)"

definition cs_inv :: "proxy_env \<Rightarrow> epoch_env \<Rightarrow> collector_env \<Rightarrow> collect_system \<Rightarrow> bool" where
  "cs_inv E V C s \<longleftrightarrow>
     set (cs_buffer s) \<subseteq> set (cs_received s) \<and> unat (totalSize (cs_server s)) = cs_total s \<and> 1 \<le> current_epoch (cs_server s) \<and>
     (\<forall>i. flight_ok E V C (cs_total s) (cs_flight s i)) \<and> (\<forall>b \<in> set (pendingTransactions (cs_collector s)). handed_ok E V C (cs_total s) b) \<and>
     collector_ok E (cs_collector s) \<and> nonces_ok E (cs_flight s) (pendingTransactions (cs_collector s))"

lemma reply_ok_mono: "reply_ok V m request reply \<Longrightarrow> m \<le> n \<Longrightarrow> reply_ok V n request reply"
  unfolding reply_ok_def using order_trans by blast

lemma flight_ok_mono: "flight_ok E V C m f \<Longrightarrow> m \<le> n \<Longrightarrow> flight_ok E V C n f"
  by (cases f) (auto intro: reply_ok_mono)

lemma handed_ok_mono: "handed_ok E V C m b \<Longrightarrow> m \<le> n \<Longrightarrow> handed_ok E V C n b"
  unfolding handed_ok_def using reply_ok_mono by blast

lemma collect_one_made:
  assumes "collect_one E C message = Some t" and "canonical E C message"
  shows "(\<exists>pl d. t = collected pl d) \<and> payload_signed E (localIP E) (transactionPayload t)"
  using assms by (auto simp: collect_one_def canonical_def payload_signed_def collected_def Let_def split: if_splits)

lemma collect_batch_made:
  assumes "collect_batch E C raws = Some ts" and "\<forall>r \<in> set raws. canonical E C r" and "0 < length raws" and "length raws \<le> USER_REQUEST_BATCH_SIZE"
  shows "batch_made E ts"
proof -
  have all: "\<forall>r \<in> set raws. collect_one E C r \<noteq> None" and ts: "ts = map (\<lambda>r. the (collect_one E C r)) raws"
    using assms(1) by (simp_all add: collect_batch_spec split: if_splits)
  have "(\<exists>pl d. t = collected pl d) \<and> payload_signed E (localIP E) (transactionPayload t)" if t: "t \<in> set ts" for t
  proof -
    obtain r where "r \<in> set raws" "collect_one E C r = Some t" using t all ts by force
    then show ?thesis using collect_one_made assms(2) by blast
  qed
  then show ?thesis using assms(3,4) ts by (simp add: batch_made_def)
qed

lemma unat_widen: "unat (ucast w :: 64 word) = unat (w :: 32 word)"
proof -
  have "unat w < 2 ^ 64" using unsigned_less[of w, where ?'a = nat] by simp
  then show ?thesis by (simp add: unsigned_ucast_eq take_bit_nat_eq_self)
qed

lemma serve_parts:
  assumes "cs_serve V t1 t2 request s = (reply, s')" and "1 \<le> current_epoch (cs_server s)" and "unat (totalSize (cs_server s)) = cs_total s"
    and "cs_total s' < 2 ^ 64"
  shows "s' = s\<lparr>cs_server := cs_server s', cs_total := cs_total s'\<rparr>" and "cs_total s' = cs_total s + unat (eq_batch_size (parse_epoch_request V request))"
    and "1 \<le> current_epoch (cs_server s')" and "unat (totalSize (cs_server s')) = cs_total s'"
    and "\<exists>e. reply = ser_response V (response_of V e (totalSize (cs_server s')) (parse_epoch_request V request)) \<and> 1 \<le> e"
proof -
  let ?r = "receiver_from_user V t1 t2 request (cs_server s)" and ?n = "unat (eq_batch_size (parse_epoch_request V request))"
  have eq: "reply = fst ?r" "s' = s\<lparr>cs_server := snd ?r, cs_total := cs_total s + ?n\<rparr>" using assms(1) by (auto simp: cs_serve_def split_beta Let_def)
  then show "s' = s\<lparr>cs_server := cs_server s', cs_total := cs_total s'\<rparr>" "cs_total s' = cs_total s + ?n" by simp_all
  show "1 \<le> current_epoch (cs_server s')" using assms(2) by (simp add: eq request_reply(3))
  have "cs_total s + ?n < 2 ^ 64" using assms(4) eq by simp
  then show "unat (totalSize (cs_server s')) = cs_total s'"
    using assms(3) by (simp add: eq request_reply(2) unat_word_ariths unat_widen)
  show "\<exists>e. reply = ser_response V (response_of V e (totalSize (cs_server s')) (parse_epoch_request V request)) \<and> 1 \<le> e"
    using assms(2) by (auto simp: eq request_reply)
qed

text \<open>How the nonces move.\<close>

lemma nonces_forget: "nonces_ok E fl bs \<Longrightarrow> flight_nonce E f = None \<Longrightarrow> nonces_ok E (fl(i := f)) bs"
  unfolding nonces_ok_def by (auto split: if_splits)

lemma nonces_new:
  assumes "nonces_ok E fl bs" and "flight_nonce E f = Some n" and "\<forall>b \<in> set bs. nonce_of E (fst b) \<noteq> n" and "\<forall>j. flight_nonce E (fl j) \<noteq> Some n"
  shows "nonces_ok E (fl(i := f)) bs"
  unfolding nonces_ok_def
proof (intro conjI allI ballI impI)
  fix j k assume "flight_nonce E ((fl(i := f)) j) \<noteq> None" "flight_nonce E ((fl(i := f)) j) = flight_nonce E ((fl(i := f)) k)"
  then show "j = k" using assms(1,2,4) unfolding nonces_ok_def by (metis fun_upd_apply)
qed (use assms in \<open>auto simp: nonces_ok_def\<close>)

lemma nonces_hand:
  assumes "nonces_ok E fl bs" and "flight_nonce E (fl i) = Some (nonce_of E (fst b))"
  shows "nonces_ok E (fl(i := No_Flight)) (bs @ [b])"
  unfolding nonces_ok_def
proof (intro conjI allI ballI impI)
  show "distinct (map (\<lambda>b. nonce_of E (fst b)) (bs @ [b]))" using assms unfolding nonces_ok_def by fastforce
next
  fix j c assume "c \<in> set (bs @ [b])"
  then show "flight_nonce E ((fl(i := No_Flight)) j) \<noteq> Some (nonce_of E (fst c))" using assms unfolding nonces_ok_def by (cases "j = i") auto
next
  fix j k assume "flight_nonce E ((fl(i := No_Flight)) j) \<noteq> None" "flight_nonce E ((fl(i := No_Flight)) j) = flight_nonce E ((fl(i := No_Flight)) k)"
  then show "j = k" using assms(1) unfolding nonces_ok_def by (cases "j = i"; cases "k = i") auto
qed

lemma reply_nonce:
  assumes "responses_ok E V" and "reply_ok V issued request reply"
  shows "unat (nonce_of E reply) \<le> issued" and "1 \<le> er_epoch (parse_response E reply)"
  using assms by (auto simp: reply_ok_def responses_ok_def response_of_def)

lemma flight_nonce_issued: "responses_ok E V \<Longrightarrow> flight_ok E V C issued f \<Longrightarrow> flight_nonce E f = Some n \<Longrightarrow> unat n \<le> issued"
  by (cases f) (auto dest: reply_nonce)

lemma asked_size: "asked_ok E C request ts \<Longrightarrow> \<forall>q. parse_epoch_request V (ser_epoch_request C q) = q \<Longrightarrow> 0 < unat (eq_batch_size (parse_epoch_request V request))"
  by (auto simp: asked_ok_def batch_made_def batch_request_def USER_REQUEST_BATCH_SIZE_def split_beta Let_def unat_of_nat split: if_splits)

lemma take_reply_ok:
  assumes "collector_ok E c" and "take_reply E reply ts c = Some c'" and "1 \<le> er_epoch (parse_response E reply)"
  shows "collector_ok E c'" and "pendingTransactions c' = pendingTransactions c @ [(reply, map (\<lambda>t. t\<lparr>tx_epoch := er_epoch (parse_response E reply)\<rparr>) ts)]"
proof -
  let ?e = "er_epoch (parse_response E reply)"
  have e: "latestEpoch c \<le> ?e" and c': "c' = c\<lparr>latestEpoch := ?e, pendingTransactions := pendingTransactions c @ [(reply, map (\<lambda>t. t\<lparr>tx_epoch := ?e\<rparr>) ts)]\<rparr>"
    using assms(2) by (auto simp: take_reply_def Let_def split: if_splits)
  then show "pendingTransactions c' = pendingTransactions c @ [(reply, map (\<lambda>t. t\<lparr>tx_epoch := ?e\<rparr>) ts)]" by simp
  show "collector_ok E c'" using assms(1,3) e order_trans[OF _ e] by (auto simp: collector_ok_def c' sorted_append)
qed

lemma cs_total_mono: "cs_step E V C s s' \<Longrightarrow> cs_total s \<le> cs_total s'"
  by (induction rule: cs_step.induct)
    (auto simp: collectRequest_def processBatch_def receive_reply_def cs_serve_def split_beta Let_def Option.bind_eq_Some_conv split: option.splits)

lemma cs_received_mono: "cs_step E V C s s' \<Longrightarrow> set (cs_received s) \<subseteq> set (cs_received s')"
  by (induction rule: cs_step.induct)
    (auto simp: collectRequest_def processBatch_def receive_reply_def cs_serve_def split_beta Let_def Option.bind_eq_Some_conv split: option.splits)

lemma inv_serve:
  assumes env: "env_ok E V C" and inv: "cs_inv E V C s" and serve: "cs_serve V t1 t2 request s = (reply, s')" and lt: "cs_total s' < 2 ^ 64"
  shows "cs_inv E V C s'" and "reply_ok V (cs_total s') request reply" and "nonce_of E reply = totalSize (cs_server s')"
proof -
  have p: "1 \<le> current_epoch (cs_server s)" "unat (totalSize (cs_server s)) = cs_total s" using inv by (simp_all add: cs_inv_def)
  note q = serve_parts[OF serve p lt]
  have le: "cs_total s \<le> cs_total s'" using q(2) by simp
  show "cs_inv E V C s'"
    using inv q(3,4) flight_ok_mono[OF _ le] handed_ok_mono[OF _ le] by (subst q(1)) (simp add: cs_inv_def)
  show "reply_ok V (cs_total s') request reply" unfolding reply_ok_def using q(4,5) by (metis order_refl)
  show "nonce_of E reply = totalSize (cs_server s')" using q(5) env by (auto simp: env_ok_def responses_ok_def response_of_def)
qed

lemma inv_answer:
  assumes env: "env_ok E V C" and inv: "cs_inv E V C s" and fl: "cs_flight s i = Asked request ts"
    and serve: "cs_serve V t1 t2 request s = (reply, s')" and lt: "cs_total s' < 2 ^ 64"
  shows "cs_inv E V C (s'\<lparr>cs_flight := (cs_flight s')(i := Answered reply request ts)\<rparr>)"
proof -
  note iv = inv_serve[OF env inv serve lt]
  have p: "1 \<le> current_epoch (cs_server s)" "unat (totalSize (cs_server s)) = cs_total s" using inv by (simp_all add: cs_inv_def)
  note q = serve_parts[OF serve p lt]
  have R: "responses_ok E V" using env by (simp add: env_ok_def)
  have same: "cs_flight s' = cs_flight s" "cs_collector s' = cs_collector s" by (subst q(1); simp)+
  have asked: "asked_ok E C request ts" using inv fl unfolding cs_inv_def by (metis flight_ok.simps(2))
  then have "cs_total s < cs_total s'" using q(2) asked_size[of E C request ts V] env by (simp add: env_ok_def)
  then have new: "cs_total s < unat (nonce_of E reply)" using iv(3) q(4) by simp
  have old: "\<forall>b \<in> set (pendingTransactions (cs_collector s)). nonce_of E (fst b) \<noteq> nonce_of E reply"
    using inv new reply_nonce(1)[OF R] unfolding cs_inv_def handed_ok_def by fastforce
  have "\<forall>j. flight_nonce E (cs_flight s j) \<noteq> Some (nonce_of E reply)"
    using inv new flight_nonce_issued[OF R] unfolding cs_inv_def by (metis not_less)
  then have "nonces_ok E ((cs_flight s)(i := Answered reply request ts)) (pendingTransactions (cs_collector s))"
    using inv old by (intro nonces_new[where n = "nonce_of E reply"]) (simp_all add: cs_inv_def)
  then show ?thesis using iv(1,2) asked by (simp add: cs_inv_def same)
qed

lemma inv_receive:
  assumes env: "env_ok E V C" and inv: "cs_inv E V C s" and fl: "cs_flight s i = Answered reply request ts"
  shows "cs_inv E V C (receive_reply E i reply request ts s)"
proof -
  have ok: "asked_ok E C request ts" "reply_ok V (cs_total s) request reply" using inv fl unfolding cs_inv_def by (metis flight_ok.simps(3))+
  have n: "nonces_ok E (cs_flight s) (pendingTransactions (cs_collector s))" using inv by (simp add: cs_inv_def)
  show ?thesis
  proof (cases "take_reply E reply ts (cs_collector s)")
    case None
    then show ?thesis using inv ok nonces_forget[OF n, of "Asked request ts" i] by (simp add: receive_reply_def cs_inv_def)
  next
    case (Some c)
    let ?b = "(reply, map (\<lambda>t. t\<lparr>tx_epoch := er_epoch (parse_response E reply)\<rparr>) ts)"
    have e: "1 \<le> er_epoch (parse_response E reply)" using reply_nonce(2)[OF _ ok(2)] env by (simp add: env_ok_def)
    have "collector_ok E (cs_collector s)" using inv by (simp add: cs_inv_def)
    note c = take_reply_ok[OF this Some e]
    have "nonces_ok E ((cs_flight s)(i := No_Flight)) (pendingTransactions c)" using nonces_hand[OF n, of i ?b] fl c(2) by simp
    moreover have "handed_ok E V C (cs_total s) ?b" using ok by (auto simp: handed_ok_def)
    ultimately show ?thesis using inv Some c by (simp add: receive_reply_def cs_inv_def)
  qed
qed

lemma inv_batch:
  assumes inv: "cs_inv E V C s" and "processBatch E C n s = Some s'" and "0 < n" and "n \<le> USER_REQUEST_BATCH_SIZE" and "n \<le> length (cs_buffer s)"
    and can: "\<forall>r \<in> set (cs_received s). canonical E C r"
  shows "cs_inv E V C s'"
proof -
  obtain ts q where b: "collect_batch E C (take n (cs_buffer s)) = Some ts" "batch_request ts = Some q"
    and s': "s' = s\<lparr>cs_buffer := drop n (cs_buffer s), cs_next := cs_next s + 1, cs_flight := (cs_flight s)(cs_next s := Asked (ser_epoch_request C q) ts)\<rparr>"
    using assms(2) by (auto simp: processBatch_def Option.bind_eq_Some_conv)
  have sub: "set (take n (cs_buffer s)) \<subseteq> set (cs_received s)" "set (drop n (cs_buffer s)) \<subseteq> set (cs_received s)"
    using inv set_take_subset[of n "cs_buffer s"] set_drop_subset[of n "cs_buffer s"] by (auto simp: cs_inv_def)
  have "batch_made E ts" using collect_batch_made[OF b(1)] sub(1) can assms(3-5) by auto
  then have "asked_ok E C (ser_epoch_request C q) ts" using b(2) by (simp add: asked_ok_def)
  moreover have "nonces_ok E ((cs_flight s)(cs_next s := Asked (ser_epoch_request C q) ts)) (pendingTransactions (cs_collector s))"
    using inv by (intro nonces_forget) (simp_all add: cs_inv_def)
  ultimately show ?thesis using inv sub(2) by (simp add: s' cs_inv_def)
qed

lemma inv_cs_step:
  assumes env: "env_ok E V C" and step: "cs_step E V C s s'" and inv: "cs_inv E V C s"
    and can: "\<forall>r \<in> set (cs_received s'). canonical E C r" and lt: "cs_total s' < 2 ^ 64"
  shows "cs_inv E V C s'"
  using step
proof cases
  case (cs_collect message)
  then show ?thesis using inv by (auto simp: cs_inv_def collectRequest_def)
next
  case (cs_batch n)
  then show ?thesis using inv_batch[OF inv] can cs_received_mono[OF step] by blast
next
  case (cs_answer b request ts t1 t2 reply s1)
  then show ?thesis using inv_answer[OF env inv] lt by simp
next
  case (cs_receive b reply request ts)
  then show ?thesis using inv_receive[OF env inv] by simp
next
  case (cs_other t1 t2 request reply)
  then show ?thesis using inv_serve(1)[OF env inv] lt by blast
next
  case (cs_raft m)
  have "1 \<le> current_epoch (receiver_from_raft V m (cs_server s))"
    using inv raft_keeps(2)[of "cs_server s" V m] by (auto simp: cs_inv_def intro: order_trans)
  then show ?thesis using inv by (simp add: cs_inv_def cs_raft raft_keeps)
qed

lemma cs_reachable:
  assumes "env_ok E V C" and "(cs_step E V C)\<^sup>*\<^sup>* (newCollectSystem now) s" and "\<forall>r \<in> set (cs_received s). canonical E C r" and "cs_total s < 2 ^ 64"
  shows "cs_inv E V C s"
  using assms(2-4)
proof (induction rule: rtranclp_induct)
  case base
  then show ?case by (simp add: cs_inv_def newCollectSystem_def newEpochServer_def newCollector_def collector_ok_def nonces_ok_def)
next
  case (step y z)
  then show ?case using inv_cs_step[OF assms(1) step.hyps(2)] cs_received_mono[OF step.hyps(2)] cs_total_mono[OF step.hyps(2)] by force
qed

section \<open>What is handed over passes the checks\<close>

lemma digest_length: "length (fst (snd (helper_execute ctx))) = SHA256HashSize"
  by (simp add: helper_execute_def SHA256Result_def SHA224_256ResultN_def Let_def split_beta length_string_of shaSuccess_def)

lemma batch_request_hash: "batch_request ts = Some q \<Longrightarrow> length (eq_batch_hash q) = SHA256HashSize"
  using digest_length by (auto simp: batch_request_def split_beta Let_def split: if_splits)

lemma handed_form:
  assumes env: "env_ok E V C" and h: "handed_ok E V C issued b"
  obtains ts q e n where "batch_made E ts" and "batch_request ts = Some q" and "parse_response E (fst b) = response_of V e n q"
    and "snd b = map (\<lambda>t. t\<lparr>tx_epoch := er_epoch (parse_response E (fst b))\<rparr>) ts"
proof -
  obtain request ts where a: "asked_ok E C request ts" "reply_ok V issued request (fst b)"
    and ts: "snd b = map (\<lambda>t. t\<lparr>tx_epoch := er_epoch (parse_response E (fst b))\<rparr>) ts" using h by (auto simp: handed_ok_def)
  obtain q where q: "batch_request ts = Some q" "request = ser_epoch_request C q" "batch_made E ts" using a(1) by (auto simp: asked_ok_def)
  obtain e n where "parse_response E (fst b) = response_of V e n q"
    using a(2) q(2) env by (auto simp: reply_ok_def env_ok_def responses_ok_def)
  then show thesis using that q ts by blast
qed

lemma handed_batch_ok:
  assumes env: "env_ok E V C" and h: "handed_ok E V C issued b"
  shows "batch_ok E (localIP E) b"
proof -
  obtain ts q e n where made: "batch_made E ts" and q: "batch_request ts = Some q" and r: "parse_response E (fst b) = response_of V e n q"
    and ts: "snd b = map (\<lambda>t. t\<lparr>tx_epoch := er_epoch (parse_response E (fst b))\<rparr>) ts" by (rule handed_form[OF env h])
  have size: "unat (of_nat (length ts) :: 32 word) = length ts" using made by (simp add: batch_made_def USER_REQUEST_BATCH_SIZE_def unat_of_nat)
  have qv: "q = \<lparr>eq_batch_size = of_nat (length ts), eq_batch_hash = fst (snd (helper_execute (snd (append_all (map digest_of ts) newSHA256Helper))))\<rparr>"
    using q by (auto simp: batch_request_def split_beta Let_def split: if_splits)
  have "epoch_verify E (to_string_nat (unat e) @ eq_batch_hash q @ to_string_nat (unat n)) (epoch_sign V (signed_message e (eq_batch_hash q) n))"
    using env by (simp add: env_ok_def responses_ok_def signed_message_def)
  then have "verifyBatchHash E ts (parse_response E (fst b))"
    by (simp add: r verifyBatchHash_def response_of_def split_beta Let_def size) (simp add: qv size)
  then have "verifyBatchHash E (snd b) (parse_response E (fst b))" using verify_cong[of "snd b" ts E] ts by (simp add: comp_def)
  moreover have "\<forall>t \<in> set (snd b). payload_signed E (localIP E) (transactionPayload t)" using made ts by (auto simp: batch_made_def)
  ultimately show ?thesis by (simp add: batch_ok_def)
qed

lemma key_nonce:
  assumes env: "env_ok E V C" and h: "handed_ok E V C issued b" "handed_ok E V C issued c" and eq: "batch_key E b = batch_key E c"
  shows "nonce_of E (fst b) = nonce_of E (fst c)"
proof -
  obtain ts q e n where q: "batch_request ts = Some q" and r: "parse_response E (fst b) = response_of V e n q" using handed_form[OF env h(1)] .
  obtain us q' e' n' where q': "batch_request us = Some q'" and r': "parse_response E (fst c) = response_of V e' n' q'" using handed_form[OF env h(2)] .
  have "inj (epoch_sign V)" using env by (simp add: env_ok_def)
  then have "e = e'" "signed_message e (eq_batch_hash q) n = signed_message e' (eq_batch_hash q') n'"
    using eq r r' by (auto simp: batch_key_def response_of_def dest: injD)
  then have "to_string_nat (unat n) = to_string_nat (unat n')" using batch_request_hash[OF q] batch_request_hash[OF q'] by (simp add: signed_message_def)
  then have "n = n'" using dec_value_to_string by (metis word_unat_eq_iff)
  then show ?thesis using r r' by (simp add: response_of_def)
qed

lemma close_epochs_reach: "lp_epoch p \<le> e \<Longrightarrow> lp_epoch (close_epochs E e p) = e"
proof (induction E e p rule: close_epochs.induct)
  case (1 E e p)
  show ?case
  proof (cases "lp_epoch p < e")
    case True
    have "lp_epoch (close_one E p) \<le> e" using True unat_succ[OF True] by (simp add: close_one_def Let_def word_le_nat_alt word_less_nat_alt)
    then show ?thesis using 1 True by (subst close_epochs.simps) simp
  qed (use 1 in \<open>subst close_epochs.simps, simp\<close>)
qed

lemma local_loop_succeeds:
  assumes "\<forall>t \<in> set ts. tx_epoch t = e \<and> ser_tx E t \<noteq> None"
  shows "local_loop E e sig ts ctx acc \<noteq> None"
  using assms
proof (induction ts arbitrary: ctx acc)
  case (Cons t ts)
  then show ?case by (cases acc; cases "next_tid sig (digest_of t) ctx") auto
next
  case Nil
  show ?case by (cases acc) simp
qed

lemma local_batches_succeed:
  assumes "sorted (epochs_of E bs)" and "\<forall>b \<in> set bs. lp_epoch p \<le> er_epoch (parse_response E (fst b))"
    and "\<forall>b \<in> set bs. \<forall>t \<in> set (snd b). tx_epoch t = er_epoch (parse_response E (fst b)) \<and> ser_tx E t \<noteq> None"
  shows "\<exists>p'. fold_opt (local_batch E) bs p = Some p'"
  using assms
proof (induction bs arbitrary: p)
  case (Cons b bs)
  let ?e = "er_epoch (parse_response E (fst b))"
  have "lp_epoch (close_epochs E ?e p) = ?e" using Cons.prems(2) by (simp add: close_epochs_reach)
  moreover have "local_loop E ?e (er_signature (parse_response E (fst b))) (snd b) newSHA256Helper ([], []) \<noteq> None"
    using Cons.prems(3) by (intro local_loop_succeeds) simp
  ultimately obtain p1 where p1: "local_batch E b p = Some p1" by (cases b) (auto simp: local_batch_def Let_def)
  then have "lp_epoch p1 = ?e" using local_batch_state(1)[OF p1] by (simp add: batch_key_def)
  then show ?case using Cons p1 by simp
qed simp

section \<open>Payloads that are not signed as they are serialized\<close>

lemma worker_loop_flag:
  assumes "\<forall>i \<in> set is. parse_tx E (data ! i) = Some (us i)"
  shows "\<exists>slots'. worker_loop E ip data is slots = Some (\<forall>i \<in> set is. payload_signed E ip (transactionPayload (us i)), slots')"
  using assms by (induction "is" arbitrary: slots) auto

lemma load_batch_flag:
  assumes "length data = length us" and "\<And>i. i < length us \<Longrightarrow> parse_tx E (data ! i) = Some (us ! i)"
    and "u \<in> set us" and "\<not> payload_signed E ip (transactionPayload u)"
  shows "\<exists>slots. load_batch E ip data = Some (False, slots)"
proof -
  let ?n = "length us" and ?ok = "\<lambda>w. \<forall>i \<in> set (stride w (length us)). payload_signed E ip (transactionPayload (us ! i))"
  obtain i where i: "i < ?n" "u = us ! i" using assms(3) by (auto simp: in_set_conv_nth)
  then have "\<not> (?ok 0 \<and> ?ok 1)" using stride_all(1)[OF i(1)] assms(4) by blast
  moreover have w: "\<exists>slots'. worker_loop E ip data (stride w ?n) slots = Some (?ok w, slots')" for w slots
    using stride_all(2)[of w ?n] assms(2) by (intro worker_loop_flag) auto
  obtain s0 where s0: "worker_loop E ip data (stride 0 ?n) (replicate ?n None) = Some (?ok 0, s0)" using w by blast
  obtain s1 where s1: "worker_loop E ip data (stride 1 ?n) s0 = Some (?ok 1, s1)" using w by blast
  have "load_batch E ip data = Some (?ok 0 \<and> ?ok 1, s1)" unfolding load_batch_def assms(1) s0 using s1 by simp
  ultimately show ?thesis by auto
qed

section \<open>Properties\<close>



section \<open>Examples\<close>

definition payload_code :: "payload \<Rightarrow> string" where
  "payload_code pl = str_code (p_header pl) @ str_code (p_payload pl) @ nat_code (unat (p_nonce pl)) @ p_digest pl"

definition payload_decode :: "string \<Rightarrow> payload" where
  "payload_decode s =
     (let (h, s1) = read_str s; (p, s2) = read_str s1; (n, s3) = read_nat s2 in \<lparr>p_header = h, p_payload = p, p_nonce = of_nat n, p_digest = s3\<rparr>)"

lemma payload_decode_code [simp]: "payload_decode (payload_code pl) = pl"
  by (simp add: payload_decode_def payload_code_def read_str_code read_nat_code)

definition user_env :: proxy_env where
  "user_env = signed_env\<lparr>ser_payload := payload_code, user_verify := (\<lambda>ip m d. d = CHR ''u'' # m),
     ser_tx := (\<lambda>t. if t = (collected (transactionPayload t) (digest_of t))\<lparr>tx_epoch := tx_epoch t\<rparr>
       then Some (nat_code (unat (tx_epoch t)) @ payload_code (transactionPayload t)) else None),
     parse_tx := (\<lambda>s. let (e, r) = read_nat s; pl = payload_decode r in Some ((collected pl (p_digest pl))\<lparr>tx_epoch := of_nat e\<rparr>))\<rparr>"

definition sample_collector_env :: collector_env where
  "sample_collector_env = \<lparr>
     parse_user_request = (\<lambda>s. let (p, d) = read_str s in \<lparr>ur_payload = p, ur_digest = d\<rparr>),
     parse_payload = payload_decode, ser_epoch_request = (\<lambda>q. nat_code (unat (eq_batch_size q)) @ eq_batch_hash q)\<rparr>"

lemma user_messages: "messages_ok user_env"
proof -
  have "parse_tx user_env y = Some (t\<lparr>invalidBit := None\<rparr>)" if y: "ser_tx user_env t = Some y" for t y
  proof -
    have t: "t = (collected (transactionPayload t) (digest_of t))\<lparr>tx_epoch := tx_epoch t\<rparr>" "y = nat_code (unat (tx_epoch t)) @ payload_code (transactionPayload t)"
      using y by (auto simp: user_env_def split: if_splits)
    have "invalidBit t = None" by (subst t(1)) (simp add: collected_def newMockTransaction_def)
    then have "t\<lparr>invalidBit := None\<rparr> = t" by simp
    moreover have "parse_tx user_env y = Some ((collected (transactionPayload t) (digest_of t))\<lparr>tx_epoch := tx_epoch t\<rparr>)"
      by (simp add: t(2) user_env_def read_nat_code Let_def)
    ultimately show ?thesis using t(1) by simp
  qed
  moreover have "parse_set user_env (ser_set user_env m) = Some m" for m
    by (simp add: user_env_def signed_env_def) (simp add: sample_env_def set_decode_code)
  ultimately show ?thesis by (simp add: messages_ok_def)
qed

lemma collected_self: "collected (transactionPayload (collected pl d)) (digest_of (collected pl d)) = collected pl d"
  by (simp add: collected_def)

lemma user_env_ok: "env_ok user_env sample_epoch_env sample_collector_env"
proof -
  have "responses_ok user_env sample_epoch_env" using sample_responses by (simp add: responses_ok_def user_env_def)
  moreover have "ser_tx user_env ((collected pl d)\<lparr>tx_epoch := e\<rparr>) \<noteq> None" for pl d e using collected_self[of pl d] by (simp add: user_env_def)
  moreover have "inj (epoch_sign sample_epoch_env)" by (simp add: sample_epoch_env_def inj_def)
  moreover have "parse_epoch_request sample_epoch_env (ser_epoch_request sample_collector_env q) = q" for q
    by (simp add: sample_collector_env_def parse_sample_request)
  ultimately show ?thesis using user_messages by (simp add: env_ok_def)
qed

text \<open>A request whose payload carries the string \<open>d\<close> in the field of the signature.\<close>

definition sample_message :: "string \<Rightarrow> string" where
  "sample_message d = (let bytes = payload_code (payload_clear\<lparr>p_digest := d\<rparr>) in str_code bytes @ CHR ''u'' # bytes)"

lemma parse_sample_message:
  "parse_user_request sample_collector_env (sample_message d) =
     \<lparr>ur_payload = payload_code (payload_clear\<lparr>p_digest := d\<rparr>), ur_digest = CHR ''u'' # payload_code (payload_clear\<lparr>p_digest := d\<rparr>)\<rparr>"
  by (simp add: sample_message_def sample_collector_env_def read_str_code Let_def)

lemma sample_canonical: "canonical user_env sample_collector_env (sample_message d) \<longleftrightarrow> d = []"
proof -
  have "payload_code (payload_clear\<lparr>p_digest := []\<rparr>) = payload_code (payload_clear\<lparr>p_digest := d\<rparr>) \<longleftrightarrow> d = []"
    by (simp add: payload_code_def payload_clear_def)
  then show ?thesis by (simp add: canonical_def parse_sample_message Let_def) (simp add: user_env_def sample_collector_env_def)
qed

definition sample_tx :: "string \<Rightarrow> transaction" where
  "sample_tx d = collected (payload_clear\<lparr>p_digest := d\<rparr>) (CHR ''u'' # payload_code (payload_clear\<lparr>p_digest := d\<rparr>))"

lemma sample_collect: "collect_batch user_env sample_collector_env [sample_message d] = Some [sample_tx d]"
proof -
  have "collect_one user_env sample_collector_env (sample_message d) = Some (sample_tx d)"
    unfolding collect_one_def parse_sample_message by (simp add: user_env_def sample_collector_env_def sample_tx_def)
  then show ?thesis by (simp add: collect_batch_spec)
qed

lemma sample_request: "\<exists>q. batch_request [sample_tx d] = Some q" if "length d < 1000"
proof -
  have "length (digest_of (sample_tx d)) < 2 ^ 32"
    using that by (simp add: sample_tx_def collected_def payload_code_def payload_clear_def str_code_def nat_code_def)
  then obtain c where "append_all [digest_of (sample_tx d)] newSHA256Helper = (True, c)"
    using append_all_inv[OF new_helper_inv, of "[digest_of (sample_tx d)]"] by auto
  then show ?thesis by (simp add: batch_request_def split_beta Let_def del: append_all.simps)
qed

text \<open>One request is collected, sent and answered, and the batch is handed over.\<close>

lemma sample_collected:
  "\<exists>s reply. (cs_step user_env sample_epoch_env sample_collector_env)\<^sup>*\<^sup>* (newCollectSystem 0) s \<and> cs_received s = [sample_message []] \<and> cs_total s = 1 \<and>
     pendingTransactions (cs_collector s) = [(reply, [(sample_tx [])\<lparr>tx_epoch := 1\<rparr>])]"
proof -
  let ?step = "cs_step user_env sample_epoch_env sample_collector_env" and ?E = user_env
  obtain q where q: "batch_request [sample_tx []] = Some q" using sample_request[of "[]"] by auto
  let ?raw = "ser_epoch_request sample_collector_env q"
  have pq: "parse_epoch_request sample_epoch_env ?raw = q" using user_env_ok by (simp add: env_ok_def)
  have size: "eq_batch_size q = 1" using q by (auto simp: batch_request_def split_beta Let_def split: if_splits)
  let ?s1 = "collectRequest (sample_message []) (newCollectSystem 0)"
  let ?s2 = "?s1\<lparr>cs_buffer := [], cs_next := 1, cs_flight := (\<lambda>_. No_Flight)(0 := Asked ?raw [sample_tx []])\<rparr>"
  have 1: "?step (newCollectSystem 0) ?s1" by (rule cs_collect)
  have "processBatch ?E sample_collector_env 1 ?s1 = Some ?s2"
    by (simp add: processBatch_def collectRequest_def newCollectSystem_def sample_collect q)
  then have 2: "?step ?s1 ?s2" by (intro cs_batch[of 1]) (simp_all add: USER_REQUEST_BATCH_SIZE_def collectRequest_def newCollectSystem_def)
  obtain reply s3 where s3: "cs_serve sample_epoch_env 0 1 ?raw ?s2 = (reply, s3)" by (cases "cs_serve sample_epoch_env 0 1 ?raw ?s2")
  let ?s4 = "s3\<lparr>cs_flight := (cs_flight s3)(0 := Answered reply ?raw [sample_tx []])\<rparr>"
  have 3: "?step ?s2 ?s4" by (rule cs_answer[OF _ s3]) simp
  have p: "cs_server ?s2 = newEpochServer 0" "cs_total ?s2 = 0" by (simp_all add: collectRequest_def newCollectSystem_def)
  have r: "reply = ser_response sample_epoch_env (response_of sample_epoch_env 1 1 q)" "cs_total s3 = 1"
    "cs_received s3 = [sample_message []]" "cs_collector s3 = newCollector"
    using s3 p by (auto simp: cs_serve_def split_beta Let_def request_reply pq size newEpochServer_def collectRequest_def newCollectSystem_def)
  have pr: "er_epoch (parse_response ?E reply) = 1" using user_env_ok r(1) by (simp add: env_ok_def responses_ok_def response_of_def)
  let ?s5 = "receive_reply ?E 0 reply ?raw [sample_tx []] ?s4"
  have 4: "?step ?s4 ?s5" by (rule cs_receive) simp
  have "cs_received ?s5 = [sample_message []]" "cs_total ?s5 = 1" "pendingTransactions (cs_collector ?s5) = [(reply, [(sample_tx [])\<lparr>tx_epoch := 1\<rparr>])]"
    using r pr by (simp_all add: receive_reply_def take_reply_def newCollector_def)
  moreover have "?step\<^sup>*\<^sup>* (newCollectSystem 0) ?s5" using 1 2 3 4 by (meson converse_rtranclp_into_rtranclp rtranclp.rtrancl_refl)
  ultimately show ?thesis by blast
qed



end
