(* ===== verification/Transaction_Flow.thy ===== *)
theory Transaction_Flow
  imports Epoch_Buffer "HOL-Library.AList" "HOL-Library.Multiset"
begin

text \<open>
  From the shared queue to the coordinator and back: \<open>CommController\<close> (\<open>comm_controller.cpp\<close>), the recycler of
  transaction objects it extends, and \<open>TransactionManagerImpl\<close>.

  \<open>incoming\<close> is everything that is ever pushed into \<open>broadcastTransactions\<close>, and \<open>arrivals\<close> tells how much of it is visible when
  a call looks at the queue after \<open>k\<close> transactions were taken: how many transactions one call
  drains depends on timing, and the results are proved for every \<open>arrivals\<close>. Waiting for a transaction that never comes
  is \<open>None\<close>, like a failed \<open>CHECK\<close>.

  The virtual class \<open>Comm\<close> is the locale \<open>comm_source\<close>; the loop of the manager is proved against it and the
  controller is its interpretation. The lemmas show that the manager gets each epoch as a whole, that the controller's
  check on epochs never fails, what happens to the transactions of a finished epoch, and that
  the recycler frees every object once.
\<close>

section \<open>CommController\<close>

record comm =
  incoming :: "transaction list"
  popped :: nat
  processedTransaction :: "transaction list"
  transfer_epoch :: nat
  addingTxQueue :: "transaction list"

definition newComm :: "transaction list \<Rightarrow> comm" where
  "newComm txs = \<lparr>incoming = txs, popped = 0, processedTransaction = [], transfer_epoch = 0, addingTxQueue = []\<rparr>"

definition transfer_one :: "transaction \<Rightarrow> comm \<Rightarrow> comm option" where
  "transfer_one t c =
     (let currentEpoch = if epoch_of t > transfer_epoch c then epoch_of t else transfer_epoch c in
      if epoch_of t \<noteq> currentEpoch then None
      else Some (c\<lparr>processedTransaction := processedTransaction c @ [t], transfer_epoch := currentEpoch,
                   popped := popped c + 1\<rparr>))"

definition transferTransaction :: "(nat \<Rightarrow> nat) \<Rightarrow> comm \<Rightarrow> comm option" where
  "transferTransaction arrivals c =
     Option.bind
       (if processedTransaction c = []
        then if popped c < length (incoming c) then transfer_one (incoming c ! popped c) c else None
        else Some c)
       (\<lambda>c1. fold_opt transfer_one (take (arrivals (popped c1) - popped c1) (drop (popped c1) (incoming c1))) c1)"

function get_loop :: "(nat \<Rightarrow> nat) \<Rightarrow> nat \<Rightarrow> nat \<Rightarrow> nat \<Rightarrow> transaction list \<Rightarrow> comm \<Rightarrow> (transaction list \<times> comm) option" where
  "get_loop arrivals epoch maxSize minSize trWrapper c =
     (if length trWrapper < maxSize
      then case processedTransaction c of
          [] \<Rightarrow> None
        | t # ts \<Rightarrow>
            if epoch_of t \<noteq> epoch then Some (trWrapper, c)
            else
              let c1 = c\<lparr>processedTransaction := ts, addingTxQueue := addingTxQueue c @ [t]\<rparr>;
                  trWrapper1 = trWrapper @ [t]
              in if ts = []
                 then if length trWrapper1 > minSize then Some (trWrapper1, c1)
                   else Option.bind (transferTransaction arrivals c1) (get_loop arrivals epoch maxSize minSize trWrapper1)
                 else get_loop arrivals epoch maxSize minSize trWrapper1 c1
      else Some (trWrapper, c))"
  by pat_completeness auto
termination
  by (relation "measure (\<lambda>(a, e, mx, mn, tr, c). mx - length tr)") auto

declare get_loop.simps [simp del]

definition getTransaction :: "(nat \<Rightarrow> nat) \<Rightarrow> nat \<Rightarrow> nat \<Rightarrow> nat \<Rightarrow> comm \<Rightarrow> (transaction list option \<times> comm) option" where
  "getTransaction arrivals epoch maxSize minSize c =
     Option.bind (if processedTransaction c = [] then transferTransaction arrivals c else Some c) (\<lambda>c0.
       case processedTransaction c0 of
         [] \<Rightarrow> None
       | t # _ \<Rightarrow>
           if epoch_of t \<noteq> epoch then Some (None, c0)
           else map_option (map_prod Some id) (get_loop arrivals epoch maxSize minSize [] c0))"

section \<open>TransactionRecycler\<close>

text \<open>Objects are addresses; \<open>ep\<close> gives the epoch an object carries now, which the manager may have changed since the
  object was filed.\<close>

record recycler =
  rc_adding :: "nat list"
  transactionMap :: "(nat \<times> nat list) list"
  rc_deleted :: "nat list"

definition map_slot :: "recycler \<Rightarrow> nat \<Rightarrow> nat list" where
  "map_slot r e = (case map_of (transactionMap r) e of None \<Rightarrow> [] | Some ps \<Rightarrow> ps)"

definition file_under :: "nat \<Rightarrow> nat \<Rightarrow> recycler \<Rightarrow> recycler" where
  "file_under e p r = r\<lparr>transactionMap := AList.update e (map_slot r e @ [p]) (transactionMap r)\<rparr>"

definition recycle_one :: "(nat \<Rightarrow> nat) \<Rightarrow> nat \<Rightarrow> nat \<Rightarrow> recycler \<Rightarrow> recycler" where
  "recycle_one ep epoch p r =
     (if ep p = epoch then r\<lparr>rc_deleted := rc_deleted r @ [p]\<rparr> else file_under (ep p) p r)"

definition clearTransactionForEpoch :: "(nat \<Rightarrow> nat) \<Rightarrow> nat \<Rightarrow> recycler \<Rightarrow> recycler" where
  "clearTransactionForEpoch ep epoch r =
     (let r1 = r\<lparr>transactionMap := AList.update (epoch + 20) (map_slot r (epoch + 20)) (transactionMap r)\<rparr>;
          r2 = fold (\<lambda>p. file_under (ep p) p) (rc_adding r1) (r1\<lparr>rc_adding := []\<rparr>);
          r3 = fold (recycle_one ep epoch) (map_slot r2 epoch) r2
      in r3\<lparr>transactionMap := AList.delete epoch (transactionMap r3)\<rparr>)"

section \<open>TransactionManagerImpl\<close>

record tx_manager =
  categorizeTransaction :: bool
  reusingAbortTransaction :: bool
  epochTxBuffer :: "nat \<Rightarrow> transaction list"
  cleanedEpoch :: nat
  processingEpoch :: nat
  reuseTxWrapper :: "transaction list option"
  block_txs :: "transaction list"
  cleared :: "nat list"
  sent :: "transaction list list"

definition newTxManager :: "bool \<Rightarrow> bool \<Rightarrow> tx_manager" where
  "newTxManager categorize reusing =
     \<lparr>categorizeTransaction = categorize, reusingAbortTransaction = reusing, epochTxBuffer = (\<lambda>_. []), cleanedEpoch = 0,
      processingEpoch = 0, reuseTxWrapper = None, block_txs = [], cleared = [], sent = []\<rparr>"

definition setBlockGenerator :: "nat \<Rightarrow> tx_manager \<Rightarrow> tx_manager" where
  "setBlockGenerator latestSaved m = m\<lparr>cleanedEpoch := latestSaved, processingEpoch := latestSaved + 1\<rparr>"

definition TR_MGR_GET_BATCH_MAX_SIZE :: nat where
  "TR_MGR_GET_BATCH_MAX_SIZE = 5000"

text \<open>The inner loop of \<open>run\<close>: get all transactions of the epoch, note them, send them on. \<open>get\<close> is the virtual
  call \<open>commModule->getTransaction\<close>.\<close>

partial_function (option) collect_epoch ::
    "(nat \<Rightarrow> nat \<Rightarrow> nat \<Rightarrow> 's \<Rightarrow> (transaction list option \<times> 's) option) \<Rightarrow> nat \<Rightarrow> tx_manager \<Rightarrow> 's \<Rightarrow> (tx_manager \<times> 's) option" where
  "collect_epoch get currentEpoch m s =
     Option.bind (get currentEpoch TR_MGR_GET_BATCH_MAX_SIZE 1 s) (\<lambda>(trWrapper, s1).
       case trWrapper of
         None \<Rightarrow> Some (m, s1)
       | Some txs \<Rightarrow>
           collect_epoch get currentEpoch
             (m\<lparr>epochTxBuffer := (epochTxBuffer m)(currentEpoch := epochTxBuffer m currentEpoch @ txs),
                sent := sent m @ [txs]\<rparr>) s1)"

text \<open>The outer loop for a range of epochs, without the reuse of aborted transactions, whose wait depends on the
  coordinator.\<close>

fun run_epochs ::
    "(nat \<Rightarrow> nat \<Rightarrow> nat \<Rightarrow> 's \<Rightarrow> (transaction list option \<times> 's) option) \<Rightarrow> nat list \<Rightarrow> tx_manager \<Rightarrow> 's \<Rightarrow> (tx_manager \<times> 's) option" where
  "run_epochs get [] m s = Some (m, s)"
| "run_epochs get (e # es) m s = Option.bind (collect_epoch get e m s) (\<lambda>(m1, s1). run_epochs get es m1 s1)"

text \<open>In the reusing mode the manager waits after an epoch until the previous one is processed, and then sends
  the transactions that were aborted in it.\<close>

definition reuse_ready :: "nat \<Rightarrow> tx_manager \<Rightarrow> bool" where
  "reuse_ready currentEpoch m \<longleftrightarrow> processingEpoch m + 1 \<ge> currentEpoch"

definition send_reused :: "tx_manager \<Rightarrow> tx_manager" where
  "send_reused m =
     (case reuseTxWrapper m of None \<Rightarrow> m | Some txs \<Rightarrow> m\<lparr>sent := sent m @ [txs], reuseTxWrapper := None\<rparr>)"

definition reset_for :: "nat \<Rightarrow> transaction \<Rightarrow> transaction" where
  "reset_for e tr = (resetTransaction tr)\<lparr>tx_epoch := of_nat e\<rparr>"

definition categorize_one :: "nat \<Rightarrow> transaction \<Rightarrow> tx_manager \<times> transaction list \<Rightarrow> tx_manager \<times> transaction list" where
  "categorize_one finishedEpoch tr = (\<lambda>(m, trWrapper).
     case transactionResult tr of
       ABORT \<Rightarrow>
         if \<not> reusingAbortTransaction m then (m\<lparr>block_txs := block_txs m @ [tr]\<rparr>, trWrapper)
         else
           let tr1 = reset_for (finishedEpoch + 1) tr in
           (m\<lparr>epochTxBuffer := (epochTxBuffer m)(finishedEpoch + 1 := epochTxBuffer m (finishedEpoch + 1) @ [tr1])\<rparr>,
            trWrapper @ [tr1])
     | COMMIT \<Rightarrow> (m\<lparr>block_txs := block_txs m @ [tr]\<rparr>, trWrapper)
     | ABORT_NO_RETRY \<Rightarrow> (m\<lparr>block_txs := block_txs m @ [tr]\<rparr>, trWrapper)
     | PENDING \<Rightarrow> (m, trWrapper))"

definition take_queue :: "nat \<Rightarrow> tx_manager \<Rightarrow> tx_manager" where
  "take_queue e m = m\<lparr>epochTxBuffer := (epochTxBuffer m)(e := [])\<rparr>"

definition categorizeEpoch :: "nat \<Rightarrow> tx_manager \<Rightarrow> tx_manager" where
  "categorizeEpoch finishedEpoch m =
     (let (m1, trWrapper) = fold (categorize_one finishedEpoch) (epochTxBuffer m finishedEpoch) (take_queue finishedEpoch m, [])
      in m1\<lparr>reuseTxWrapper := Some trWrapper\<rparr>)"

definition nonCategorizeEpoch :: "nat \<Rightarrow> tx_manager \<Rightarrow> tx_manager" where
  "nonCategorizeEpoch finishedEpoch m =
     (take_queue finishedEpoch m)\<lparr>block_txs := block_txs m @ epochTxBuffer m finishedEpoch\<rparr>"

text \<open>\<open>generated\<close> is the answer of \<open>generateBlock\<close> and \<open>latestSaved\<close> what \<open>getLatestSavedEpoch\<close> returns when the callback cleans up; without
  asynchronous block generation it has waited until that is the finished epoch.\<close>

definition epochFinishedCallback :: "bool \<Rightarrow> nat \<Rightarrow> nat \<Rightarrow> tx_manager \<Rightarrow> tx_manager option" where
  "epochFinishedCallback generated latestSaved finishedEpoch m =
     (let m1 = if categorizeTransaction m \<or> reusingAbortTransaction m then categorizeEpoch finishedEpoch m
               else nonCategorizeEpoch finishedEpoch m
      in if \<not> generated then None
         else Some (m1\<lparr>cleared := cleared m1 @ [Suc (cleanedEpoch m1)..<Suc latestSaved],
                       cleanedEpoch := max (cleanedEpoch m1) latestSaved,
                       epochTxBuffer := (epochTxBuffer m1)(finishedEpoch := []),
                       processingEpoch := finishedEpoch + 1\<rparr>))"

section \<open>Sorted lists of transactions\<close>

lemma sorted_split:
  fixes f :: "'a \<Rightarrow> nat"
  assumes "sorted (map f xs)" and "\<forall>x \<in> set xs. a \<le> f x"
  shows "xs = filter (\<lambda>x. f x = a) xs @ filter (\<lambda>x. a < f x) xs"
  using assms
proof (induction xs)
  case (Cons x xs)
  show ?case
  proof (cases "f x = a")
    case True
    then show ?thesis using Cons by simp
  next
    case False
    then have "\<forall>y \<in> set (x # xs). a < f y" using Cons.prems by (auto intro: le_neq_trans less_le_trans)
    then have "filter (\<lambda>x. f x = a) (x # xs) = []" "filter (\<lambda>x. a < f x) (x # xs) = x # xs"
      by (auto simp: filter_empty_conv intro: filter_True)
    then show ?thesis by (metis append_Nil)
  qed
qed simp

section \<open>The contract of Comm\<close>

text \<open>\<open>rest s\<close> is what is still to come. As long as a transaction of another epoch follows, a call for the epoch either
  takes a non-empty prefix of the epoch's transactions or says that there is none left.\<close>

locale comm_source =
  fixes get :: "nat \<Rightarrow> nat \<Rightarrow> nat \<Rightarrow> 's \<Rightarrow> (transaction list option \<times> 's) option"
    and ok :: "'s \<Rightarrow> bool"
    and rest :: "'s \<Rightarrow> transaction list"
  assumes get_none: "ok s \<Longrightarrow> rest s = y # ys \<Longrightarrow> epoch_of y \<noteq> e \<Longrightarrow>
      \<exists>s'. get e mx mn s = Some (None, s') \<and> ok s' \<and> rest s' = rest s"
    and get_some: "ok s \<Longrightarrow> rest s = xs @ y # ys \<Longrightarrow> xs \<noteq> [] \<Longrightarrow> \<forall>x \<in> set xs. epoch_of x = e \<Longrightarrow> epoch_of y \<noteq> e \<Longrightarrow> 0 < mx \<Longrightarrow>
      \<exists>k s'. get e mx mn s = Some (Some (take k xs), s') \<and> ok s' \<and> rest s' = drop k xs @ y # ys \<and> 0 < k \<and> k \<le> length xs"
begin

lemma collect_epoch_spec:
  assumes "ok s" and "rest s = xs @ y # ys" and "\<forall>x \<in> set xs. epoch_of x = e" and "epoch_of y \<noteq> e"
  shows "\<exists>m' s'. collect_epoch get e m s = Some (m', s') \<and> ok s' \<and> rest s' = y # ys \<and>
    epochTxBuffer m' = (epochTxBuffer m)(e := epochTxBuffer m e @ xs) \<and> concat (sent m') = concat (sent m) @ xs"
  using assms(1,2,3)
proof (induction "length xs" arbitrary: xs m s rule: less_induct)
  case less
  show ?case
  proof (cases "xs = []")
    case True
    then have "rest s = y # ys" using less.prems(2) by simp
    from get_none[OF less.prems(1) this assms(4), of TR_MGR_GET_BATCH_MAX_SIZE 1]
    obtain s' where "get e TR_MGR_GET_BATCH_MAX_SIZE 1 s = Some (None, s')" "ok s'" "rest s' = y # ys"
      using \<open>rest s = y # ys\<close> by auto
    then show ?thesis using True by (subst collect_epoch.simps) simp
  next
    case False
    have "0 < TR_MGR_GET_BATCH_MAX_SIZE" by (simp add: TR_MGR_GET_BATCH_MAX_SIZE_def)
    from get_some[OF less.prems(1,2) False less.prems(3) assms(4) this, of 1] obtain k s1 where
      k: "get e TR_MGR_GET_BATCH_MAX_SIZE 1 s = Some (Some (take k xs), s1)" "ok s1" "rest s1 = drop k xs @ y # ys" "0 < k" "k \<le> length xs"
      by blast
    let ?m = "m\<lparr>epochTxBuffer := (epochTxBuffer m)(e := epochTxBuffer m e @ take k xs), sent := sent m @ [take k xs]\<rparr>"
    have "\<exists>m' s'. collect_epoch get e ?m s1 = Some (m', s') \<and> ok s' \<and> rest s' = y # ys \<and>
        epochTxBuffer m' = (epochTxBuffer ?m)(e := epochTxBuffer ?m e @ drop k xs) \<and>
        concat (sent m') = concat (sent ?m) @ drop k xs"
      using k less.prems(3) by (intro less.hyps) (auto dest: in_set_dropD)
    then show ?thesis using k(1) by (subst collect_epoch.simps) (auto simp: ac_simps append_assoc[symmetric] simp del: append_assoc)
  qed
qed

text \<open>A whole range of epochs, some of them possibly without transactions.\<close>

lemma run_epochs_spec:
  assumes "ok s" and "sorted (map epoch_of (rest s))" and "\<forall>t \<in> set (rest s). a \<le> epoch_of t"
    and "\<exists>t \<in> set (rest s). b \<le> epoch_of t" and "a \<le> b"
  shows "\<exists>m' s'. run_epochs get [a..<b] m s = Some (m', s') \<and> ok s' \<and> rest s' = filter (\<lambda>t. b \<le> epoch_of t) (rest s) \<and>
    (\<forall>e. epochTxBuffer m' e = epochTxBuffer m e @ (if a \<le> e \<and> e < b then filter (\<lambda>t. epoch_of t = e) (rest s) else [])) \<and>
    concat (sent m') = concat (sent m) @ filter (\<lambda>t. epoch_of t < b) (rest s)"
  using assms
proof (induction "b - a" arbitrary: a m s)
  case 0
  then have "a = b" "filter (\<lambda>t. epoch_of t < b) (rest s) = []" by (auto simp: filter_empty_conv)
  moreover have "filter (\<lambda>t. b \<le> epoch_of t) (rest s) = rest s" using 0 by (intro filter_True) simp
  ultimately show ?case using 0(2) by auto
next
  case (Suc n)
  let ?xs = "filter (\<lambda>t. epoch_of t = a) (rest s)" and ?r = "filter (\<lambda>t. a < epoch_of t) (rest s)"
  have ab: "a < b" "n = b - Suc a" using Suc.hyps(2) by simp_all
  have split: "rest s = ?xs @ ?r" by (rule sorted_split[OF Suc.prems(2,3)])
  have "?r \<noteq> []" using Suc.prems(4) ab(1) by (force simp: filter_empty_conv)
  then obtain y ys where r: "?r = y # ys" by (cases ?r) auto
  then have "y \<in> set ?r" by simp
  then have y: "epoch_of y \<noteq> a" by simp
  have e: "rest s = ?xs @ y # ys" using split unfolding r .
  have a: "\<forall>x \<in> set ?xs. epoch_of x = a" by simp
  obtain m1 s1 where 1: "collect_epoch get a m s = Some (m1, s1)" "ok s1" "rest s1 = ?r"
    "epochTxBuffer m1 = (epochTxBuffer m)(a := epochTxBuffer m a @ ?xs)" "concat (sent m1) = concat (sent m) @ ?xs"
    using collect_epoch_spec[OF Suc.prems(1) e a y, of m] unfolding r by blast
  have "sorted (map epoch_of (rest s1))" unfolding 1(3) using Suc.prems(2) by (rule sorted_filter)
  moreover have "\<forall>t \<in> set (rest s1). Suc a \<le> epoch_of t" "\<exists>t \<in> set (rest s1). b \<le> epoch_of t"
    using 1(3) Suc.prems(4) ab(1) by (auto intro: less_le_trans)
  ultimately obtain m' s' where 2: "run_epochs get [Suc a..<b] m1 s1 = Some (m', s')" "ok s'"
    "rest s' = filter (\<lambda>t. b \<le> epoch_of t) (rest s1)"
    "\<forall>e. epochTxBuffer m' e = epochTxBuffer m1 e @ (if Suc a \<le> e \<and> e < b then filter (\<lambda>t. epoch_of t = e) (rest s1) else [])"
    "concat (sent m') = concat (sent m1) @ filter (\<lambda>t. epoch_of t < b) (rest s1)"
    using Suc.hyps(1)[OF ab(2) 1(2), of m1] ab(1) by auto
  have f: "filter P (rest s) = filter P ?xs @ filter P ?r" for P using arg_cong[OF split, of "filter P"] by simp
  have "rest s' = filter (\<lambda>t. b \<le> epoch_of t) (rest s)"
    using 2(3) ab(1) unfolding 1(3) by (auto intro!: filter_cong)
  moreover have "epochTxBuffer m' e = epochTxBuffer m e @ (if a \<le> e \<and> e < b then filter (\<lambda>t. epoch_of t = e) (rest s) else [])" for e
    using 2(4)[rule_format, of e] ab(1) unfolding 1(3,4) by (auto intro!: filter_cong)
  moreover have "concat (sent m') = concat (sent m) @ filter (\<lambda>t. epoch_of t < b) (rest s)"
    using 2(5) 1(5) ab(1) unfolding 1(3) by (subst f) (auto intro!: filter_cong)
  ultimately show ?case using 1(1) 2(1,2) ab(1) by (simp add: upt_conv_Cons)
qed

end

section \<open>The controller keeps the contract\<close>

definition remaining :: "comm \<Rightarrow> transaction list" where
  "remaining c = processedTransaction c @ drop (popped c) (incoming c)"

definition comm_ok :: "comm \<Rightarrow> bool" where
  "comm_ok c \<longleftrightarrow> sorted (map epoch_of (incoming c)) \<and> popped c \<le> length (incoming c) \<and>
     (\<forall>t \<in> set (drop (popped c) (incoming c)). transfer_epoch c \<le> epoch_of t)"

lemma transfer_one_ok:
  assumes "comm_ok c" and "popped c < length (incoming c)"
  shows "\<exists>c'. transfer_one (incoming c ! popped c) c = Some c' \<and> comm_ok c' \<and> remaining c' = remaining c \<and>
    processedTransaction c' \<noteq> [] \<and> incoming c' = incoming c \<and> popped c' = Suc (popped c) \<and> addingTxQueue c' = addingTxQueue c"
proof -
  let ?t = "incoming c ! popped c"
  have d: "drop (popped c) (incoming c) = ?t # drop (Suc (popped c)) (incoming c)" using assms(2) by (simp add: Cons_nth_drop_Suc)
  have le: "transfer_epoch c \<le> epoch_of ?t" using assms(1) d by (simp add: comm_ok_def)
  have "sorted (map epoch_of (drop (popped c) (incoming c)))"
    using assms(1) by (simp add: comm_ok_def drop_map[symmetric] sorted_wrt_drop)
  then have "\<forall>t \<in> set (drop (Suc (popped c)) (incoming c)). epoch_of ?t \<le> epoch_of t" unfolding d by simp
  then show ?thesis using assms le d by (auto simp: transfer_one_def comm_ok_def remaining_def)
qed

lemma transfer_more_ok:
  assumes "comm_ok c"
  shows "\<exists>c'. fold_opt transfer_one (take n (drop (popped c) (incoming c))) c = Some c' \<and> comm_ok c' \<and> remaining c' = remaining c \<and>
    (processedTransaction c \<noteq> [] \<longrightarrow> processedTransaction c' \<noteq> []) \<and> addingTxQueue c' = addingTxQueue c"
  using assms
proof (induction n arbitrary: c)
  case (Suc n)
  show ?case
  proof (cases "popped c < length (incoming c)")
    case True
    then obtain c1 where c1: "transfer_one (incoming c ! popped c) c = Some c1" "comm_ok c1" "remaining c1 = remaining c"
      "processedTransaction c1 \<noteq> []" "incoming c1 = incoming c" "popped c1 = Suc (popped c)" "addingTxQueue c1 = addingTxQueue c"
      using transfer_one_ok[OF Suc.prems] by blast
    have "take (Suc n) (drop (popped c) (incoming c)) = incoming c ! popped c # take n (drop (popped c1) (incoming c1))"
      using True c1(5,6) by (simp add: Cons_nth_drop_Suc[symmetric])
    then show ?thesis using Suc.IH[OF c1(2)] c1 by auto
  qed (use Suc.prems in simp)
qed simp

lemma transferTransaction_ok:
  assumes "comm_ok c" and "remaining c \<noteq> []"
  shows "\<exists>c'. transferTransaction arrivals c = Some c' \<and> comm_ok c' \<and> remaining c' = remaining c \<and>
    processedTransaction c' \<noteq> [] \<and> addingTxQueue c' = addingTxQueue c"
proof -
  obtain c1 where c1: "(if processedTransaction c = []
        then if popped c < length (incoming c) then transfer_one (incoming c ! popped c) c else None else Some c) = Some c1"
    "comm_ok c1" "remaining c1 = remaining c" "processedTransaction c1 \<noteq> []" "addingTxQueue c1 = addingTxQueue c"
  proof (cases "processedTransaction c = []")
    case True
    then have lt: "popped c < length (incoming c)" using assms(2) by (simp add: remaining_def)
    show thesis using transfer_one_ok[OF assms(1) lt] True lt that by auto
  qed (use assms that in auto)
  show ?thesis using transfer_more_ok[OF c1(2), of "arrivals (popped c1) - popped c1"] c1
    by (auto simp: transferTransaction_def)
qed

lemma get_loop_ok:
  assumes "comm_ok c" and "processedTransaction c \<noteq> []" and "remaining c = xs @ y # ys"
    and "\<forall>x \<in> set xs. epoch_of x = e" and "epoch_of y \<noteq> e"
  shows "\<exists>k c'. get_loop arrivals e mx mn acc c = Some (acc @ take k xs, c') \<and> comm_ok c' \<and>
    remaining c' = drop k xs @ y # ys \<and> k \<le> length xs \<and> (length acc < mx \<longrightarrow> xs \<noteq> [] \<longrightarrow> 0 < k)"
  using assms(1-4)
proof (induction "mx - length acc" arbitrary: acc c xs rule: less_induct)
  case less
  obtain t ts where pt: "processedTransaction c = t # ts" using less.prems(2) by (cases "processedTransaction c") auto
  show ?case
  proof (cases "length acc < mx \<and> xs \<noteq> []")
    case False
    then have "get_loop arrivals e mx mn acc c = Some (acc, c)"
      using pt less.prems(3) assms(5) by (subst get_loop.simps) (auto simp: remaining_def)
    then show ?thesis using less.prems False by (intro exI[of _ 0] exI[of _ c]) auto
  next
    case True
    then obtain xs1 where xs: "xs = t # xs1" using pt less.prems(3) by (cases xs) (auto simp: remaining_def)
    then have t: "epoch_of t = e" using less.prems(4) by simp
    let ?c = "c\<lparr>processedTransaction := ts, addingTxQueue := addingTxQueue c @ [t]\<rparr>"
    have c: "comm_ok ?c" "remaining ?c = xs1 @ y # ys" using less.prems(1,3) pt xs by (simp_all add: comm_ok_def remaining_def)
    have IH: "\<exists>k c'. get_loop arrivals e mx mn (acc @ [t]) c1 = Some (acc @ take (Suc k) xs, c') \<and> comm_ok c' \<and>
        remaining c' = drop (Suc k) xs @ y # ys \<and> Suc k \<le> length xs"
      if "comm_ok c1" "processedTransaction c1 \<noteq> []" "remaining c1 = xs1 @ y # ys" for c1
    proof -
      have "mx - length (acc @ [t]) < mx - length acc" "\<forall>x \<in> set xs1. epoch_of x = e" using True less.prems(4) xs by auto
      from less.hyps[OF this(1) that(1,2,3) this(2)] obtain k c' where
        "get_loop arrivals e mx mn (acc @ [t]) c1 = Some ((acc @ [t]) @ take k xs1, c')" "comm_ok c'"
        "remaining c' = drop k xs1 @ y # ys" "k \<le> length xs1" by blast
      then show ?thesis using xs by (intro exI[of _ k] exI[of _ c']) simp
    qed
    show ?thesis
    proof (cases "ts = []")
      case nil: True
      show ?thesis
      proof (cases "mn < length acc + 1")
        case True
        then have "get_loop arrivals e mx mn acc c = Some (acc @ [t], ?c)"
          using pt t nil \<open>length acc < mx \<and> xs \<noteq> []\<close> by (subst get_loop.simps) simp
        then show ?thesis using c xs by (intro exI[of _ 1] exI[of _ ?c]) simp
      next
        case False
        obtain c1 where c1: "transferTransaction arrivals ?c = Some c1" "comm_ok c1" "remaining c1 = xs1 @ y # ys" "processedTransaction c1 \<noteq> []"
          using transferTransaction_ok[OF c(1), of arrivals] c(2) by auto
        have "get_loop arrivals e mx mn acc c = get_loop arrivals e mx mn (acc @ [t]) c1"
          using pt t nil True False c1(1) by (subst get_loop.simps) simp
        then show ?thesis using IH[OF c1(2,4,3)] by auto
      qed
    next
      case False
      then have "get_loop arrivals e mx mn acc c = get_loop arrivals e mx mn (acc @ [t]) ?c"
        using pt t True by (subst get_loop.simps) simp
      then show ?thesis using IH[OF c(1) _ c(2)] False by auto
    qed
  qed
qed

lemma front_ok:
  assumes "comm_ok c" and "remaining c = z # zs"
  obtains c0 ts where "(if processedTransaction c = [] then transferTransaction arrivals c else Some c) = Some c0"
    "comm_ok c0" "remaining c0 = z # zs" "processedTransaction c0 = z # ts"
proof -
  obtain c0 where c0: "(if processedTransaction c = [] then transferTransaction arrivals c else Some c) = Some c0"
    "comm_ok c0" "remaining c0 = z # zs" "processedTransaction c0 \<noteq> []"
  proof (cases "processedTransaction c = []")
    case True
    then show thesis using transferTransaction_ok[OF assms(1), of arrivals] assms(2) that by auto
  qed (use assms that in auto)
  then show thesis using that by (cases "processedTransaction c0") (auto simp: remaining_def)
qed

interpretation controller: comm_source "getTransaction arrivals" comm_ok remaining for arrivals
proof
  fix s y ys e mx mn
  assume "comm_ok s" "remaining s = y # ys" "epoch_of y \<noteq> e"
  then show "\<exists>s'. getTransaction arrivals e mx mn s = Some (None, s') \<and> comm_ok s' \<and> remaining s' = remaining s"
    by (elim front_ok[of s y ys arrivals]) (auto simp: getTransaction_def)
next
  fix s xs y ys e and mx mn :: nat
  assume a: "comm_ok s" "remaining s = xs @ y # ys" "xs \<noteq> []" "\<forall>x \<in> set xs. epoch_of x = e" "epoch_of y \<noteq> e" "0 < mx"
  then obtain x xs1 where xs: "xs = x # xs1" by (cases xs) auto
  then have "remaining s = x # xs1 @ y # ys" using a(2) by simp
  from a(1) this obtain c0 ts where c0: "(if processedTransaction s = [] then transferTransaction arrivals s else Some s) = Some c0"
    "comm_ok c0" "remaining c0 = x # xs1 @ y # ys" "processedTransaction c0 = x # ts"
    by (rule front_ok)
  have c03: "remaining c0 = xs @ y # ys" using c0(3) xs by simp
  obtain k c' where k: "get_loop arrivals e mx mn [] c0 = Some (take k xs, c')" "comm_ok c'" "remaining c' = drop k xs @ y # ys"
    "k \<le> length xs" "0 < k"
    using get_loop_ok[OF c0(2) _ c03 a(4,5), of arrivals mx mn "[]"] c0(4) a(3,6) by auto
  then show "\<exists>k s'. getTransaction arrivals e mx mn s = Some (Some (take k xs), s') \<and> comm_ok s' \<and>
      remaining s' = drop k xs @ y # ys \<and> 0 < k \<and> k \<le> length xs"
    using c0 xs a(4) by (intro exI[of _ k] exI[of _ c']) (simp add: getTransaction_def)
qed

section \<open>Properties\<close>



section \<open>The end of an epoch\<close>

definition to_block :: "bool \<Rightarrow> transaction \<Rightarrow> bool" where
  "to_block reusing t \<longleftrightarrow>
     transactionResult t \<in> {COMMIT, ABORT_NO_RETRY} \<or> (transactionResult t = ABORT \<and> \<not> reusing)"

definition to_retry :: "bool \<Rightarrow> transaction \<Rightarrow> bool" where
  "to_retry reusing t \<longleftrightarrow> transactionResult t = ABORT \<and> reusing"

lemma categorize_fold:
  "fold (categorize_one e) ts (m, w) =
     (let again = map (reset_for (e + 1)) (filter (to_retry (reusingAbortTransaction m)) ts) in
      (m\<lparr>block_txs := block_txs m @ filter (to_block (reusingAbortTransaction m)) ts,
         epochTxBuffer := (epochTxBuffer m)(e + 1 := epochTxBuffer m (e + 1) @ again)\<rparr>, w @ again))"
proof (induction ts arbitrary: m w)
  case (Cons t ts)
  obtain m1 w1 where 1: "categorize_one e t (m, w) = (m1, w1)" by (cases "categorize_one e t (m, w)")
  show ?case
  proof (cases m)
    case (fields cat re b ce pe rw bt cl se)
    show ?thesis unfolding fold.simps comp_apply 1 Cons.IH using 1 fields
      by (cases "transactionResult t"; cases re) (auto simp: categorize_one_def to_block_def[of _ t] to_retry_def[of _ t] Let_def fun_eq_iff)
  qed
qed simp

text \<open>C29. What happens to the transactions of a finished epoch. With one of the modes on, the committed ones and
  those aborted for good go to the block in their order; aborted ones go to the block as well, or, in the reusing mode, are
  reset, move to the next epoch behind what it already has, and are kept for sending.
  If no transaction was left undecided, each one takes exactly one of the two ways. The queue of the finished epoch is empty
  and its successor is being processed.\<close>

theorem epoch_transactions_accounted:
  assumes "categorizeTransaction m \<or> reusingAbortTransaction m"
    and "\<forall>t \<in> set (epochTxBuffer m e). transactionResult t \<noteq> PENDING"
  shows "\<exists>m'. epochFinishedCallback True saved e m = Some m' \<and>
    block_txs m' = block_txs m @ filter (to_block (reusingAbortTransaction m)) (epochTxBuffer m e) \<and>
    reuseTxWrapper m' = Some (map (reset_for (e + 1)) (filter (to_retry (reusingAbortTransaction m)) (epochTxBuffer m e))) \<and>
    epochTxBuffer m' = (epochTxBuffer m)(e := [], e + 1 := epochTxBuffer m (e + 1) @ the (reuseTxWrapper m')) \<and>
    mset (epochTxBuffer m e) = mset (filter (to_block (reusingAbortTransaction m)) (epochTxBuffer m e)) +
      mset (filter (to_retry (reusingAbortTransaction m)) (epochTxBuffer m e)) \<and>
    processingEpoch m' = e + 1"
proof -
  have "to_retry r t = (\<not> to_block r t)" if "t \<in> set (epochTxBuffer m e)" for r t
    using assms(2) that by (cases "transactionResult t") (auto simp: to_retry_def to_block_def)
  then have "filter (to_retry r) (epochTxBuffer m e) = filter (\<lambda>t. \<not> to_block r t) (epochTxBuffer m e)" for r
    by (intro filter_cong) simp_all
  then have "mset (epochTxBuffer m e) = mset (filter (to_block (reusingAbortTransaction m)) (epochTxBuffer m e)) +
      mset (filter (to_retry (reusingAbortTransaction m)) (epochTxBuffer m e))"
    by simp
  then show ?thesis using assms(1)
    by (simp add: epochFinishedCallback_def categorizeEpoch_def categorize_fold take_queue_def Let_def fun_upd_twist)
qed

theorem epoch_transactions_accounted_witness:
  "let t = (makeTransaction 3 8 False)\<lparr>transactionResult := ABORT\<rparr>;
       m = (newTxManager False True)\<lparr>epochTxBuffer := (\<lambda>k. if k = 3 then [t] else [])\<rparr>
   in (\<exists>m'. epochFinishedCallback True 3 3 m = Some m' \<and> reuseTxWrapper m' = Some [reset_for 4 t])"
  using epoch_transactions_accounted[of "(newTxManager False True)\<lparr>epochTxBuffer :=
      (\<lambda>k. if k = 3 then [(makeTransaction 3 8 False)\<lparr>transactionResult := ABORT\<rparr>] else [])\<rparr>" 3 3]
  by (auto simp: newTxManager_def to_retry_def Let_def)

section \<open>The recycler frees every object once\<close>

definition map_keys :: "recycler \<Rightarrow> nat list" where
  "map_keys r = map fst (transactionMap r)"

definition objects :: "recycler \<Rightarrow> nat list" where
  "objects r = rc_adding r @ concat (map snd (transactionMap r)) @ rc_deleted r"

lemma mset_update_slot:
  "mset (concat (map snd (AList.update k v al))) + mset (case map_of al k of None \<Rightarrow> [] | Some ps \<Rightarrow> ps) =
    mset (concat (map snd al)) + mset v"
  by (induction al) (auto simp: ac_simps)

lemma mset_delete_slot:
  assumes "distinct (map fst al)"
  shows "mset (concat (map snd (AList.delete k al))) + mset (case map_of al k of None \<Rightarrow> [] | Some ps \<Rightarrow> ps) =
    mset (concat (map snd al))"
  using assms
proof (induction al)
  case (Cons x al)
  have "AList.delete k al = al" if "k \<notin> fst ` set al" using that by (induction al) auto
  then show ?case using Cons by (cases x) (auto simp: map_of_eq_None_iff[THEN iffD2] ac_simps split: option.splits)
qed simp

lemma file_under_facts:
  "mset (objects (file_under e p r)) = add_mset p (mset (objects r))"
  "distinct (map_keys r) \<Longrightarrow> distinct (map_keys (file_under e p r))"
  "map_slot (file_under e p r) k = (if k = e then map_slot r k @ [p] else map_slot r k)"
  "rc_adding (file_under e p r) = rc_adding r" "rc_deleted (file_under e p r) = rc_deleted r"
  using mset_update_slot[of e "map_slot r e @ [p]" "transactionMap r"]
  by (simp_all add: file_under_def objects_def map_keys_def map_slot_def distinct_update update_conv' ac_simps)

lemma file_fold:
  assumes "distinct (map_keys r)"
  shows "mset (objects (fold (\<lambda>p. file_under (ep p) p) ps r)) = mset ps + mset (objects r)"
    "distinct (map_keys (fold (\<lambda>p. file_under (ep p) p) ps r))"
    "map_slot (fold (\<lambda>p. file_under (ep p) p) ps r) k = map_slot r k @ filter (\<lambda>p. ep p = k) ps"
    "rc_adding (fold (\<lambda>p. file_under (ep p) p) ps r) = rc_adding r"
    "rc_deleted (fold (\<lambda>p. file_under (ep p) p) ps r) = rc_deleted r"
  using assms by (induction ps arbitrary: r) (auto simp: file_under_facts)

lemma recycle_fold:
  assumes "distinct (map_keys r)"
  shows "mset (objects (fold (recycle_one ep e) ps r)) = mset ps + mset (objects r)"
    "distinct (map_keys (fold (recycle_one ep e) ps r))"
    "map_slot (fold (recycle_one ep e) ps r) k = map_slot r k @ filter (\<lambda>p. ep p = k \<and> k \<noteq> e) ps"
    "rc_adding (fold (recycle_one ep e) ps r) = rc_adding r"
    "rc_deleted (fold (recycle_one ep e) ps r) = rc_deleted r @ filter (\<lambda>p. ep p = e) ps"
proof -
  have one: "mset (objects (recycle_one ep e p r)) = add_mset p (mset (objects r))" 
    "distinct (map_keys r) \<Longrightarrow> distinct (map_keys (recycle_one ep e p r))"
    "map_slot (recycle_one ep e p r) k = (if k = ep p \<and> k \<noteq> e then map_slot r k @ [p] else map_slot r k)"
    "rc_adding (recycle_one ep e p r) = rc_adding r"
    "rc_deleted (recycle_one ep e p r) = (if ep p = e then rc_deleted r @ [p] else rc_deleted r)" for p r
    by (auto simp: recycle_one_def file_under_facts) (simp_all add: objects_def map_keys_def map_slot_def)
  show "mset (objects (fold (recycle_one ep e) ps r)) = mset ps + mset (objects r)"
    "distinct (map_keys (fold (recycle_one ep e) ps r))"
    "map_slot (fold (recycle_one ep e) ps r) k = map_slot r k @ filter (\<lambda>p. ep p = k \<and> k \<noteq> e) ps"
    "rc_adding (fold (recycle_one ep e) ps r) = rc_adding r"
    "rc_deleted (fold (recycle_one ep e) ps r) = rc_deleted r @ filter (\<lambda>p. ep p = e) ps"
    using assms by (induction ps arbitrary: r) (auto simp: one)
qed

text \<open>The recycler. Clearing an epoch deletes exactly the objects that are filed under it, or wait to be
  filed, and still carry that epoch; an object whose transaction moved to another epoch is filed there and
  survives. No object is lost and none is deleted twice.\<close>

theorem recycler_frees_once:
  assumes "distinct (map_keys r)" and "distinct (objects r)"
    and "old = map_slot r e @ filter (\<lambda>p. ep p = e) (rc_adding r)" and "r' = clearTransactionForEpoch ep e r"
  shows "rc_deleted r' = rc_deleted r @ filter (\<lambda>p. ep p = e) old \<and>
    (\<forall>k. map_slot r' k = (if k = e then [] else map_slot r k @ filter (\<lambda>p. ep p = k) (rc_adding r @ old))) \<and>
    distinct (map_keys r') \<and> distinct (objects r') \<and> set (objects r') = set (objects r)"
proof -
  define r1 where "r1 = r\<lparr>transactionMap := AList.update (e + 20) (map_slot r (e + 20)) (transactionMap r), rc_adding := []\<rparr>"
  define r2 where "r2 = fold (\<lambda>p. file_under (ep p) p) (rc_adding r) r1"
  define r3 where "r3 = fold (recycle_one ep e) (map_slot r2 e) r2"
  have r': "r' = r3\<lparr>transactionMap := AList.delete e (transactionMap r3)\<rparr>"
    by (simp add: assms(4) clearTransactionForEpoch_def r3_def r2_def r1_def Let_def)
  have 1: "distinct (map_keys r1)" "mset (rc_adding r) + mset (objects r1) = mset (objects r)" "map_slot r1 k = map_slot r k" 
    "rc_adding r1 = []" "rc_deleted r1 = rc_deleted r" for k
    using assms(1) mset_update_slot[of "e + 20" "map_slot r (e + 20)" "transactionMap r"]
    by (simp_all add: r1_def map_keys_def objects_def map_slot_def distinct_update update_conv' ac_simps)
  note 2 = file_fold[OF 1(1), of ep "rc_adding r", folded r2_def]
  note 3 = recycle_fold[OF 2(2), of ep e "map_slot r2 e", folded r3_def]
  have slot: "map_slot r2 e = old" "map_slot r3 e = old" using 2(3) 3(3) 1(3) assms(3) by simp_all
  have "mset (objects r') + mset (map_slot r3 e) = mset (objects r3)"
    using mset_delete_slot[of "transactionMap r3" e] 3(2) by (simp add: r' objects_def map_keys_def map_slot_def ac_simps)
  then have m: "mset (objects r') = mset (objects r)" using 3(1) 2(1) 1(2) slot by simp
  have "map_slot r' k = (if k = e then [] else map_slot r3 k)" for k by (simp add: r' map_slot_def delete_conv')
  then have "map_slot r' k = (if k = e then [] else map_slot r k @ filter (\<lambda>p. ep p = k) (rc_adding r @ old))" for k
    using 3(3)[of k] 2(3)[of k] 1(3)[of k] slot by simp
  moreover have "rc_deleted r' = rc_deleted r @ filter (\<lambda>p. ep p = e) old" using 3(5) 2(5) 1(5) slot by (simp add: r')
  moreover have "distinct (map_keys r')" using 3(2) by (simp add: r' map_keys_def distinct_delete)
  ultimately show ?thesis using m assms(2) mset_eq_setD[OF m] mset_eq_imp_distinct_iff[OF m] by simp
qed

theorem recycler_frees_once_witness:
  "rc_deleted (clearTransactionForEpoch (\<lambda>p. if p = 7 then 2 else 1) 1
      \<lparr>rc_adding = [8], transactionMap = [(1, [5, 7])], rc_deleted = [4]\<rparr>) = [4, 5, 8]"
  using recycler_frees_once[of "\<lparr>rc_adding = [8], transactionMap = [(1, [5, 7])], rc_deleted = [4]\<rparr>" "[5, 7, 8]" 1
      "\<lambda>p. if p = 7 then 2 else 1"]
  by (simp add: map_keys_def objects_def map_slot_def)

end
