(* ===== verification/Block_Storage.thy ===== *)
theory Block_Storage
  imports Neu_Prelude C_Strings
begin

text \<open>
  The stored chain: the message \<open>Block\<close> of \<open>block.proto\<close> and the two implementations of \<open>BlockStorage\<close>, one that keeps the serialized
  blocks in a map (\<open>block_storage_to_db.cpp\<close>) and one that keeps one file per block and the number of the
  last one in \<open>block_num.txt\<close> (\<open>block_storage_to_file.cpp\<close>).

  Writing and parsing messages is protobuf's; \<open>ser\<close> and \<open>parse\<close> stand for it. The files are those of the working directory, and
  \<open>opens\<close> tells which of them can be opened for writing. A load returns \<open>Some None\<close> when the code returns false; following the end
  iterator of the map, or using a message that did not parse, is \<open>None\<close>.

  The class \<open>BlockStorage\<close> is the locale \<open>block_storage\<close>; both implementations are interpretations of it.
\<close>

section \<open>Blocks\<close>

record block_header =
  blk_number :: epoch_size_t
  previous_hash :: string
  data_hash :: string

record block =
  blk_header :: block_header
  blk_data :: "string list"
  blk_metadata :: "string list"

definition newBlock :: block where
  "newBlock = \<lparr>blk_header = \<lparr>blk_number = 0, previous_hash = [], data_hash = []\<rparr>, blk_data = [], blk_metadata = []\<rparr>"

abbreviation number_of :: "block \<Rightarrow> epoch_size_t" where
  "number_of b \<equiv> blk_number (blk_header b)"

section \<open>Blocks in memory\<close>

record db_blocks =
  db_map :: "epoch_size_t \<rightharpoonup> string"
  bufferedEpochFromDb :: epoch_size_t
  dbEpoch :: epoch_size_t

definition newBlockStorageToDB :: db_blocks where
  "newBlockStorageToDB = \<lparr>db_map = Map.empty, bufferedEpochFromDb = 0, dbEpoch = 0\<rparr>"

definition db_insertBlock :: "(block \<Rightarrow> string) \<Rightarrow> block \<Rightarrow> db_blocks \<Rightarrow> bool \<times> db_blocks" where
  "db_insertBlock ser b s =
     (True, s\<lparr>db_map := (db_map s)(number_of b \<mapsto> ser b), bufferedEpochFromDb := number_of b\<rparr>)"

definition db_loadBlock :: "(string \<Rightarrow> block option) \<Rightarrow> epoch_size_t \<Rightarrow> db_blocks \<Rightarrow> block option option" where
  "db_loadBlock parse epoch s =
     (if epoch > bufferedEpochFromDb s then Some None
      else Option.bind (db_map s epoch) (\<lambda>raw. map_option Some (parse raw)))"

definition db_updateLatestSavedEpoch :: "db_blocks \<Rightarrow> bool \<times> db_blocks" where
  "db_updateLatestSavedEpoch s = (True, s\<lparr>dbEpoch := bufferedEpochFromDb s\<rparr>)"

definition db_appendBlock :: "(block \<Rightarrow> string) \<Rightarrow> block \<Rightarrow> db_blocks \<Rightarrow> bool \<times> db_blocks" where
  "db_appendBlock ser b s =
     (let (ok, s1) = db_insertBlock ser b s in if \<not> ok then (False, s1) else db_updateLatestSavedEpoch s1)"

section \<open>Blocks in files\<close>

record file_blocks =
  files :: "string \<rightharpoonup> string"
  bufferedEpochFromFile :: epoch_size_t

text \<open>\<open>ifs >> epoch\<close> for an unsigned 64-bit variable.\<close>

definition read_u64 :: "string \<Rightarrow> epoch_size_t" where
  "read_u64 s =
     (let clamp = (\<lambda>n. if n < 2 ^ 64 then of_nat n else - 1) in
      case dropWhile c_isspace s of
        [] \<Rightarrow> 0
      | c # cs \<Rightarrow>
          (if c = CHR ''-'' then if dec_value 0 cs < 2 ^ 64 then - of_nat (dec_value 0 cs) else - 1
           else if c = CHR ''+'' then clamp (dec_value 0 cs)
           else clamp (dec_value 0 (c # cs))))"

definition write_file :: "(string \<Rightarrow> bool) \<Rightarrow> string \<Rightarrow> string \<Rightarrow> file_blocks \<Rightarrow> file_blocks" where
  "write_file opens name content s = (if opens name then s\<lparr>files := (files s)(name \<mapsto> content)\<rparr> else s)"

text \<open>When \<open>block_num.txt\<close> is missing nothing is read, and the uninitialised variable \<open>indet\<close> becomes the epoch.\<close>

definition newBlockStorageToFile :: "(string \<Rightarrow> bool) \<Rightarrow> bool \<Rightarrow> epoch_size_t \<Rightarrow> (string \<rightharpoonup> string) \<Rightarrow> file_blocks" where
  "newBlockStorageToFile opens resetEpoch indet fs =
     (if resetEpoch then write_file opens ''block_num.txt'' ''0'' \<lparr>files = fs, bufferedEpochFromFile = 0\<rparr>
      else \<lparr>files = fs,
            bufferedEpochFromFile = (case fs ''block_num.txt'' of None \<Rightarrow> indet | Some content \<Rightarrow> read_u64 content)\<rparr>)"

definition file_insertBlock :: "(string \<Rightarrow> bool) \<Rightarrow> (block \<Rightarrow> string) \<Rightarrow> block \<Rightarrow> file_blocks \<Rightarrow> bool \<times> file_blocks" where
  "file_insertBlock opens ser b s =
     (let name = to_string_int (sint (number_of b)) @ ''.bin'' in
      if \<not> opens name then (False, s)
      else (True, (write_file opens name (ser b) s)\<lparr>bufferedEpochFromFile := number_of b\<rparr>))"

definition file_loadBlock :: "(string \<Rightarrow> block option) \<Rightarrow> epoch_size_t \<Rightarrow> file_blocks \<Rightarrow> block option option" where
  "file_loadBlock parse epoch s =
     (if epoch > bufferedEpochFromFile s then Some None
      else case files s (to_string_nat (unat epoch) @ ''.bin'') of
          None \<Rightarrow> Some None
        | Some raw \<Rightarrow> Some (parse raw))"

definition file_updateLatestSavedEpoch :: "(string \<Rightarrow> bool) \<Rightarrow> file_blocks \<Rightarrow> bool \<times> file_blocks" where
  "file_updateLatestSavedEpoch opens s =
     (True, write_file opens ''block_num.txt'' (to_string_nat (unat (bufferedEpochFromFile s))) s)"

definition file_appendBlock :: "(string \<Rightarrow> bool) \<Rightarrow> (block \<Rightarrow> string) \<Rightarrow> block \<Rightarrow> file_blocks \<Rightarrow> bool \<times> file_blocks" where
  "file_appendBlock opens ser b s =
     (let (ok, s1) = file_insertBlock opens ser b s in if \<not> ok then (False, s1) else file_updateLatestSavedEpoch opens s1)"

section \<open>The contract of BlockStorage\<close>

text \<open>The storage is a chain that grows at its end: appending the next block keeps all others.\<close>

locale block_storage =
  fixes append :: "block \<Rightarrow> 's \<Rightarrow> bool \<times> 's"
    and load :: "epoch_size_t \<Rightarrow> 's \<Rightarrow> block option option"
    and latest :: "'s \<Rightarrow> epoch_size_t"
    and ok :: "'s \<Rightarrow> bool"
  assumes append_next: "ok s \<Longrightarrow> number_of b = latest s + 1 \<Longrightarrow> unat (latest s) + 1 < 2 ^ 63 \<Longrightarrow>
      \<exists>s'. append b s = (True, s') \<and> ok s' \<and> latest s' = number_of b \<and> load (number_of b) s' = Some (Some b) \<and>
        (\<forall>k. 0 < k \<longrightarrow> k \<le> latest s \<longrightarrow> load k s' = load k s)"
    and load_stored: "ok s \<Longrightarrow> 0 < k \<Longrightarrow> k \<le> latest s \<Longrightarrow> \<exists>b. load k s = Some (Some b)"
    and load_beyond: "ok s \<Longrightarrow> latest s < k \<Longrightarrow> load k s = Some None"

section \<open>Both implementations keep it\<close>

definition stores :: "(block \<Rightarrow> string) \<Rightarrow> epoch_size_t \<Rightarrow> (epoch_size_t \<Rightarrow> string option) \<Rightarrow> bool" where
  "stores ser newest get \<longleftrightarrow> (\<forall>k. 0 < k \<longrightarrow> k \<le> newest \<longrightarrow> (\<exists>b. get k = Some (ser b)))"

definition db_ok :: "(block \<Rightarrow> string) \<Rightarrow> (string \<Rightarrow> block option) \<Rightarrow> db_blocks \<Rightarrow> bool" where
  "db_ok ser parse s \<longleftrightarrow> (\<forall>b. parse (ser b) = Some b) \<and> stores ser (bufferedEpochFromDb s) (db_map s)"

abbreviation block_file :: "epoch_size_t \<Rightarrow> string" where
  "block_file k \<equiv> to_string_nat (unat k) @ ''.bin''"

definition file_ok :: "(string \<Rightarrow> bool) \<Rightarrow> (block \<Rightarrow> string) \<Rightarrow> (string \<Rightarrow> block option) \<Rightarrow> file_blocks \<Rightarrow> bool" where
  "file_ok opens ser parse s \<longleftrightarrow> (\<forall>n. opens n) \<and> (\<forall>b. parse (ser b) = Some b) \<and>
     stores ser (bufferedEpochFromFile s) (\<lambda>k. files s (block_file k)) \<and>
     files s ''block_num.txt'' = Some (to_string_nat (unat (bufferedEpochFromFile s)))"

lemma stores_upd:
  assumes "stores ser m get" and "get' n = Some (ser b)" and "\<And>k. k \<noteq> n \<Longrightarrow> get' k = get k"
    and "\<And>k. (k \<le> n \<and> k \<noteq> n) = (k \<le> m)"
  shows "stores ser n get'"
  unfolding stores_def
proof (intro allI impI)
  fix k
  assume "0 < k" "k \<le> n"
  then show "\<exists>b. get' k = Some (ser b)"
    using assms(1-3) assms(4)[of k] by (cases "k = n") (auto simp: stores_def)
qed

lemma next_word:
  fixes n m :: epoch_size_t
  assumes "n = m + 1" and "unat m + 1 < 2 ^ 63"
  shows "n - 1 = m" "n \<noteq> 0" "m < n" "(k \<le> n \<and> k \<noteq> n) = (k \<le> m)" "sint n = int (unat n)" "unat n = unat m + 1"
proof -
  show u: "unat n = unat m + 1" using assms by (simp add: unat_word_ariths)
  show "n - 1 = m" using assms(1) by simp
  show "n \<noteq> 0" using u by auto
  show "m < n" using u by (simp add: word_less_nat_alt)
  show "(k \<le> n \<and> k \<noteq> n) = (k \<le> m)" using u by (auto simp: word_le_nat_alt word_unat_eq_iff)
  have "int (unat n) < int (2 ^ 63)" using u assms(2) by (simp only: of_nat_less_iff)
  then have "uint n < 2 ^ 63" by simp
  moreover have "- (2 ^ 63) \<le> uint n" by (rule order_trans[OF _ uint_ge_0]) simp
  ultimately have "signed_take_bit 63 (uint n) = uint n" by (intro signed_take_bit_int_eq_self)
  then show "sint n = int (unat n)" by (simp add: sint_uint)
qed

lemma to_string_nat_inject [simp]: "to_string_nat a = to_string_nat b \<longleftrightarrow> a = b"
  using dec_value_to_string by metis

lemma block_file_inject [simp]: "block_file a = block_file b \<longleftrightarrow> a = b"
  by (simp add: word_unat_eq_iff)

lemma block_file_num [simp]: "block_file k \<noteq> ''block_num.txt''" "''block_num.txt'' \<noteq> block_file k"
proof -
  obtain c cs where c: "to_string_nat (unat k) = c # cs" using to_string_nat_nonempty by (cases "to_string_nat (unat k)") auto
  then have "digit_of c \<noteq> None" using to_string_nat_digits[of "unat k"] by auto
  then have "c \<noteq> CHR ''b''" by (auto simp: digit_of_def)
  then show "block_file k \<noteq> ''block_num.txt''" "''block_num.txt'' \<noteq> block_file k" using c by auto
qed

interpretation db_chain: block_storage "db_appendBlock ser" "db_loadBlock parse" bufferedEpochFromDb "db_ok ser parse" for ser parse
proof
  fix s b
  assume a: "db_ok ser parse s" "number_of b = bufferedEpochFromDb s + 1" "unat (bufferedEpochFromDb s) + 1 < 2 ^ 63"
  note n = next_word[OF a(2,3)]
  have rt: "\<forall>b. parse (ser b) = Some b" and st: "stores ser (bufferedEpochFromDb s) (db_map s)" using a(1) by (simp_all add: db_ok_def)
  let ?s = "s\<lparr>db_map := (db_map s)(number_of b \<mapsto> ser b), bufferedEpochFromDb := number_of b, dbEpoch := number_of b\<rparr>"
  have "db_appendBlock ser b s = (True, ?s)"
    by (simp add: db_appendBlock_def db_insertBlock_def db_updateLatestSavedEpoch_def)
  moreover have "db_ok ser parse ?s" using rt stores_upd[OF st _ _ n(4), of "(db_map s)(number_of b \<mapsto> ser b)" b] by (simp add: db_ok_def)
  moreover have "db_loadBlock parse (number_of b) ?s = Some (Some b)" using rt by (simp add: db_loadBlock_def)
  moreover have "db_loadBlock parse k ?s = db_loadBlock parse k s" if "k \<le> bufferedEpochFromDb s" for k
    using n(4)[of k] that by (auto simp: db_loadBlock_def)
  ultimately show "\<exists>s'. db_appendBlock ser b s = (True, s') \<and> db_ok ser parse s' \<and> bufferedEpochFromDb s' = number_of b \<and>
      db_loadBlock parse (number_of b) s' = Some (Some b) \<and>
      (\<forall>k. 0 < k \<longrightarrow> k \<le> bufferedEpochFromDb s \<longrightarrow> db_loadBlock parse k s' = db_loadBlock parse k s)"
    by (intro exI[of _ ?s]) simp
next
  fix s k
  assume a: "db_ok ser parse s" "0 < k" "k \<le> bufferedEpochFromDb s"
  then obtain b where "db_map s k = Some (ser b)" unfolding db_ok_def stores_def by blast
  then show "\<exists>b. db_loadBlock parse k s = Some (Some b)" using a by (simp add: db_ok_def db_loadBlock_def)
qed (simp add: db_loadBlock_def)

interpretation file_chain: block_storage "file_appendBlock opens ser" "file_loadBlock parse" bufferedEpochFromFile "file_ok opens ser parse"
  for opens ser parse
proof
  fix s b
  assume a: "file_ok opens ser parse s" "number_of b = bufferedEpochFromFile s + 1" "unat (bufferedEpochFromFile s) + 1 < 2 ^ 63"
  note n = next_word[OF a(2,3)]
  have rt: "\<forall>b. parse (ser b) = Some b" and op: "\<forall>n. opens n"
    and st: "stores ser (bufferedEpochFromFile s) (\<lambda>k. files s (block_file k))" using a(1) by (simp_all add: file_ok_def)
  have name: "to_string_int (sint (number_of b)) = to_string_nat (unat (number_of b))" unfolding n(5) to_string_int_def by simp
  let ?f = "(files s)(block_file (number_of b) \<mapsto> ser b, ''block_num.txt'' \<mapsto> to_string_nat (unat (number_of b)))"
  let ?s = "s\<lparr>files := ?f, bufferedEpochFromFile := number_of b\<rparr>"
  have "file_appendBlock opens ser b s = (True, ?s)"
    using op by (simp add: file_appendBlock_def file_insertBlock_def file_updateLatestSavedEpoch_def write_file_def name)
  moreover have "file_ok opens ser parse ?s"
    using rt op stores_upd[OF st _ _ n(4), of "\<lambda>k. ?f (block_file k)" b] by (simp add: file_ok_def word_unat_eq_iff)
  moreover have "file_loadBlock parse (number_of b) ?s = Some (Some b)" using rt by (simp add: file_loadBlock_def)
  moreover have "file_loadBlock parse k ?s = file_loadBlock parse k s" if "k \<le> bufferedEpochFromFile s" for k
    using n(4)[of k] that by (auto simp: file_loadBlock_def word_unat_eq_iff)
  ultimately show "\<exists>s'. file_appendBlock opens ser b s = (True, s') \<and> file_ok opens ser parse s' \<and> bufferedEpochFromFile s' = number_of b \<and>
      file_loadBlock parse (number_of b) s' = Some (Some b) \<and>
      (\<forall>k. 0 < k \<longrightarrow> k \<le> bufferedEpochFromFile s \<longrightarrow> file_loadBlock parse k s' = file_loadBlock parse k s)"
    by (intro exI[of _ ?s]) simp
next
  fix s k
  assume a: "file_ok opens ser parse s" "0 < k" "k \<le> bufferedEpochFromFile s"
  then obtain b where "files s (block_file k) = Some (ser b)" unfolding file_ok_def stores_def by blast
  then show "\<exists>b. file_loadBlock parse k s = Some (Some b)" using a by (simp add: file_ok_def file_loadBlock_def)
qed (simp add: file_loadBlock_def)

lemma read_u64_to_string: "n < 2 ^ 64 \<Longrightarrow> read_u64 (to_string_nat n) = of_nat n"
proof -
  assume n: "n < 2 ^ 64"
  obtain c cs where c: "to_string_nat n = c # cs" using to_string_nat_nonempty by (cases "to_string_nat n") auto
  then have d: "digit_of c \<noteq> None" using to_string_nat_digits[of n] by auto
  then have "dropWhile c_isspace (c # cs) = c # cs" using digit_not_space by simp
  moreover have "c \<noteq> CHR ''-''" "c \<noteq> CHR ''+''" using digit_not_space[OF d] by auto
  moreover have "dec_value 0 (c # cs) = n" using dec_value_to_string[of n] c by simp
  ultimately show ?thesis using n c by (simp add: read_u64_def del: dec_value.simps dropWhile.simps)
qed

text \<open>A restart finds what was stored.\<close>

lemma restart_files:
  assumes "file_ok opens ser parse s"
  shows "newBlockStorageToFile opens False indet (files s) = s"
proof -
  have "unat (bufferedEpochFromFile s) < 2 ^ 64" using unsigned_less[of "bufferedEpochFromFile s"] by simp
  then show ?thesis using assms by (simp add: newBlockStorageToFile_def file_ok_def read_u64_to_string)
qed

lemma fresh_storage:
  assumes "\<forall>b. parse (ser b) = Some b"
  shows "db_ok ser parse newBlockStorageToDB" "\<forall>n. opens n \<Longrightarrow> file_ok opens ser parse (newBlockStorageToFile opens True indet fs)"
proof -
  have "to_string_nat 0 = ''0''" by code_simp
  moreover have "stores ser 0 get" for get by (auto simp: stores_def)
  ultimately show "db_ok ser parse newBlockStorageToDB"
    "\<forall>n. opens n \<Longrightarrow> file_ok opens ser parse (newBlockStorageToFile opens True indet fs)"
    using assms by (simp_all add: db_ok_def file_ok_def newBlockStorageToDB_def newBlockStorageToFile_def write_file_def)
qed

end
