(* ===== verification/Mt_Arr_List.thy ===== *)
theory Mt_Arr_List
  imports Sha256
begin

text \<open>
  \<^verbatim>\<open>src/common/merkle_tree/mt_arr_list.c\<close>: the growing array of hashes that stores one level of a
  Merkle tree. \<open>al_store\<close> holds the elements (\<^verbatim>\<open>elems\<close> is its length) and \<open>al_cap\<close> the number of
  slots behind \<^verbatim>\<open>store\<close>; a copy past the allocated slots, like a failing \<^verbatim>\<open>assert\<close>, is the value
  \<^term>\<open>None\<close>. Allocation itself is taken to succeed.
\<close>

datatype mt_error = MT_SUCCESS | MT_ERR_OUT_Of_MEMORY | MT_ERR_ILLEGAL_PARAM | MT_ERR_ILLEGAL_STATE
  | MT_ERR_ROOT_MISMATCH | MT_ERR_UNSPECIFIED

type_synonym mt_hash_t = "byte list"

definition HASH_LENGTH :: nat where "HASH_LENGTH = 32"
definition MT_AL_MAX_ELEMS :: nat where "MT_AL_MAX_ELEMS = 524288"

section \<open>Powers of two\<close>

definition smear :: "nat \<Rightarrow> 32 word \<Rightarrow> 32 word" where
  "smear k v = v OR drop_bit k v"

definition round_next_power_two :: "32 word \<Rightarrow> 32 word" where
  "round_next_power_two v =
     (let v1 = smear 16 (smear 8 (smear 4 (smear 2 (smear 1 (v - 1))))) + 1
      in if v1 = 0 then v1 + 1 else v1)"

definition is_power_of_two :: "32 word \<Rightarrow> bool" where
  "is_power_of_two v \<longleftrightarrow> v \<noteq> 0 \<and> v AND (v - 1) = 0"

section \<open>The array\<close>

record mt_al =
  al_store :: "mt_hash_t list"
  al_cap :: nat

definition mt_al_create :: mt_al where
  "mt_al_create = \<lparr>al_store = [], al_cap = 0\<rparr>"

definition mt_al_get_size :: "mt_al \<Rightarrow> nat" where
  "mt_al_get_size al = length (al_store al)"

definition al_room :: "mt_al \<Rightarrow> bool" where
  "al_room al \<longleftrightarrow> length (al_store al) < MT_AL_MAX_ELEMS"

definition al_push :: "mt_hash_t \<Rightarrow> mt_al \<Rightarrow> (mt_error \<times> mt_al) option" where
  "al_push hash al =
     (if length (al_store al) < al_cap al then Some (MT_SUCCESS, al\<lparr>al_store := al_store al @ [hash]\<rparr>) else None)"

definition mt_al_add :: "mt_al \<Rightarrow> mt_hash_t \<Rightarrow> (mt_error \<times> mt_al) option" where
  "mt_al_add al hash =
     (let elems = length (al_store al)
      in if \<not> al_room al then None
         else if elems = 0 then al_push hash (al\<lparr>al_cap := 1\<rparr>)
         else if is_power_of_two (of_nat elems)
         then if push_bit 1 (of_nat elems :: 32 word) < of_nat elems \<or>
                 push_bit 1 (of_nat elems :: 32 word) > of_nat MT_AL_MAX_ELEMS
              then Some (MT_ERR_ILLEGAL_STATE, al)
              else al_push hash (al\<lparr>al_cap := elems * 2\<rparr>)
         else al_push hash al)"

definition mt_al_update :: "mt_al \<Rightarrow> mt_hash_t \<Rightarrow> nat \<Rightarrow> (mt_error \<times> mt_al) option" where
  "mt_al_update al hash offset =
     (if \<not> al_room al then None
      else if \<not> offset < length (al_store al) then Some (MT_ERR_ILLEGAL_PARAM, al)
      else Some (MT_SUCCESS, al\<lparr>al_store := (al_store al)[offset := hash]\<rparr>))"

definition mt_al_update_if_exists :: "mt_al \<Rightarrow> mt_hash_t \<Rightarrow> nat \<Rightarrow> (mt_error \<times> mt_al) option" where
  "mt_al_update_if_exists al hash offset =
     (if \<not> al_room al then None
      else if offset \<ge> length (al_store al) then Some (MT_SUCCESS, al)
      else Some (MT_SUCCESS, al\<lparr>al_store := (al_store al)[offset := hash]\<rparr>))"

definition mt_al_add_or_update :: "mt_al \<Rightarrow> mt_hash_t \<Rightarrow> nat \<Rightarrow> (mt_error \<times> mt_al) option" where
  "mt_al_add_or_update al hash offset =
     (if \<not> al_room al then None
      else if offset > length (al_store al) then Some (MT_ERR_ILLEGAL_PARAM, al)
      else if offset = length (al_store al) then mt_al_add al hash
      else mt_al_update al hash offset)"

definition mt_al_truncate :: "mt_al \<Rightarrow> nat \<Rightarrow> (mt_error \<times> mt_al) option" where
  "mt_al_truncate al elems =
     (if \<not> al_room al then None
      else if \<not> elems < length (al_store al) then Some (MT_ERR_ILLEGAL_PARAM, al)
      else if elems = 0 then Some (MT_SUCCESS, \<lparr>al_store = [], al_cap = 0\<rparr>)
      else Some (MT_SUCCESS,
        \<lparr>al_store = take elems (al_store al), al_cap = unat (round_next_power_two (of_nat elems))\<rparr>))"

text \<open>\<^verbatim>\<open>mt_al_get\<close> returns a pointer, null when out of range.\<close>

definition mt_al_get :: "mt_al \<Rightarrow> nat \<Rightarrow> mt_hash_t option option" where
  "mt_al_get al offset =
     (if \<not> al_room al then None
      else if \<not> offset < length (al_store al) then Some None
      else Some (Some (al_store al ! offset)))"

lemmas al_defs = mt_al_create_def mt_al_get_size_def al_room_def al_push_def mt_al_add_def mt_al_update_def
  mt_al_update_if_exists_def mt_al_add_or_update_def mt_al_truncate_def mt_al_get_def

section \<open>The bit tricks\<close>

lemma range_twice:
  "(\<exists>j \<ge> i. j < i + k \<and> P j) \<or> (\<exists>j \<ge> i + k. j < i + k + k \<and> P j) \<longleftrightarrow> (\<exists>j \<ge> i. j < i + 2 * k \<and> P j)"
  for i k :: nat
proof
  assume "\<exists>j \<ge> i. j < i + 2 * k \<and> P j"
  then obtain j where "j \<ge> i" "j < i + 2 * k" "P j" by blast
  then show "(\<exists>j \<ge> i. j < i + k \<and> P j) \<or> (\<exists>j \<ge> i + k. j < i + k + k \<and> P j)"
    by (cases "j < i + k") (auto simp: not_less)
next
  assume "(\<exists>j \<ge> i. j < i + k \<and> P j) \<or> (\<exists>j \<ge> i + k. j < i + k + k \<and> P j)"
  then obtain j where "j \<ge> i \<and> j < i + k \<or> j \<ge> i + k \<and> j < i + k + k" "P j" by blast
  then show "\<exists>j \<ge> i. j < i + 2 * k \<and> P j" by (intro exI[of _ j]) linarith
qed

lemma smear_bits:
  assumes "\<And>i. bit w i \<longleftrightarrow> (\<exists>j \<ge> i. j < i + k \<and> bit x j)"
  shows "bit (smear k w) i \<longleftrightarrow> (\<exists>j \<ge> i. j < i + 2 * k \<and> bit x j)"
proof -
  have "bit (smear k w) i \<longleftrightarrow> bit w i \<or> bit w (i + k)"
    by (simp add: smear_def bit_or_iff bit_drop_bit_eq add.commute)
  also have "\<dots> \<longleftrightarrow> (\<exists>j \<ge> i. j < i + 2 * k \<and> bit x j)"
    unfolding assms by (rule range_twice)
  finally show ?thesis .
qed

lemma smear_all:
  "bit (smear 16 (smear 8 (smear 4 (smear 2 (smear 1 x))))) i \<longleftrightarrow> (\<exists>j \<ge> i. bit (x :: 32 word) j)"
proof -
  have "bit x i \<longleftrightarrow> (\<exists>j \<ge> i. j < i + 1 \<and> bit x j)" for i by (auto simp: le_less_Suc_eq less_Suc_eq_le)
  from smear_bits[OF this] have "bit (smear 1 x) i \<longleftrightarrow> (\<exists>j \<ge> i. j < i + 2 \<and> bit x j)" for i by simp
  from smear_bits[OF this] have "bit (smear 2 (smear 1 x)) i \<longleftrightarrow> (\<exists>j \<ge> i. j < i + 4 \<and> bit x j)" for i by simp
  from smear_bits[OF this] have "bit (smear 4 (smear 2 (smear 1 x))) i \<longleftrightarrow> (\<exists>j \<ge> i. j < i + 8 \<and> bit x j)" for i
    by simp
  from smear_bits[OF this] have "bit (smear 8 (smear 4 (smear 2 (smear 1 x)))) i \<longleftrightarrow>
    (\<exists>j \<ge> i. j < i + 16 \<and> bit x j)" for i by simp
  from smear_bits[OF this] have "bit (smear 16 (smear 8 (smear 4 (smear 2 (smear 1 x))))) i \<longleftrightarrow>
    (\<exists>j \<ge> i. j < i + 32 \<and> bit x j)" by simp
  moreover have "j < 32" if "bit x j" for j
    using that bit_imp_le_length[of x j] by simp
  ultimately show ?thesis by (meson trans_less_add2)
qed

lemma bit_unat: "bit (w :: 32 word) i \<longleftrightarrow> odd (unat w div 2 ^ i)"
proof -
  have "bit (unat w) i \<longleftrightarrow> bit w i" by (simp add: bit_unsigned_iff)
  then show ?thesis by (simp add: bit_nat_def)
qed

lemma unat_exp:
  assumes "k < 32"
  shows "unat (2 ^ k :: 32 word) = 2 ^ k"
proof -
  have "(2 :: nat) ^ k < 2 ^ 32" using assms by (intro power_strict_increasing) simp_all
  then have "unat (of_nat (2 ^ k) :: 32 word) = 2 ^ k" by (simp add: unat_of_nat del: of_nat_power)
  then show ?thesis by simp
qed

lemma top_bit:
  fixes w :: "32 word"
  assumes "2 ^ h \<le> unat w" and "unat w < 2 ^ (h + 1)"
  shows "bit w h" and "\<And>j. bit w j \<Longrightarrow> j \<le> h"
proof -
  have "unat w div 2 ^ h = 1" using assms by (intro div_nat_eqI) simp_all
  then show "bit w h" by (simp add: bit_unat)
  fix j assume "bit w j"
  then have "unat w div 2 ^ j \<noteq> 0" unfolding bit_unat by (metis even_zero)
  then have "2 ^ j \<le> unat w" by (simp add: div_eq_0_iff not_less)
  then have "(2 :: nat) ^ j < 2 ^ (h + 1)" using assms(2) by simp
  then have "j < h + 1" by (rule power_less_imp_less_exp[rotated]) simp
  then show "j \<le> h" by simp
qed

lemma log_exists: "0 < (n :: nat) \<Longrightarrow> \<exists>h. 2 ^ h \<le> n \<and> n < 2 ^ (h + 1)"
  by (rule ex_power_ivl1) simp_all

lemma word_less_exp: "2 ^ h \<le> unat (w :: 32 word) \<Longrightarrow> h < 32"
proof (rule ccontr)
  assume "2 ^ h \<le> unat w" and "\<not> h < 32"
  moreover from this have "(2 :: nat) ^ 32 \<le> 2 ^ h" by (intro power_increasing) simp_all
  moreover have "unat w < 2 ^ 32" using unsigned_less[of w, where ?'a = nat] by simp
  ultimately show False by simp
qed

lemma smear_mask:
  fixes x :: "32 word"
  assumes "2 ^ h \<le> unat x" and "unat x < 2 ^ (h + 1)"
  shows "smear 16 (smear 8 (smear 4 (smear 2 (smear 1 x)))) = mask (h + 1)"
proof (rule bit_word_eqI)
  fix i :: nat assume "i < LENGTH(32)"
  have "(\<exists>j \<ge> i. bit x j) \<longleftrightarrow> i \<le> h" using top_bit[OF assms] by (meson le_trans)
  then show "bit (smear 16 (smear 8 (smear 4 (smear 2 (smear 1 x))))) i \<longleftrightarrow> bit (mask (h + 1) :: 32 word) i"
    unfolding smear_all using \<open>i < LENGTH(32)\<close> by (simp add: bit_mask_iff less_Suc_eq_le)
qed

lemma unat_pred: "v \<noteq> 0 \<Longrightarrow> unat (v - 1) = unat v - 1"
  by (simp add: unat_minus_one)

lemma round_next_power_two_spec:
  assumes "v \<noteq> 0" and "unat v \<le> 2 ^ 31"
  obtains k where "unat (round_next_power_two v) = 2 ^ k" and "unat v \<le> 2 ^ k" and "2 ^ k < 2 * unat v"
proof (cases "unat v = 1")
  case True
  then have "v = 1" by (metis unat_1 word_unat_eq_iff)
  then have "round_next_power_two v = 1" by (simp add: round_next_power_two_def smear_def)
  then show ?thesis using that[of 0] True by simp
next
  case False
  have v: "0 < unat v" using assms(1) by (simp add: unat_gt_0)
  then have u: "0 < unat (v - 1)" using False assms(1) by (simp add: unat_pred)
  obtain h where h: "2 ^ h \<le> unat (v - 1)" "unat (v - 1) < 2 ^ (h + 1)" using log_exists[OF u] by blast
  have "(2 :: nat) ^ h < 2 ^ 31" using h(1) assms v by (simp add: unat_pred)
  then have h31: "h < 31" by (rule power_less_imp_less_exp[rotated]) simp
  have "unat (2 ^ (h + 1) :: 32 word) = 2 ^ (h + 1)"
    using h31 by (intro unat_exp) simp
  moreover have "mask (h + 1) + 1 = (2 ^ (h + 1) :: 32 word)" by (simp add: mask_eq_exp_minus_1)
  moreover from calculation(1) have "(2 ^ (h + 1) :: 32 word) \<noteq> 0"
    by (metis power_not_zero unsigned_0 zero_neq_numeral)
  ultimately have "unat (round_next_power_two v) = 2 ^ (h + 1)"
    unfolding round_next_power_two_def Let_def smear_mask[OF h] by (simp only: if_False)
  then show ?thesis using that[of "h + 1"] h v assms(1) by (simp add: unat_pred)
qed

lemma mask_disjoint: "(2 ^ k :: 32 word) AND mask k = 0"
  by (rule bit_word_eqI) (auto simp: bit_simps)

lemma is_power_of_two_spec: "is_power_of_two v \<longleftrightarrow> (\<exists>k. unat v = 2 ^ k)"
proof
  assume p: "is_power_of_two v"
  then have v: "v \<noteq> 0" "0 < unat v" by (simp_all add: is_power_of_two_def unat_gt_0)
  obtain h where h: "2 ^ h \<le> unat v" "unat v < 2 ^ (h + 1)" using log_exists[OF v(2)] by blast
  have "unat v = 2 ^ h"
  proof (rule ccontr)
    assume "unat v \<noteq> 2 ^ h"
    then have "2 ^ h \<le> unat (v - 1)" "unat (v - 1) < 2 ^ (h + 1)" using h v(1) by (simp_all add: unat_pred)
    then have "bit (v AND (v - 1)) h" using top_bit(1)[OF h] top_bit(1) by (simp add: bit_and_iff)
    then show False using p by (simp add: is_power_of_two_def)
  qed
  then show "\<exists>k. unat v = 2 ^ k" ..
next
  assume "\<exists>k. unat v = 2 ^ k"
  then obtain k where k: "unat v = 2 ^ k" ..
  then have k32: "k < 32" using word_less_exp[of k v] by simp
  then have "v = 2 ^ k" using k unat_exp[OF k32] by (simp add: word_unat_eq_iff)
  moreover have "v \<noteq> 0" using k by (metis power_not_zero unsigned_0 zero_neq_numeral)
  ultimately show "is_power_of_two v"
    using mask_disjoint[of k] by (simp add: is_power_of_two_def mask_eq_exp_minus_1)
qed


section \<open>The array never writes past its buffer\<close>

definition al_ok :: "mt_al \<Rightarrow> bool" where
  "al_ok al \<longleftrightarrow> (let n = length (al_store al) in n \<noteq> 0 \<longrightarrow> (\<exists>k. al_cap al = 2 ^ k \<and> n \<le> 2 ^ k \<and> 2 ^ k < 2 * n))"

lemma al_ok_create [simp]: "al_ok mt_al_create"
  by (simp add: al_ok_def mt_al_create_def)

lemma unat_elems: "n \<le> MT_AL_MAX_ELEMS \<Longrightarrow> unat (of_nat n :: 32 word) = n"
  by (simp add: unat_of_nat MT_AL_MAX_ELEMS_def)

lemma pow_unique:
  assumes "(2 :: nat) ^ k < 2 * 2 ^ j" and "2 ^ j \<le> (2 :: nat) ^ k"
  shows "k = j"
proof -
  have "k < Suc j" using assms(1) by (intro power_less_imp_less_exp[of 2 k "Suc j"]) simp_all
  moreover have "j \<le> k" using assms(2) by (intro power_le_imp_le_exp[of 2 j k]) simp_all
  ultimately show ?thesis by simp
qed

lemma pow_le_half:
  assumes "(2 :: nat) ^ j < 524288"
  shows "2 * 2 ^ j \<le> (524288 :: nat)"
proof -
  have "(2 :: nat) ^ j < 2 ^ 19" using assms by simp
  then have "Suc j \<le> 19" by (intro Suc_leI power_less_imp_less_exp[of 2]) simp_all
  then have "(2 :: nat) ^ Suc j \<le> 2 ^ 19" by (intro power_increasing) simp_all
  then show ?thesis by simp
qed

lemma mt_al_add_ok:
  assumes "al_ok al" and "al_room al"
  shows "\<exists>cap. mt_al_add al h = Some (MT_SUCCESS, \<lparr>al_store = al_store al @ [h], al_cap = cap\<rparr>) \<and>
    al_ok \<lparr>al_store = al_store al @ [h], al_cap = cap\<rparr>"
proof (cases "al_store al = []")
  case True
  then have "mt_al_add al h = Some (MT_SUCCESS, \<lparr>al_store = al_store al @ [h], al_cap = 1\<rparr>)"
    using assms(2) by (simp add: mt_al_add_def al_push_def)
  moreover have "al_ok \<lparr>al_store = al_store al @ [h], al_cap = 1\<rparr>"
    using True by (auto simp: al_ok_def intro!: exI[of _ 0])
  ultimately show ?thesis by blast
next
  case False
  let ?n = "length (al_store al)"
  have n: "0 < ?n" "?n < 524288" using False assms(2) by (simp_all add: al_room_def MT_AL_MAX_ELEMS_def)
  have u: "unat (of_nat ?n :: 32 word) = ?n" using n(2) by (intro unat_elems) (simp add: MT_AL_MAX_ELEMS_def)
  obtain k where k: "al_cap al = 2 ^ k" "?n \<le> 2 ^ k" "2 ^ k < 2 * ?n"
    using assms(1) n(1) by (auto simp: al_ok_def Let_def)
  show ?thesis
  proof (cases "\<exists>j. ?n = 2 ^ j")
    case True
    then obtain j where j: "?n = 2 ^ j" ..
    have "push_bit 1 (of_nat ?n :: 32 word) = of_nat (2 * ?n)" by (simp add: push_bit_eq_mult)
    moreover have "unat (of_nat (2 * ?n) :: 32 word) = 2 * ?n"
      using n(2) by (simp add: unat_of_nat del: of_nat_mult of_nat_add)
    ultimately have "\<not> push_bit 1 (of_nat ?n :: 32 word) < of_nat ?n"
      "\<not> push_bit 1 (of_nat ?n :: 32 word) > of_nat MT_AL_MAX_ELEMS"
      using u unat_elems[of MT_AL_MAX_ELEMS] j n(2) pow_le_half[of j]
      by (simp_all only: word_less_nat_alt) (simp_all add: MT_AL_MAX_ELEMS_def)
    moreover have "is_power_of_two (of_nat ?n)" using True u by (simp add: is_power_of_two_spec)
    ultimately have "mt_al_add al h = Some (MT_SUCCESS, \<lparr>al_store = al_store al @ [h], al_cap = ?n * 2\<rparr>)"
      using assms(2) n(1) by (simp add: mt_al_add_def al_push_def Let_def)
    moreover have "al_ok \<lparr>al_store = al_store al @ [h], al_cap = ?n * 2\<rparr>"
      unfolding al_ok_def Let_def by (auto intro!: exI[of _ "Suc j"] simp: j)
    ultimately show ?thesis by blast
  next
    case False
    then have "\<not> is_power_of_two (of_nat ?n)" using u by (simp add: is_power_of_two_spec)
    moreover have lt: "?n < 2 ^ k" using k(2) False by (metis le_neq_implies_less)
    ultimately have "mt_al_add al h = Some (MT_SUCCESS, \<lparr>al_store = al_store al @ [h], al_cap = al_cap al\<rparr>)"
      using assms(2) n(1) k(1) by (simp add: mt_al_add_def al_push_def Let_def)
    moreover have "al_ok \<lparr>al_store = al_store al @ [h], al_cap = al_cap al\<rparr>"
      unfolding al_ok_def Let_def using k lt by (auto intro!: exI[of _ k])
    ultimately show ?thesis by blast
  qed
qed


lemma al_ok_update: "al_ok al \<Longrightarrow> al_ok (al\<lparr>al_store := (al_store al)[i := h]\<rparr>)"
  by (simp add: al_ok_def)

lemma mt_al_truncate_ok:
  assumes "al_ok al" and "al_room al" and "n < length (al_store al)"
  shows "\<exists>cap. mt_al_truncate al n = Some (MT_SUCCESS, \<lparr>al_store = take n (al_store al), al_cap = cap\<rparr>) \<and>
    al_ok \<lparr>al_store = take n (al_store al), al_cap = cap\<rparr>"
proof (cases "n = 0")
  case True
  then show ?thesis using assms(2,3) by (auto simp: mt_al_truncate_def al_ok_def)
next
  case False
  have le: "n < 524288" using assms(2,3) by (simp add: al_room_def MT_AL_MAX_ELEMS_def)
  then have u: "unat (of_nat n :: 32 word) = n" by (intro unat_elems) (simp add: MT_AL_MAX_ELEMS_def)
  then have "of_nat n \<noteq> (0 :: 32 word)" using False by (metis unsigned_0)
  moreover have "unat (of_nat n :: 32 word) \<le> 2 ^ 31" using le u by simp
  ultimately obtain k where "unat (round_next_power_two (of_nat n)) = 2 ^ k" "n \<le> 2 ^ k" "2 ^ k < 2 * n"
    using round_next_power_two_spec[of "of_nat n"] u by metis
  then have "al_ok \<lparr>al_store = take n (al_store al), al_cap = unat (round_next_power_two (of_nat n))\<rparr>"
    unfolding al_ok_def Let_def using assms(3) by auto
  then show ?thesis using assms(2,3) False by (auto simp: mt_al_truncate_def)
qed

text \<open>The operations as a client may call them, in any order.\<close>

datatype al_op = Al_Add mt_hash_t | Al_Update mt_hash_t nat | Al_UpdateIf mt_hash_t nat
  | Al_AddOrUpdate mt_hash_t nat | Al_Truncate nat

fun al_run :: "al_op \<Rightarrow> mt_al \<Rightarrow> (mt_error \<times> mt_al) option" where
  "al_run (Al_Add h) al = mt_al_add al h"
| "al_run (Al_Update h i) al = mt_al_update al h i"
| "al_run (Al_UpdateIf h i) al = mt_al_update_if_exists al h i"
| "al_run (Al_AddOrUpdate h i) al = mt_al_add_or_update al h i"
| "al_run (Al_Truncate n) al = mt_al_truncate al n"

lemma al_run_ok:
  assumes "al_ok al" and "al_room al"
  shows "\<exists>e al'. al_run op al = Some (e, al') \<and> al_ok al' \<and>
    length (al_store al') \<le> Suc (length (al_store al))"
proof (cases op)
  case (Al_Add h)
  then show ?thesis using mt_al_add_ok[OF assms, of h] by auto
next
  case (Al_Update h i)
  then show ?thesis using assms al_ok_update by (simp add: mt_al_update_def)
next
  case (Al_UpdateIf h i)
  then show ?thesis using assms al_ok_update by (simp add: mt_al_update_if_exists_def)
next
  case (Al_AddOrUpdate h i)
  then show ?thesis
    using assms al_ok_update mt_al_add_ok[OF assms, of h] by (auto simp: mt_al_add_or_update_def mt_al_update_def)
next
  case (Al_Truncate n)
  then show ?thesis
    using assms mt_al_truncate_ok[OF assms, of n]
    by (cases "n < length (al_store al)") (auto simp: mt_al_truncate_def)
qed

fun al_run_all :: "al_op list \<Rightarrow> mt_al \<Rightarrow> mt_al option" where
  "al_run_all [] al = Some al"
| "al_run_all (op # ops) al = Option.bind (al_run op al) (\<lambda>(e, al'). al_run_all ops al')"

lemma al_run_all_ok:
  assumes "al_ok al" and "length (al_store al) + length ops \<le> MT_AL_MAX_ELEMS"
  shows "\<exists>al'. al_run_all ops al = Some al' \<and> al_ok al'"
  using assms
proof (induction ops arbitrary: al)
  case Nil
  then show ?case by simp
next
  case (Cons op ops)
  have "al_room al" using Cons.prems(2) by (simp add: al_room_def)
  from al_run_ok[OF Cons.prems(1) this, of op] obtain e al1 where
    al1: "al_run op al = Some (e, al1)" "al_ok al1" "length (al_store al1) \<le> Suc (length (al_store al))"
    by blast
  have "length (al_store al1) + length ops \<le> MT_AL_MAX_ELEMS" using al1(3) Cons.prems(2) by simp
  from Cons.IH[OF al1(2) this] show ?case using al1(1) by simp
qed



end
