(* ===== verification/Merkle_Tree.thy ===== *)
theory Merkle_Tree
  imports Mt_Arr_List
begin

text \<open>
  \<^verbatim>\<open>src/common/merkle_tree/merkle_tree.c\<close> and \<^verbatim>\<open>mt_crypto.c\<close>: the tree whose root goes into a
  block. Level 0 holds the leaves; an inner node is stored on its level as soon as its right half
  has a leaf. A null dereference, a failing \<^verbatim>\<open>assert\<close> or an index outside of \<^verbatim>\<open>level\<close> is
  \<^term>\<open>None\<close>. Offsets are natural numbers: they stay below twice \<^verbatim>\<open>MT_AL_MAX_ELEMS\<close>, so nothing wraps.

  The specification is the recursive Merkle root of the list of leaves: a list is split at the
  largest power of two below its length.
\<close>

section \<open>The code\<close>

definition TREE_LEVELS :: nat where "TREE_LEVELS = 20"

definition mt_hash :: "mt_hash_t option \<Rightarrow> mt_hash_t option \<Rightarrow> mt_error + mt_hash_t" where
  "mt_hash left right =
     (case (left, right) of
        (Some a, Some b) \<Rightarrow>
          (let (e0, c0) = SHA256Reset zero_context
           in if e0 \<noteq> shaSuccess then Inl MT_ERR_ILLEGAL_STATE
           else let (e1, c1) = SHA256Input c0 a (of_nat HASH_LENGTH)
           in if e1 \<noteq> shaSuccess then Inl MT_ERR_ILLEGAL_STATE
           else let (e2, c2) = SHA256Input c1 b (of_nat HASH_LENGTH)
           in if e2 \<noteq> shaSuccess then Inl MT_ERR_ILLEGAL_STATE
           else let (e3, digest, c3) = SHA256Result c2
           in if e3 \<noteq> shaSuccess then Inl MT_ERR_ILLEGAL_STATE else Inr digest)
      | _ \<Rightarrow> Inl MT_ERR_ILLEGAL_PARAM)"

record merkle_tree =
  mt_elems :: nat
  mt_level :: "mt_al list"

definition mt_create :: merkle_tree where
  "mt_create = \<lparr>mt_elems = 0, mt_level = replicate TREE_LEVELS mt_al_create\<rparr>"

definition mt_right :: "nat \<Rightarrow> bool" where "mt_right offset \<longleftrightarrow> odd offset"

definition mt_left :: "nat \<Rightarrow> bool" where "mt_left offset \<longleftrightarrow> even offset"

definition mt_init_hash :: "byte list \<Rightarrow> mt_hash_t" where
  "mt_init_hash tag = tag @ replicate (HASH_LENGTH - length tag) 0"

definition set_level :: "nat \<Rightarrow> mt_al \<Rightarrow> merkle_tree \<Rightarrow> merkle_tree" where
  "set_level l al mt = mt\<lparr>mt_level := (mt_level mt)[l := al]\<rparr>"

text \<open>The final assertion of \<^verbatim>\<open>mt_add\<close> and \<^verbatim>\<open>mt_update\<close>.\<close>

definition assert_node :: "nat \<Rightarrow> nat \<Rightarrow> mt_hash_t \<Rightarrow> merkle_tree \<Rightarrow> (mt_error \<times> merkle_tree) option" where
  "assert_node q l digest mt =
     (if l < TREE_LEVELS \<and> mt_al_get (mt_level mt ! l) q = Some (Some digest)
      then Some (MT_SUCCESS, mt) else None)"

function add_loop :: "nat \<Rightarrow> nat \<Rightarrow> mt_hash_t \<Rightarrow> merkle_tree \<Rightarrow> (mt_error \<times> merkle_tree) option" where
  "add_loop q l digest mt =
     (if q > 0 \<and> l < TREE_LEVELS
      then if mt_right q
           then do {
             left \<leftarrow> mt_al_get (mt_level mt ! l) (q - 1);
             case mt_hash left (Some digest) of
               Inl e \<Rightarrow> Some (e, mt)
             | Inr digest1 \<Rightarrow>
                 if l + 1 < TREE_LEVELS
                 then do {
                   (e, al) \<leftarrow> mt_al_add_or_update (mt_level mt ! (l + 1)) digest1 (q div 2);
                   let mt1 = set_level (l + 1) al mt;
                   if e \<noteq> MT_SUCCESS then Some (e, mt1) else add_loop (q div 2) (l + 1) digest1 mt1
                 }
                 else None
           }
           else add_loop (q div 2) (l + 1) digest mt
      else assert_node q l digest mt)"
  by pat_completeness auto
termination by (relation "measure (\<lambda>(q, l, digest, mt). q)") auto

declare add_loop.simps [simp del]

definition mt_add :: "merkle_tree \<Rightarrow> byte list \<Rightarrow> (mt_error \<times> merkle_tree) option" where
  "mt_add mt tag =
     (if \<not> length tag \<le> HASH_LENGTH then Some (MT_ERR_ILLEGAL_PARAM, mt)
      else do {
        (e, al) \<leftarrow> mt_al_add (mt_level mt ! 0) (mt_init_hash tag);
        let mt1 = set_level 0 al mt;
        if e \<noteq> MT_SUCCESS then Some (e, mt1)
        else let mt2 = mt1\<lparr>mt_elems := mt_elems mt + 1\<rparr>
             in if mt_elems mt2 = 1 then Some (MT_SUCCESS, mt2)
                else add_loop (mt_elems mt2 - 1) 0 (mt_init_hash tag) mt2
      })"

definition mt_get_size :: "merkle_tree \<Rightarrow> nat" where
  "mt_get_size mt = mt_al_get_size (mt_level mt ! 0)"

text \<open>\<^verbatim>\<open>mt_exists\<close> returns an \<^verbatim>\<open>int\<close>; its error code is not zero.\<close>

definition mt_exists :: "merkle_tree \<Rightarrow> nat \<Rightarrow> int option" where
  "mt_exists mt offset =
     (if offset > MT_AL_MAX_ELEMS then Some (-2)
      else map_option (\<lambda>p. if p \<noteq> None then 1 else 0) (mt_al_get (mt_level mt ! 0) offset))"

definition hasNextLevelExceptRoot :: "merkle_tree \<Rightarrow> nat \<Rightarrow> bool" where
  "hasNextLevelExceptRoot mt cur_lvl \<longleftrightarrow>
     cur_lvl + 1 < TREE_LEVELS - 1 \<and> mt_al_get_size (mt_level mt ! (cur_lvl + 1)) > 0"

fun findRightNeighbor :: "merkle_tree \<Rightarrow> nat \<Rightarrow> nat \<Rightarrow> mt_hash_t option option" where
  "findRightNeighbor mt offset l =
     (if offset < mt_al_get_size (mt_level mt ! l) then mt_al_get (mt_level mt ! l) offset
      else case l of 0 \<Rightarrow> Some None | Suc l1 \<Rightarrow> findRightNeighbor mt (2 * offset) l1)"

declare findRightNeighbor.simps [simp del]

text \<open>One step up: the digest of the parent, from the node itself and its neighbour.\<close>

definition combine :: "merkle_tree \<Rightarrow> nat \<Rightarrow> nat \<Rightarrow> mt_hash_t \<Rightarrow> (mt_error + mt_hash_t) option" where
  "combine mt q l digest =
     (if mt_left q
      then do {
        right \<leftarrow> findRightNeighbor mt (q + 1) l;
        if right \<noteq> None then Some (mt_hash (Some digest) right) else Some (Inr digest)
      }
      else do {
        left \<leftarrow> mt_al_get (mt_level mt ! l) (q - 1);
        Some (mt_hash left (Some digest))
      })"

function verify_loop :: "merkle_tree \<Rightarrow> nat \<Rightarrow> nat \<Rightarrow> mt_hash_t \<Rightarrow> mt_error option" where
  "verify_loop mt q l digest =
     (if hasNextLevelExceptRoot mt l
      then do {
        r \<leftarrow> combine mt q l digest;
        case r of
          Inl e \<Rightarrow> Some e
        | Inr digest1 \<Rightarrow> verify_loop mt (q div 2) (l + 1) digest1
      }
      else do {
        p \<leftarrow> mt_al_get (mt_level mt ! l) q;
        root \<leftarrow> p;
        Some (if digest \<noteq> root then MT_ERR_ROOT_MISMATCH else MT_SUCCESS)
      })"
  by pat_completeness auto
termination
  by (relation "measure (\<lambda>(mt, q, l, digest). TREE_LEVELS - l)") (auto simp: hasNextLevelExceptRoot_def)

declare verify_loop.simps [simp del]

definition mt_verify :: "merkle_tree \<Rightarrow> byte list \<Rightarrow> nat \<Rightarrow> mt_error option" where
  "mt_verify mt tag offset =
     (if \<not> (length tag \<le> HASH_LENGTH \<and> offset < mt_elems mt) then Some MT_ERR_ILLEGAL_PARAM
      else verify_loop mt offset 0 (mt_init_hash tag))"

function update_loop :: "nat \<Rightarrow> nat \<Rightarrow> mt_hash_t \<Rightarrow> merkle_tree \<Rightarrow> (mt_error \<times> merkle_tree) option" where
  "update_loop q l digest mt =
     (if hasNextLevelExceptRoot mt l
      then do {
        r \<leftarrow> combine mt q l digest;
        case r of
          Inl e \<Rightarrow> Some (e, mt)
        | Inr digest1 \<Rightarrow>
            do {
              (e, al) \<leftarrow> mt_al_update_if_exists (mt_level mt ! (l + 1)) digest1 (q div 2);
              let mt1 = set_level (l + 1) al mt;
              if e \<noteq> MT_SUCCESS then Some (e, mt1) else update_loop (q div 2) (l + 1) digest1 mt1
            }
      }
      else assert_node q l digest mt)"
  by pat_completeness auto
termination
  by (relation "measure (\<lambda>(q, l, digest, mt). TREE_LEVELS - l)") (auto simp: hasNextLevelExceptRoot_def)

declare update_loop.simps [simp del]

definition mt_update :: "merkle_tree \<Rightarrow> byte list \<Rightarrow> nat \<Rightarrow> (mt_error \<times> merkle_tree) option" where
  "mt_update mt tag offset =
     (if \<not> (length tag \<le> HASH_LENGTH \<and> offset < mt_elems mt) then Some (MT_ERR_ILLEGAL_PARAM, mt)
      else do {
        (e, al) \<leftarrow> mt_al_update (mt_level mt ! 0) (mt_init_hash tag) offset;
        let mt1 = set_level 0 al mt;
        if e \<noteq> MT_SUCCESS then Some (e, mt1) else update_loop offset 0 (mt_init_hash tag) mt1
      })"

function root_level :: "merkle_tree \<Rightarrow> nat \<Rightarrow> nat" where
  "root_level mt l = (if hasNextLevelExceptRoot mt l then root_level mt (l + 1) else l)"
  by pat_completeness auto
termination
  by (relation "measure (\<lambda>(mt, l). TREE_LEVELS - l)") (auto simp: hasNextLevelExceptRoot_def)

declare root_level.simps [simp del]

definition mt_get_root :: "merkle_tree \<Rightarrow> mt_hash_t option" where
  "mt_get_root mt = Option.bind (mt_al_get (mt_level mt ! root_level mt 0) 0) (\<lambda>p. p)"

section \<open>The specification\<close>

definition hash2 :: "mt_hash_t \<Rightarrow> mt_hash_t \<Rightarrow> mt_hash_t" where
  "hash2 a b = sha256_spec (take 32 a @ take 32 b)"

fun mth :: "nat \<Rightarrow> mt_hash_t list \<Rightarrow> mt_hash_t" where
  "mth 0 xs = hd xs"
| "mth (Suc l) xs =
     (if length xs \<le> 2 ^ l then mth l xs else hash2 (mth l (take (2 ^ l) xs)) (mth l (drop (2 ^ l) xs)))"

definition merkle_root :: "mt_hash_t list \<Rightarrow> mt_hash_t" where
  "merkle_root xs = mth (length xs) xs"

text \<open>The node with index \<open>i\<close> on level \<open>l\<close>, and how many nodes a level stores.\<close>

definition node :: "nat \<Rightarrow> nat \<Rightarrow> mt_hash_t list \<Rightarrow> mt_hash_t" where
  "node l i xs = mth l (take (2 ^ l) (drop (i * 2 ^ l) xs))"

definition nodes :: "nat \<Rightarrow> nat \<Rightarrow> nat" where
  "nodes l n = (case l of 0 \<Rightarrow> n | Suc k \<Rightarrow> (n + 2 ^ k - 1) div 2 ^ Suc k)"

lemma nodes_0 [simp]: "nodes 0 n = n"
  by (simp add: nodes_def)

lemma less_nodes_Suc: "i < nodes (Suc k) n \<longleftrightarrow> i * 2 ^ Suc k + 2 ^ k < n"
proof -
  define b :: nat where "b = 2 ^ k"
  define a where "a = i * 2 ^ Suc k"
  have b: "1 \<le> b" by (simp add: b_def)
  have "i < nodes (Suc k) n \<longleftrightarrow> Suc i * 2 ^ Suc k \<le> n + 2 ^ k - 1"
    by (simp add: nodes_def Suc_le_eq[symmetric] less_eq_div_iff_mult_less_eq)
  also have "Suc i * 2 ^ Suc k = a + 2 * b" by (simp add: a_def b_def)
  also have "a + 2 * b \<le> n + 2 ^ k - 1 \<longleftrightarrow> a + b < n" using b unfolding b_def[symmetric] by arith
  finally show ?thesis by (simp add: a_def b_def)
qed

lemma nodes_le: "nodes l n \<le> n"
proof (cases l)
  case (Suc k)
  have "\<not> n < nodes (Suc k) n"
  proof
    assume "n < nodes (Suc k) n"
    then have "n * 2 ^ Suc k + 2 ^ k < n" by (simp only: less_nodes_Suc)
    moreover have "n * 1 \<le> n * 2 ^ Suc k" by (rule mult_le_mono2) simp
    ultimately show False by linarith
  qed
  then show ?thesis using Suc by simp
qed simp

lemma node_Suc:
  "node (Suc l) i xs =
     (if length xs \<le> i * 2 ^ Suc l + 2 ^ l then node l (2 * i) xs
      else hash2 (node l (2 * i) xs) (node l (2 * i + 1) xs))"
proof -
  let ?d = "drop (i * 2 ^ Suc l) xs"
  have le: "length (take (2 ^ Suc l) ?d) \<le> 2 ^ l \<longleftrightarrow> length xs \<le> i * 2 ^ Suc l + 2 ^ l"
    by (auto simp: min_def)
  show ?thesis
  proof (cases "length xs \<le> i * 2 ^ Suc l + 2 ^ l")
    case True
    then have "take (2 ^ Suc l) ?d = take (2 ^ l) ?d" by simp
    then show ?thesis using True le by (simp add: node_def mult.assoc mult.commute mult.left_commute)
  next
    case False
    moreover have "take (2 ^ l) (take (2 ^ Suc l) ?d) = take (2 ^ l) (drop (2 * i * 2 ^ l) xs)"
      by (simp add: min_def mult.assoc mult.commute mult.left_commute)
    moreover have "drop (2 ^ l) (take (2 ^ Suc l) ?d) = take (2 ^ l) (drop ((2 * i + 1) * 2 ^ l) xs)"
      by (simp add: drop_take algebra_simps)
    ultimately show ?thesis using le unfolding node_def by (simp only: mth.simps if_False)
  qed
qed

lemma node_append: "(i + 1) * 2 ^ l \<le> length xs \<Longrightarrow> node l i (xs @ ys) = node l i xs"
  by (simp add: node_def)

lemma node_update:
  assumes "i \<noteq> k div 2 ^ l"
  shows "node l i (xs[k := x]) = node l i xs"
proof (cases "k < i * 2 ^ l")
  case True
  then show ?thesis by (simp add: node_def)
next
  case False
  then have "i \<le> k div 2 ^ l" by (simp add: less_eq_div_iff_mult_less_eq not_less)
  then have "i + 1 \<le> k div 2 ^ l" using assms by simp
  then have "(i + 1) * 2 ^ l \<le> k" by (simp only: less_eq_div_iff_mult_less_eq zero_less_power zero_less_numeral)
  then show ?thesis using False by (simp add: node_def drop_update_swap take_update_cancel)
qed

lemma mth_enough: "length xs \<le> 2 ^ l \<Longrightarrow> l \<le> m \<Longrightarrow> mth m xs = mth l xs"
proof (induction m)
  case (Suc m)
  show ?case
  proof (cases "l = Suc m")
    case False
    then have "l \<le> m" using Suc.prems(2) by simp
    moreover have "(2 :: nat) ^ l \<le> 2 ^ m" using calculation by (intro power_increasing) simp_all
    ultimately have "length xs \<le> 2 ^ m" using Suc.prems(1) by linarith
    then show ?thesis using Suc.IH[OF Suc.prems(1) \<open>l \<le> m\<close>] by simp
  qed simp
qed simp

lemma merkle_root_node:
  assumes "length xs \<le> 2 ^ l"
  shows "node l 0 xs = merkle_root xs"
proof -
  have n: "length xs \<le> 2 ^ length xs" by (rule less_imp_le) (rule less_exp)
  have "mth l xs = mth (length xs) xs"
  proof (cases "l \<le> length xs")
    case True
    then show ?thesis by (rule mth_enough[OF assms, symmetric])
  next
    case False
    then show ?thesis by (intro mth_enough[OF n]) simp
  qed
  then show ?thesis using assms by (simp add: node_def merkle_root_def)
qed

section \<open>The stored levels\<close>

definition lev :: "mt_hash_t list \<Rightarrow> nat \<Rightarrow> mt_al \<Rightarrow> bool" where
  "lev xs l al \<longleftrightarrow> al_ok al \<and> al_store al = map (\<lambda>i. node l i xs) [0..<nodes l (length xs)]"

text \<open>Levels up to \<open>k\<close> belong to \<open>ys\<close>, the ones above still to \<open>xs\<close>.\<close>

definition mixed :: "mt_hash_t list \<Rightarrow> mt_hash_t list \<Rightarrow> nat \<Rightarrow> merkle_tree \<Rightarrow> bool" where
  "mixed ys xs k mt \<longleftrightarrow> length (mt_level mt) = TREE_LEVELS \<and>
     (\<forall>l < TREE_LEVELS. lev (if l \<le> k then ys else xs) l (mt_level mt ! l))"

definition tree_inv :: "mt_hash_t list \<Rightarrow> merkle_tree \<Rightarrow> bool" where
  "tree_inv xs mt \<longleftrightarrow> mt_elems mt = length xs \<and> length xs < MT_AL_MAX_ELEMS \<and> mixed xs xs 0 mt \<and>
     (\<forall>x \<in> set xs. length x = HASH_LENGTH)"

lemma mt_hash_some: "mt_hash (Some a) (Some b) = Inr (hash2 a b)"
proof -
  have cut: "SHA256Input c x (of_nat HASH_LENGTH) = SHA256Input c (take 32 x) (of_nat HASH_LENGTH)" for c x
    by (simp add: SHA256Input_def HASH_LENGTH_def)
  have pad: "\<exists>c'. SHA256Input c x (of_nat HASH_LENGTH) = (shaSuccess, c') \<and>
      (\<exists>p' r'. sha_inv p' r' c' \<and> p' @ r' = p @ r @ take 32 x)"
    if "sha_inv p r c" "length p + length r \<le> 32" for c x p r
  proof -
    have "8 * (length p + length r + length (take 32 x)) < 2 ^ 64" using that(2) by simp
    from input_loop_inv[OF that(1) this] show ?thesis
      using that(1) by (simp add: SHA256Input_def HASH_LENGTH_def sha_inv_def)
  qed
  obtain c0 where c0: "SHA256Reset zero_context = (shaSuccess, c0)" "sha_inv [] [] c0"
    using Reset_inv[of zero_context] by (simp add: SHA256Reset_def SHA224_256Reset_def zero_context_def)
  obtain c1 p1 r1 where c1: "SHA256Input c0 a (of_nat HASH_LENGTH) = (shaSuccess, c1)"
    "sha_inv p1 r1 c1" "p1 @ r1 = take 32 a"
    using pad[OF c0(2), of a] by (simp only: append_Nil list.size add_0 zero_le) blast
  have "length p1 + length r1 \<le> 32" using arg_cong[OF c1(3), of length] by simp
  from pad[OF c1(2) this, of b] obtain c2 p2 r2 where
    c2: "SHA256Input c1 b (of_nat HASH_LENGTH) = (shaSuccess, c2)" "sha_inv p2 r2 c2"
    "p2 @ r2 = p1 @ r1 @ take 32 b" by blast
  obtain c3 where "SHA256Result c2 = (shaSuccess, sha256_spec (p2 @ r2), c3)"
    using Result_spec[OF c2(2)] by blast
  moreover have "p2 @ r2 = take 32 a @ take 32 b" using c1(3) c2(3) by (metis append_assoc)
  ultimately show ?thesis using c0(1) c1(1) c2(1) by (simp add: mt_hash_def hash2_def)
qed


lemma lev_room: "lev xs l al \<Longrightarrow> length xs < MT_AL_MAX_ELEMS \<Longrightarrow> al_room al"
  using nodes_le[of l "length xs"] by (simp add: lev_def al_room_def)

lemma lev_size: "lev xs l al \<Longrightarrow> mt_al_get_size al = nodes l (length xs)"
  by (simp add: lev_def mt_al_get_size_def)

lemma lev_get:
  assumes "lev xs l al" and "length xs < MT_AL_MAX_ELEMS"
  shows "mt_al_get al i = Some (if i < nodes l (length xs) then Some (node l i xs) else None)"
  using assms lev_room[OF assms] by (simp add: mt_al_get_def lev_def)

lemma findRightNeighbor_spec:
  assumes "\<forall>k \<le> l. lev xs k (mt_level mt ! k)" and "length xs < MT_AL_MAX_ELEMS"
  shows "findRightNeighbor mt i l = Some (if i * 2 ^ l < length xs then Some (node l i xs) else None)"
  using assms(1)
proof (induction l arbitrary: i)
  case 0
  then have "lev xs 0 (mt_level mt ! 0)" by simp
  then show ?case using lev_size lev_get[OF _ assms(2)]
    by (subst findRightNeighbor.simps) simp
next
  case (Suc l)
  have L: "lev xs (Suc l) (mt_level mt ! Suc l)" using Suc.prems by simp
  show ?case
  proof (cases "i < nodes (Suc l) (length xs)")
    case True
    then have "i * 2 ^ Suc l < length xs" unfolding less_nodes_Suc by linarith
    then show ?thesis using True lev_size[OF L] lev_get[OF L assms(2)]
      by (subst findRightNeighbor.simps) simp
  next
    case False
    then have "node (Suc l) i xs = node l (2 * i) xs" by (simp add: node_Suc less_nodes_Suc not_less)
    moreover have "findRightNeighbor mt (2 * i) l =
        Some (if 2 * i * 2 ^ l < length xs then Some (node l (2 * i) xs) else None)"
      by (rule Suc.IH) (use Suc.prems in simp)
    ultimately show ?thesis using False lev_size[OF L]
      by (subst findRightNeighbor.simps) (simp add: mult.commute mult.left_commute)
  qed
qed

lemma left_neighbour_stored:
  assumes "odd q" and "q * 2 ^ l < n"
  shows "q - 1 < nodes l n"
proof (cases l)
  case 0
  then show ?thesis using assms(2) by simp
next
  case (Suc k)
  obtain j where q: "q = Suc j" using assms(1) by (cases q) auto
  define b :: nat where "b = 2 ^ k"
  have "0 < b" by (simp add: b_def)
  moreover have "j * (2 * b) + 2 * b < n" using assms(2) q Suc by (simp add: b_def)
  ultimately have "j * (2 * b) + b < n" by linarith
  then show ?thesis using q Suc by (simp add: less_nodes_Suc b_def)
qed

text \<open>One step up computes the digest of the parent.\<close>

lemma combine_spec:
  assumes "\<forall>k \<le> l. lev ys k (mt_level mt ! k)" and "length ys < MT_AL_MAX_ELEMS"
    and "q * 2 ^ l < length ys" and "length xs = length ys"
    and "\<forall>j. j \<noteq> q \<longrightarrow> node l j xs = node l j ys"
  shows "combine mt q l (node l q xs) = Some (Inr (node (Suc l) (q div 2) xs))"
proof (cases "even q")
  case True
  then have q: "2 * (q div 2) = q" by simp
  have e: "q div 2 * 2 ^ Suc l = q * 2 ^ l" by (metis True dvd_div_mult_self mult.assoc power_Suc)
  have c: "length xs \<le> q div 2 * 2 ^ Suc l + 2 ^ l \<longleftrightarrow> \<not> (q + 1) * 2 ^ l < length ys"
    unfolding e using assms(4) by (simp add: not_less add.commute)
  have "node l (q + 1) xs = node l (q + 1) ys" using assms(5) by simp
  then show ?thesis
    using True c findRightNeighbor_spec[OF assms(1,2), of "q + 1"]
    by (simp add: combine_def mt_left_def mt_hash_some node_Suc q)
next
  case False
  then have q: "2 * (q div 2) = q - 1" "Suc (q - 1) = q" "2 * (q div 2) + 1 = q"
    using odd_pos by (auto elim!: oddE)
  have "q div 2 * 2 ^ Suc l + 2 ^ l = q * 2 ^ l"
    using q(3) by (metis add_mult_distrib mult.assoc mult.commute mult_1 power_Suc)
  then have "\<not> length xs \<le> q div 2 * 2 ^ Suc l + 2 ^ l" using assms(3,4) by simp
  moreover have "node l (q - 1) xs = node l (q - 1) ys" using assms(5) q(2) by (metis n_not_Suc_n)
  moreover have "lev ys l (mt_level mt ! l)" using assms(1) by simp
  ultimately show ?thesis
    using False lev_get[OF _ assms(2)] left_neighbour_stored[OF False assms(3)]
    by (simp add: combine_def mt_left_def mt_hash_some node_Suc q(1))
qed

lemma hasNext_spec:
  assumes "lev xs (l + 1) (mt_level mt ! (l + 1))"
  shows "hasNextLevelExceptRoot mt l \<longleftrightarrow> l + 1 < 19 \<and> 2 ^ l < length xs"
  using lev_size[OF assms] less_nodes_Suc[of 0 l "length xs"]
  by (simp add: hasNextLevelExceptRoot_def TREE_LEVELS_def)


section \<open>Adding a leaf\<close>

lemma div_Suc: "n div 2 ^ l div 2 = n div 2 ^ Suc l" for n :: nat
  by (metis div_mult2_eq mult.commute power_Suc)

text \<open>How the number of stored nodes on the next level changes.\<close>

lemma nodes_even:
  assumes "even (n div 2 ^ l)"
  shows "nodes (Suc l) (Suc n) = n div 2 ^ Suc l" and "nodes (Suc l) n = n div 2 ^ Suc l"
proof -
  define b :: nat where "b = 2 ^ l"
  define q where "q = n div 2 ^ Suc l"
  define r where "r = n mod b"
  have b: "0 < b" and r: "r < b" by (simp_all add: b_def r_def)
  have "n div b = 2 * q" using assms unfolding q_def b_def div_Suc[symmetric] by simp
  then have n: "n = q * (2 * b) + r" using div_mult_mod_eq[of n b] by (simp add: r_def)
  have "i < nodes (Suc l) m \<longleftrightarrow> i < q" if "m = n \<or> m = Suc n" for i m
  proof -
    have "i * (2 * b) + b < m \<longleftrightarrow> i < q"
    proof (cases "i < q")
      case True
      then have "Suc i * (2 * b) \<le> q * (2 * b)" by (intro mult_le_mono1) simp
      then show ?thesis using True n b that by auto
    next
      case False
      then have "q * (2 * b) \<le> i * (2 * b)" by (intro mult_le_mono1) simp
      then have "\<not> i * (2 * b) + b < m" using n r that by linarith
      then show ?thesis using False by simp
    qed
    then show ?thesis by (simp add: less_nodes_Suc b_def)
  qed
  then show "nodes (Suc l) (Suc n) = n div 2 ^ Suc l" "nodes (Suc l) n = n div 2 ^ Suc l"
    unfolding q_def by (metis nat_neq_iff)+
qed

lemma nodes_odd:
  assumes "odd (n div 2 ^ l)"
  shows "nodes (Suc l) (Suc n) = Suc (n div 2 ^ Suc l)"
    and "nodes (Suc l) n = n div 2 ^ Suc l \<or> nodes (Suc l) n = Suc (n div 2 ^ Suc l)"
proof -
  define b :: nat where "b = 2 ^ l"
  define q where "q = n div 2 ^ Suc l"
  define r where "r = n mod b"
  have b: "0 < b" and r: "r < b" by (simp_all add: b_def r_def)
  have "n div b = 2 * q + 1" using assms div_Suc[of n l] by (auto simp: q_def b_def elim!: oddE)
  then have n: "n = q * (2 * b) + b + r" using div_mult_mod_eq[of n b] by (simp add: r_def)
  have up: "\<not> i * (2 * b) + b < Suc n" if "q < i" for i
  proof -
    have "Suc q * (2 * b) \<le> i * (2 * b)" using that by (intro mult_le_mono1) simp
    then show ?thesis using n r b by simp
  qed
  have down: "i * (2 * b) + b < n" if "i < q" for i
  proof -
    have "Suc i * (2 * b) \<le> q * (2 * b)" using that by (intro mult_le_mono1) simp
    then show ?thesis using n b by simp
  qed
  have mid: "q * (2 * b) + b < Suc n" using n by simp
  have "i < nodes (Suc l) (Suc n) \<longleftrightarrow> i < Suc q" for i
  proof (cases i q rule: linorder_cases)
    case less
    then show ?thesis using down[of i] by (simp add: less_nodes_Suc b_def)
  next
    case equal
    then show ?thesis using mid by (simp add: less_nodes_Suc b_def)
  next
    case greater
    then show ?thesis using up[of i] by (simp add: less_nodes_Suc b_def)
  qed
  then show "nodes (Suc l) (Suc n) = Suc (n div 2 ^ Suc l)"
    unfolding q_def by (metis nat_neq_iff)
  have "\<not> Suc q < nodes (Suc l) n" using up[of "Suc q"] by (simp add: less_nodes_Suc b_def[symmetric])
  moreover have "\<not> nodes (Suc l) n < q"
    using down[of "nodes (Suc l) n"] less_nodes_Suc[of "nodes (Suc l) n" l n] by (auto simp: b_def)
  ultimately show "nodes (Suc l) n = n div 2 ^ Suc l \<or> nodes (Suc l) n = Suc (n div 2 ^ Suc l)"
    unfolding q_def by linarith
qed

lemma node_old:
  assumes "i < length xs div 2 ^ l"
  shows "node l i (xs @ [h]) = node l i xs"
proof -
  have "i + 1 \<le> length xs div 2 ^ l" using assms by simp
  then have "(i + 1) * 2 ^ l \<le> length xs"
    by (simp only: less_eq_div_iff_mult_less_eq zero_less_power zero_less_numeral)
  then show ?thesis by (rule node_append)
qed

lemma node_even_single:
  assumes "even (length xs div 2 ^ l)"
  shows "node (Suc l) (length xs div 2 ^ l div 2) (xs @ [h]) = node l (length xs div 2 ^ l) (xs @ [h])"
proof -
  let ?i = "length xs div 2 ^ Suc l"
  have two: "2 * ?i = length xs div 2 ^ l" using assms unfolding div_Suc[symmetric] by simp
  have "\<not> ?i < nodes (Suc l) (Suc (length xs))" using nodes_even(1)[OF assms] by simp
  then have "length (xs @ [h]) \<le> ?i * 2 ^ Suc l + 2 ^ l" unfolding less_nodes_Suc by simp
  then show ?thesis unfolding div_Suc node_Suc two by (simp only: if_True)
qed

lemma node_odd_pair:
  assumes "odd (length xs div 2 ^ l)"
  shows "node (Suc l) (length xs div 2 ^ l div 2) (xs @ [h]) =
    hash2 (node l (length xs div 2 ^ l - 1) (xs @ [h])) (node l (length xs div 2 ^ l) (xs @ [h]))"
proof -
  let ?i = "length xs div 2 ^ Suc l"
  have two: "2 * ?i = length xs div 2 ^ l - 1" "length xs div 2 ^ l - 1 + 1 = length xs div 2 ^ l"
    using assms unfolding div_Suc[symmetric] by (auto elim!: oddE)
  have "?i < nodes (Suc l) (Suc (length xs))" using nodes_odd(1)[OF assms] by simp
  then have "\<not> length (xs @ [h]) \<le> ?i * 2 ^ Suc l + 2 ^ l" unfolding less_nodes_Suc by simp
  then show ?thesis unfolding div_Suc node_Suc two by (simp only: if_False)
qed

lemma lev_even:
  assumes "lev xs (Suc l) al" and "even (length xs div 2 ^ l)"
  shows "lev (xs @ [h]) (Suc l) al"
  using assms nodes_even[OF assms(2)] by (simp add: lev_def node_old)

lemma lev_odd:
  assumes "lev xs (Suc l) al" and "odd (length xs div 2 ^ l)" and "length xs < MT_AL_MAX_ELEMS"
  shows "\<exists>al'. mt_al_add_or_update al (node (Suc l) (length xs div 2 ^ Suc l) (xs @ [h]))
      (length xs div 2 ^ Suc l) = Some (MT_SUCCESS, al') \<and> lev (xs @ [h]) (Suc l) al'"
proof -
  let ?q = "length xs div 2 ^ Suc l"
  let ?d = "node (Suc l) ?q (xs @ [h])"
  have room: "al_room al" by (rule lev_room[OF assms(1,3)])
  have new: "map (\<lambda>i. node (Suc l) i (xs @ [h])) [0..<Suc ?q] =
      map (\<lambda>i. node (Suc l) i xs) [0..<?q] @ [?d]"
    using node_old[of _ xs "Suc l" h] by simp
  consider (add) "nodes (Suc l) (length xs) = ?q" | (upd) "nodes (Suc l) (length xs) = Suc ?q"
    using nodes_odd(2)[OF assms(2)] by blast
  then show ?thesis
  proof cases
    case add
    then have st: "al_store al = map (\<lambda>i. node (Suc l) i xs) [0..<?q]" using assms(1) by (simp add: lev_def)
    have "al_ok al" using assms(1) by (simp add: lev_def)
    from mt_al_add_ok[OF this room, of ?d] show ?thesis
      using st room new nodes_odd(1)[OF assms(2)] by (auto simp: mt_al_add_or_update_def lev_def)
  next
    case upd
    then have st: "al_store al = map (\<lambda>i. node (Suc l) i xs) [0..<?q] @ [node (Suc l) ?q xs]"
      using assms(1) by (simp add: lev_def)
    have "al_ok (al\<lparr>al_store := (al_store al)[?q := ?d]\<rparr>)"
      using assms(1) unfolding lev_def by (intro al_ok_update) blast
    then show ?thesis
      using st room new nodes_odd(1)[OF assms(2)]
      by (simp add: mt_al_add_or_update_def mt_al_update_def lev_def list_update_append)
  qed
qed


lemma mixed_le:
  assumes "mixed ys xs l mt" and "l < TREE_LEVELS"
  shows "\<forall>k \<le> l. lev ys k (mt_level mt ! k)"
proof (intro allI impI)
  fix k assume k: "k \<le> l"
  then have "k < TREE_LEVELS" using assms(2) by simp
  then have "lev (if k \<le> l then ys else xs) k (mt_level mt ! k)" using assms(1) by (simp add: mixed_def)
  then show "lev ys k (mt_level mt ! k)" using k by simp
qed

lemma mixed_next: "mixed ys xs l mt \<Longrightarrow> Suc l < TREE_LEVELS \<Longrightarrow> lev xs (Suc l) (mt_level mt ! Suc l)"
  by (auto simp: mixed_def)

lemma mixed_set:
  assumes "mixed ys xs l mt" and "lev ys (Suc l) al"
  shows "mixed ys xs (Suc l) (set_level (Suc l) al mt)"
  using assms by (auto simp: mixed_def set_level_def nth_list_update le_Suc_eq)

lemma mixed_same:
  assumes "mixed ys xs l mt" and "Suc l < TREE_LEVELS \<Longrightarrow> lev ys (Suc l) (mt_level mt ! Suc l)"
  shows "mixed ys xs (Suc l) mt"
  using assms by (auto simp: mixed_def le_Suc_eq)

text \<open>Above the level that covers all leaves nothing is stored.\<close>

lemma lev_empty:
  assumes "lev xs l al" and "length xs \<le> 2 ^ k" and "length ys \<le> 2 ^ k" and "k < l"
  shows "lev ys l al"
proof -
  obtain m where l: "l = Suc m" and m: "k \<le> m" using assms(4) by (cases l) auto
  have "(2 :: nat) ^ k \<le> 2 ^ m" using m by (intro power_increasing) simp_all
  then have "\<not> 0 < nodes l (length xs)" "\<not> 0 < nodes l (length ys)"
    using assms(2,3) unfolding l less_nodes_Suc by linarith+
  then show ?thesis using assms(1) by (simp add: lev_def)
qed

lemma mixed_all:
  assumes "mixed ys xs k mt" and "length xs \<le> 2 ^ k" and "length ys \<le> 2 ^ k"
  shows "mixed ys ys 0 mt"
  unfolding mixed_def
proof (intro conjI allI impI)
  show "length (mt_level mt) = TREE_LEVELS" using assms(1) by (simp add: mixed_def)
  fix l assume "l < TREE_LEVELS"
  then have "lev (if l \<le> k then ys else xs) l (mt_level mt ! l)" using assms(1) by (simp add: mixed_def)
  then have "lev ys l (mt_level mt ! l)"
    using lev_empty[OF _ assms(2,3), of l] by (cases "l \<le> k") (simp_all add: not_le)
  then show "lev (if l \<le> 0 then ys else ys) l (mt_level mt ! l)" by simp
qed

lemma top_stored: "0 < n \<Longrightarrow> (0 < l \<Longrightarrow> 2 ^ (l - 1) < n) \<Longrightarrow> 0 < nodes l n"
  by (cases l) (simp_all add: less_nodes_Suc)

lemma assert_node_ok:
  assumes "lev ys l (mt_level mt ! l)" and "length ys < MT_AL_MAX_ELEMS" and "0 < nodes l (length ys)"
    and "l < TREE_LEVELS"
  shows "assert_node 0 l (node l 0 ys) mt = Some (MT_SUCCESS, mt)"
  using lev_get[OF assms(1,2), of 0] assms(3,4) by (simp add: assert_node_def)

lemma level_bound:
  assumes "2 ^ l \<le> n" and "n < MT_AL_MAX_ELEMS"
  shows "l + 1 < TREE_LEVELS"
proof -
  have "(2 :: nat) ^ l < 2 ^ 19" using assms by (simp add: MT_AL_MAX_ELEMS_def)
  then have "l < 19" by (rule power_less_imp_less_exp[rotated]) simp
  then show ?thesis by (simp add: TREE_LEVELS_def)
qed

lemma add_loop_spec:
  assumes "mixed (xs @ [h]) xs l mt" and "Suc (length xs) < MT_AL_MAX_ELEMS" and "l < TREE_LEVELS"
    and "0 < l \<Longrightarrow> 2 ^ (l - 1) \<le> length xs"
  shows "\<exists>mt'. add_loop (length xs div 2 ^ l) l (node l (length xs div 2 ^ l) (xs @ [h])) mt = Some (MT_SUCCESS, mt') \<and>
    mixed (xs @ [h]) (xs @ [h]) 0 mt' \<and> mt_elems mt' = mt_elems mt"
  using assms(1,3,4)
proof (induction "TREE_LEVELS - l" arbitrary: l mt)
  case 0
  then show ?case by simp
next
  case (Suc m)
  let ?ys = "xs @ [h]" and ?q = "length xs div 2 ^ l"
  have len: "length ?ys < MT_AL_MAX_ELEMS" "length xs < MT_AL_MAX_ELEMS" using assms(2) by simp_all
  have L: "lev ?ys l (mt_level mt ! l)" using mixed_le[OF Suc.prems(1,2)] by simp
  show ?case
  proof (cases "?q = 0")
    case True
    then have n: "length xs < 2 ^ l" by (simp add: div_eq_0_iff)
    have "0 < nodes l (length ?ys)" using Suc.prems(3) by (intro top_stored) auto
    then have "add_loop ?q l (node l ?q ?ys) mt = Some (MT_SUCCESS, mt)"
      using assert_node_ok[OF L len(1) _ Suc.prems(2)] True by (subst add_loop.simps) simp
    moreover have "mixed ?ys ?ys 0 mt" using mixed_all[OF Suc.prems(1)] n by simp
    ultimately show ?thesis by blast
  next
    case False
    then have ge: "2 ^ l \<le> length xs" by (simp add: div_eq_0_iff not_less)
    then have lb: "Suc l < TREE_LEVELS" using level_bound[OF ge len(2)] by simp
    have m: "m = TREE_LEVELS - Suc l" using Suc.hyps(2) by simp
    have X: "lev xs (Suc l) (mt_level mt ! Suc l)" by (rule mixed_next[OF Suc.prems(1) lb])
    have IH: "\<exists>mt'. add_loop (?q div 2) (Suc l) (node (Suc l) (?q div 2) ?ys) mt1 = Some (MT_SUCCESS, mt') \<and>
        mixed ?ys ?ys 0 mt' \<and> mt_elems mt' = mt_elems mt1" if "mixed ?ys xs (Suc l) mt1" for mt1
      unfolding div_Suc using Suc.hyps(1)[OF m that lb] ge by simp
    have qd: "?q * 2 ^ l \<le> length xs" by simp
    show ?thesis
    proof (cases "even ?q")
      case True
      have "mixed ?ys xs (Suc l) mt" by (rule mixed_same[OF Suc.prems(1) lev_even[OF X True]])
      moreover have "add_loop ?q l (node l ?q ?ys) mt = add_loop (?q div 2) (Suc l) (node l ?q ?ys) mt"
        using True False Suc.prems(2) by (subst add_loop.simps) (simp add: mt_right_def)
      moreover have "node l ?q ?ys = node (Suc l) (?q div 2) ?ys"
        using node_even_single[OF True] by simp
      ultimately show ?thesis using IH by simp
    next
      case False
      from lev_odd[OF X False len(2), of h] obtain al where
        al: "mt_al_add_or_update (mt_level mt ! Suc l) (node (Suc l) (?q div 2) ?ys) (?q div 2) =
          Some (MT_SUCCESS, al)" "lev ?ys (Suc l) al" unfolding div_Suc by blast
      have "?q * 2 ^ l < length ?ys" using le_imp_less_Suc[OF qd] by (simp only: length_append_singleton)
      then have st: "?q - 1 < nodes l (length ?ys)" by (rule left_neighbour_stored[OF False])
      have "hash2 (node l (?q - 1) ?ys) (node l ?q ?ys) = node (Suc l) (?q div 2) ?ys"
        using node_odd_pair[OF False] by simp
      then have "add_loop ?q l (node l ?q ?ys) mt =
          add_loop (?q div 2) (Suc l) (node (Suc l) (?q div 2) ?ys) (set_level (Suc l) al mt)"
        using False \<open>?q \<noteq> 0\<close> Suc.prems(2) lb st al(1) lev_get[OF L len(1), of "?q - 1"]
        by (subst add_loop.simps) (simp add: mt_right_def mt_hash_some)
      then show ?thesis using IH[OF mixed_set[OF Suc.prems(1) al(2)]] by (simp add: set_level_def)
    qed
  qed
qed


lemma node_0: "i < length xs \<Longrightarrow> node 0 i xs = xs ! i"
  by (simp add: node_def take_Suc_conv_app_nth hd_drop_conv_nth)

lemma lev_0: "lev xs 0 al \<longleftrightarrow> al_ok al \<and> al_store al = xs"
proof -
  have "map (\<lambda>i. node 0 i xs) [0..<length xs] = xs" by (rule nth_equalityI) (simp_all add: node_0)
  then show ?thesis by (simp add: lev_def)
qed

lemma mixed_set_0:
  assumes "mixed xs xs 0 mt" and "lev ys 0 al"
  shows "mixed ys xs 0 (set_level 0 al mt)"
  using assms by (auto simp: mixed_def set_level_def nth_list_update TREE_LEVELS_def)

lemma tree_inv_lev: "tree_inv xs mt \<Longrightarrow> l < TREE_LEVELS \<Longrightarrow> lev xs l (mt_level mt ! l)"
  by (simp add: tree_inv_def mixed_def split: if_splits)

lemma init_hash_length: "length tag \<le> HASH_LENGTH \<Longrightarrow> length (mt_init_hash tag) = HASH_LENGTH"
  by (simp add: mt_init_hash_def)

lemma mt_add_ok:
  assumes "tree_inv xs mt" and "length tag \<le> HASH_LENGTH" and "Suc (length xs) < MT_AL_MAX_ELEMS"
  shows "\<exists>mt'. mt_add mt tag = Some (MT_SUCCESS, mt') \<and> tree_inv (xs @ [mt_init_hash tag]) mt'"
proof -
  let ?h = "mt_init_hash tag" and ?ys = "xs @ [mt_init_hash tag]"
  have L: "lev xs 0 (mt_level mt ! 0)" using tree_inv_lev[OF assms(1)] by (simp add: TREE_LEVELS_def)
  then have ok: "al_ok (mt_level mt ! 0)" "al_room (mt_level mt ! 0)" "al_store (mt_level mt ! 0) = xs"
    using lev_room[OF L] assms(3) by (simp_all add: lev_0)
  obtain al where al: "mt_al_add (mt_level mt ! 0) ?h = Some (MT_SUCCESS, al)" "lev ?ys 0 al"
    using mt_al_add_ok[OF ok(1,2), of ?h] ok(3) by (auto simp: lev_0)
  let ?mt = "(set_level 0 al mt)\<lparr>mt_elems := mt_elems mt + 1\<rparr>"
  have mixed: "mixed ?ys xs 0 ?mt"
    using mixed_set_0[OF _ al(2), of xs mt] assms(1) by (simp add: tree_inv_def mixed_def)
  have elems: "mt_elems ?mt = length ?ys" using assms(1) by (simp add: tree_inv_def)
  have inv: "tree_inv ?ys mt'" if "mixed ?ys ?ys 0 mt'" "mt_elems mt' = mt_elems ?mt" for mt'
    using that elems assms init_hash_length[OF assms(2)] by (simp add: tree_inv_def)
  have add: "mt_add mt tag = (if length ?ys = 1 then Some (MT_SUCCESS, ?mt) else add_loop (length xs) 0 ?h ?mt)"
    using assms(1,2) al(1) by (simp add: mt_add_def tree_inv_def Let_def)
  show ?thesis
  proof (cases "xs = []")
    case True
    then have "mixed ?ys ?ys 0 ?mt" using mixed_all[OF mixed] by simp
    then show ?thesis using inv add True by auto
  next
    case False
    have "node 0 (length xs) ?ys = ?h" by (simp add: node_0)
    then have "\<exists>mt'. add_loop (length xs) 0 ?h ?mt = Some (MT_SUCCESS, mt') \<and>
        mixed ?ys ?ys 0 mt' \<and> mt_elems mt' = mt_elems ?mt"
      using add_loop_spec[OF mixed assms(3)] by (simp add: TREE_LEVELS_def)
    then show ?thesis using inv add False by auto
  qed
qed

definition mt_build :: "byte list list \<Rightarrow> merkle_tree option" where
  "mt_build tags =
     fold_opt (\<lambda>tag mt. case mt_add mt tag of Some (MT_SUCCESS, mt') \<Rightarrow> Some mt' | _ \<Rightarrow> None) tags mt_create"

lemma tree_inv_create: "tree_inv [] mt_create"
proof -
  have "lev [] l mt_al_create" for l
    using nodes_le[of l 0] by (simp add: lev_def mt_al_create_def al_ok_def)
  then show ?thesis
    by (simp add: tree_inv_def mixed_def mt_create_def MT_AL_MAX_ELEMS_def)
qed

lemma mt_build_ok:
  assumes "\<forall>t \<in> set tags. length t \<le> HASH_LENGTH" and "length tags < MT_AL_MAX_ELEMS"
  shows "\<exists>mt. mt_build tags = Some mt \<and> tree_inv (map mt_init_hash tags) mt"
  using assms
proof (induction tags rule: rev_induct)
  case Nil
  then show ?case using tree_inv_create by (simp add: mt_build_def)
next
  case (snoc t tags)
  then obtain mt where mt: "mt_build tags = Some mt" "tree_inv (map mt_init_hash tags) mt" by auto
  have "length t \<le> HASH_LENGTH" "Suc (length (map mt_init_hash tags)) < MT_AL_MAX_ELEMS"
    using snoc.prems by simp_all
  from mt_add_ok[OF mt(2) this] show ?case using mt(1) by (auto simp: mt_build_def fold_opt_append)
qed

section \<open>Verifying and updating a leaf\<close>

lemma level_18:
  fixes n :: nat
  assumes "n \<le> 2 ^ 18" and "0 < l \<Longrightarrow> 2 ^ (l - 1) < n"
  shows "l \<le> 18"
proof (cases l)
  case (Suc k)
  then have "(2 :: nat) ^ k < 2 ^ 18" using assms by simp
  then have "k < 18" by (rule power_less_imp_less_exp[rotated]) simp
  then show ?thesis using Suc by simp
qed simp

lemma next_level:
  assumes "lev xs (l + 1) (mt_level mt ! (l + 1))" and "length xs \<le> 2 ^ 18" and "0 < l \<Longrightarrow> 2 ^ (l - 1) < length xs"
  shows "hasNextLevelExceptRoot mt l \<longleftrightarrow> 2 ^ l < length xs"
proof (cases "l = 18")
  case True
  then show ?thesis using hasNext_spec[OF assms(1)] assms(2) by simp
next
  case False
  have "l \<le> 18" by (rule level_18[OF assms(2,3)])
  then show ?thesis using False hasNext_spec[OF assms(1)] by simp
qed

lemma root_level_spec:
  assumes "tree_inv xs mt" and "length xs \<le> 2 ^ 18" and "0 < l \<Longrightarrow> 2 ^ (l - 1) < length xs"
  shows "length xs \<le> 2 ^ root_level mt l \<and> root_level mt l \<le> 18 \<and>
    (0 < root_level mt l \<longrightarrow> 2 ^ (root_level mt l - 1) < length xs)"
  using assms(3)
proof (induction "TREE_LEVELS - l" arbitrary: l)
  case 0
  then show ?case using level_18[OF assms(2) 0(2)] by (simp add: TREE_LEVELS_def)
next
  case (Suc m)
  have l: "l \<le> 18" by (rule level_18[OF assms(2) Suc.prems])
  then have L: "lev xs (l + 1) (mt_level mt ! (l + 1))"
    using tree_inv_lev[OF assms(1), of "l + 1"] by (simp add: TREE_LEVELS_def)
  show ?case
  proof (cases "2 ^ l < length xs")
    case True
    then show ?thesis using Suc.hyps(1)[of "Suc l"] Suc.hyps(2) next_level[OF L assms(2) Suc.prems]
      by (subst (1 2 3 4) root_level.simps) simp
  next
    case False
    then have "root_level mt l = l"
      using next_level[OF L assms(2) Suc.prems] by (subst root_level.simps) simp
    then show ?thesis using False l Suc.prems by (simp add: not_less)
  qed
qed

lemma mt_get_root_spec:
  assumes "tree_inv xs mt" and "length xs \<le> 2 ^ 18" and "xs \<noteq> []"
  shows "mt_get_root mt = Some (merkle_root xs)"
proof -
  let ?r = "root_level mt 0"
  have r: "length xs \<le> 2 ^ ?r" "?r \<le> 18" "0 < ?r \<Longrightarrow> 2 ^ (?r - 1) < length xs"
    using root_level_spec[OF assms(1,2), of 0] by simp_all
  have "lev xs ?r (mt_level mt ! ?r)" using tree_inv_lev[OF assms(1)] r(2) by (simp add: TREE_LEVELS_def)
  from lev_get[OF this, of 0] have "mt_al_get (mt_level mt ! ?r) 0 = Some (Some (merkle_root xs))"
    using assms top_stored[OF _ r(3)] merkle_root_node[OF r(1)] by (simp add: tree_inv_def)
  then show ?thesis by (simp add: mt_get_root_def)
qed

lemma verify_loop_spec:
  assumes "tree_inv xs mt" and "length xs \<le> 2 ^ 18" and "i < length xs" and "0 < l \<Longrightarrow> 2 ^ (l - 1) < length xs"
  shows "verify_loop mt (i div 2 ^ l) l (node l (i div 2 ^ l) (xs[i := h])) =
    Some (if merkle_root (xs[i := h]) \<noteq> merkle_root xs then MT_ERR_ROOT_MISMATCH else MT_SUCCESS)"
  using assms(4)
proof (induction "TREE_LEVELS - l" arbitrary: l)
  case 0
  then show ?case using level_18[OF assms(2) 0(2)] by (simp add: TREE_LEVELS_def)
next
  case (Suc m)
  let ?q = "i div 2 ^ l" and ?ys = "xs[i := h]"
  have n: "length xs < MT_AL_MAX_ELEMS" using assms(1) by (simp add: tree_inv_def)
  have l: "l \<le> 18" by (rule level_18[OF assms(2) Suc.prems])
  then have L: "lev xs k (mt_level mt ! k)" if "k \<le> l + 1" for k
    using that tree_inv_lev[OF assms(1), of k] by (simp add: TREE_LEVELS_def)
  note next_l = next_level[OF L[OF order_refl] assms(2) Suc.prems]
  have q: "?q * 2 ^ l < length xs" by (rule le_less_trans[OF _ assms(3)]) simp
  show ?case
  proof (cases "2 ^ l < length xs")
    case True
    have "combine mt ?q l (node l ?q ?ys) = Some (Inr (node (Suc l) (?q div 2) ?ys))"
      using L n q node_update[of _ i l xs h] by (intro combine_spec) auto
    moreover have "m = TREE_LEVELS - Suc l" using Suc.hyps(2) by simp
    ultimately show ?thesis using Suc.hyps(1)[of "Suc l"] True next_l
      by (subst verify_loop.simps) (simp add: div_Suc)
  next
    case False
    then have q0: "?q = 0" using assms(3) by simp
    have "lev xs l (mt_level mt ! l)" by (rule L) simp
    moreover have "0 < nodes l (length xs)" using assms(3) Suc.prems by (intro top_stored) auto
    ultimately have "mt_al_get (mt_level mt ! l) 0 = Some (Some (merkle_root xs))"
      using False lev_get[of xs l _ 0] n merkle_root_node[of xs l] by (simp add: not_less)
    then show ?thesis using False next_l q0 merkle_root_node[of ?ys l]
      by (subst verify_loop.simps) (simp add: not_less)
  qed
qed

lemma lev_update:
  assumes "lev xs l al" and "length xs < MT_AL_MAX_ELEMS" and "i < length xs"
  shows "\<exists>al'. mt_al_update_if_exists al (node l (i div 2 ^ l) (xs[i := h])) (i div 2 ^ l) = Some (MT_SUCCESS, al') \<and>
    lev (xs[i := h]) l al'"
proof -
  let ?q = "i div 2 ^ l" and ?ys = "xs[i := h]"
  have al: "al_ok al" "al_store al = map (\<lambda>j. node l j xs) [0..<nodes l (length xs)]" using assms(1) by (simp_all add: lev_def)
  have eq: "(map (\<lambda>j. node l j xs) [0..<nodes l (length xs)])[?q := node l ?q ?ys] =
      map (\<lambda>j. node l j ?ys) [0..<nodes l (length xs)]"
  proof (rule nth_equalityI)
    fix j assume "j < length ((map (\<lambda>j. node l j xs) [0..<nodes l (length xs)])[?q := node l ?q ?ys])"
    then show "(map (\<lambda>j. node l j xs) [0..<nodes l (length xs)])[?q := node l ?q ?ys] ! j =
        map (\<lambda>j. node l j ?ys) [0..<nodes l (length xs)] ! j"
      by (cases "j = ?q") (simp_all add: nth_list_update node_update)
  qed simp
  show ?thesis
  proof (cases "?q < nodes l (length xs)")
    case True
    then show ?thesis using lev_room[OF assms(1,2)] al eq al_ok_update[OF al(1), of ?q "node l ?q ?ys"]
      by (simp add: mt_al_update_if_exists_def lev_def)
  next
    case False
    then have "al_store al = map (\<lambda>j. node l j ?ys) [0..<nodes l (length xs)]"
      using eq al(2) by (simp only: length_map length_upt list_update_beyond not_less diff_zero)
    then show ?thesis using False lev_room[OF assms(1,2)] al(1)
      by (simp add: mt_al_update_if_exists_def lev_def)
  qed
qed

lemma update_loop_spec:
  assumes "mixed (xs[i := h]) xs l mt" and "length xs \<le> 2 ^ 18" and "i < length xs"
    and "0 < l \<Longrightarrow> 2 ^ (l - 1) < length xs" and "length xs < MT_AL_MAX_ELEMS"
  shows "\<exists>mt'. update_loop (i div 2 ^ l) l (node l (i div 2 ^ l) (xs[i := h])) mt = Some (MT_SUCCESS, mt') \<and>
    mixed (xs[i := h]) (xs[i := h]) 0 mt' \<and> mt_elems mt' = mt_elems mt"
  using assms(1,4)
proof (induction "TREE_LEVELS - l" arbitrary: l mt)
  case 0
  then show ?case using level_18[OF assms(2) 0(3)] by (simp add: TREE_LEVELS_def)
next
  case (Suc m)
  let ?q = "i div 2 ^ l" and ?ys = "xs[i := h]"
  have l: "l < TREE_LEVELS" "Suc l < TREE_LEVELS"
    using level_18[OF assms(2) Suc.prems(2)] by (simp_all add: TREE_LEVELS_def)
  have X: "lev xs (Suc l) (mt_level mt ! Suc l)" by (rule mixed_next[OF Suc.prems(1) l(2)])
  have Y: "\<forall>k \<le> l. lev ?ys k (mt_level mt ! k)" by (rule mixed_le[OF Suc.prems(1) l(1)])
  have n: "length ?ys < MT_AL_MAX_ELEMS" using assms(5) by simp
  have next_l: "hasNextLevelExceptRoot mt l \<longleftrightarrow> 2 ^ l < length xs"
    using next_level[OF _ assms(2) Suc.prems(2)] X by simp
  have q: "?q * 2 ^ l < length ?ys" using le_less_trans[OF _ assms(3), of "?q * 2 ^ l"] by simp
  show ?case
  proof (cases "2 ^ l < length xs")
    case True
    obtain al where al: "mt_al_update_if_exists (mt_level mt ! Suc l) (node (Suc l) (?q div 2) ?ys) (?q div 2) =
        Some (MT_SUCCESS, al)" "lev ?ys (Suc l) al"
      using lev_update[OF X assms(5,3), of h] unfolding div_Suc by blast
    have "combine mt ?q l (node l ?q ?ys) = Some (Inr (node (Suc l) (?q div 2) ?ys))"
      by (rule combine_spec[OF Y n q]) simp_all
    then have "update_loop ?q l (node l ?q ?ys) mt =
        update_loop (?q div 2) (Suc l) (node (Suc l) (?q div 2) ?ys) (set_level (Suc l) al mt)"
      using al(1) True next_l by (subst update_loop.simps) simp
    moreover have "mixed ?ys xs (Suc l) (set_level (Suc l) al mt)" by (rule mixed_set[OF Suc.prems(1) al(2)])
    moreover have "m = TREE_LEVELS - Suc l" using Suc.hyps(2) by simp
    ultimately show ?thesis using Suc.hyps(1)[of "Suc l" "set_level (Suc l) al mt"] True
      by (simp add: div_Suc) (simp add: set_level_def)
  next
    case False
    then have q0: "?q = 0" using assms(3) by simp
    have "0 < nodes l (length ?ys)" using assms(3) Suc.prems(2) by (intro top_stored) auto
    then have "assert_node 0 l (node l 0 ?ys) mt = Some (MT_SUCCESS, mt)"
      using Y n l(1) by (intro assert_node_ok) simp_all
    then show ?thesis using False next_l q0 mixed_all[OF Suc.prems(1)]
      by (subst update_loop.simps) (simp add: not_less)
  qed
qed

lemma mt_update_spec:
  assumes "tree_inv xs mt" and "length tag \<le> HASH_LENGTH" and "i < length xs" and "length xs \<le> 2 ^ 18"
  shows "\<exists>mt'. mt_update mt tag i = Some (MT_SUCCESS, mt') \<and> tree_inv (xs[i := mt_init_hash tag]) mt'"
proof -
  let ?h = "mt_init_hash tag" and ?ys = "xs[i := mt_init_hash tag]"
  have inv: "mt_elems mt = length xs" "length xs < MT_AL_MAX_ELEMS" "mixed xs xs 0 mt" "\<forall>x \<in> set xs. length x = HASH_LENGTH"
    using assms(1) by (simp_all add: tree_inv_def)
  have L: "lev xs 0 (mt_level mt ! 0)" using tree_inv_lev[OF assms(1)] by (simp add: TREE_LEVELS_def)
  then have al: "al_ok (mt_level mt ! 0)" "al_store (mt_level mt ! 0) = xs" "al_room (mt_level mt ! 0)"
    using lev_room[OF L inv(2)] by (simp_all add: lev_0)
  let ?al = "(mt_level mt ! 0)\<lparr>al_store := ?ys\<rparr>"
  have "lev ?ys 0 ?al" using al_ok_update[OF al(1), of i ?h] al(2) by (simp add: lev_0)
  then have mixed: "mixed ?ys xs 0 (set_level 0 ?al mt)" by (rule mixed_set_0[OF inv(3)])
  have "mt_update mt tag i = update_loop i 0 ?h (set_level 0 ?al mt)"
    using assms(2,3) inv(1) al by (simp add: mt_update_def mt_al_update_def)
  moreover have "node 0 i ?ys = ?h" using assms(3) by (simp add: node_0)
  ultimately obtain mt' where "mt_update mt tag i = Some (MT_SUCCESS, mt')" "mixed ?ys ?ys 0 mt'" "mt_elems mt' = mt_elems mt"
    using update_loop_spec[OF mixed assms(4,3) _ inv(2)] by (auto simp: set_level_def)
  moreover have "\<forall>x \<in> set ?ys. length x = HASH_LENGTH"
    using set_update_subset_insert[of xs i ?h] inv(4) init_hash_length[OF assms(2)] by blast
  ultimately show ?thesis using inv by (simp add: tree_inv_def)
qed

lemma mt_verify_spec:
  assumes "tree_inv xs mt" and "length tag \<le> HASH_LENGTH" and "i < length xs" and "length xs \<le> 2 ^ 18"
  shows "mt_verify mt tag i =
    Some (if merkle_root (xs[i := mt_init_hash tag]) \<noteq> merkle_root xs then MT_ERR_ROOT_MISMATCH else MT_SUCCESS)"
  using verify_loop_spec[OF assms(1,4,3), of 0 "mt_init_hash tag"] assms
  by (simp add: mt_verify_def node_0 tree_inv_def)

section \<open>The root binds the leaves\<close>

definition collision :: "byte list \<Rightarrow> byte list \<Rightarrow> bool" where
  "collision a b \<longleftrightarrow> a \<noteq> b \<and> length a = 64 \<and> length b = 64 \<and> sha256_spec a = sha256_spec b"

lemma sha256_spec_length: "length (sha256_spec m) = 32"
proof -
  have "length (fold compress bs h) = 8" if "length h = 8" for bs h
    using that by (induction bs arbitrary: h) (simp_all add: compress_length)
  then have "length (fold compress (blocks64 (pad_message m)) SHA256_H0) = 8" by (simp add: SHA256_H0_def)
  moreover have "length (concat (map be32 ws)) = 4 * length ws" for ws
    by (induction ws) (simp_all add: be32_def)
  ultimately show ?thesis by (simp add: sha256_spec_def)
qed

lemma mth_length:
  "xs \<noteq> [] \<Longrightarrow> \<forall>x \<in> set xs. length x = HASH_LENGTH \<Longrightarrow> length (mth l xs) = HASH_LENGTH"
  by (induction l arbitrary: xs) (simp_all add: hash2_def sha256_spec_length HASH_LENGTH_def)

lemma hash2_collision:
  assumes "hash2 a b = hash2 c d" and "length a = HASH_LENGTH" "length b = HASH_LENGTH" "length c = HASH_LENGTH" "length d = HASH_LENGTH"
  shows "(a = c \<and> b = d) \<or> collision (a @ b) (c @ d)"
  using assms by (auto simp: hash2_def collision_def HASH_LENGTH_def)

lemma mth_binding:
  assumes "mth l xs = mth l ys" and "length xs = length ys" and "xs \<noteq> []" and "length xs \<le> 2 ^ l"
    and "\<forall>x \<in> set xs. length x = HASH_LENGTH" and "\<forall>y \<in> set ys. length y = HASH_LENGTH"
  shows "xs = ys \<or> (\<exists>a b. collision a b)"
  using assms
proof (induction l arbitrary: xs ys)
  case 0
  then show ?case by (cases xs; cases ys) simp_all
next
  case (Suc l)
  show ?case
  proof (cases "length xs \<le> 2 ^ l")
    case True
    then show ?thesis using Suc.prems Suc.IH[of xs ys] by simp
  next
    case False
    let ?k = "2 ^ l :: nat"
    have ne: "take ?k xs \<noteq> []" "drop ?k xs \<noteq> []" "take ?k ys \<noteq> []" "drop ?k ys \<noteq> []"
      using False Suc.prems(2,3) by auto
    have len: "\<forall>x \<in> set (take ?k xs). length x = HASH_LENGTH" "\<forall>x \<in> set (drop ?k xs). length x = HASH_LENGTH"
      "\<forall>x \<in> set (take ?k ys). length x = HASH_LENGTH" "\<forall>x \<in> set (drop ?k ys). length x = HASH_LENGTH"
      using Suc.prems(5,6) by (auto dest: in_set_takeD in_set_dropD)
    have "hash2 (mth l (take ?k xs)) (mth l (drop ?k xs)) = hash2 (mth l (take ?k ys)) (mth l (drop ?k ys))"
      using Suc.prems(1,2) False by simp
    from hash2_collision[OF this] consider "\<exists>a b. collision a b"
      | "mth l (take ?k xs) = mth l (take ?k ys)" "mth l (drop ?k xs) = mth l (drop ?k ys)"
      using ne len mth_length by blast
    then show ?thesis
    proof cases
      case 2
      have "take ?k xs = take ?k ys \<or> (\<exists>a b. collision a b)"
        using Suc.IH[OF 2(1)] Suc.prems(2) ne len by simp
      moreover have "drop ?k xs = drop ?k ys \<or> (\<exists>a b. collision a b)"
        using Suc.IH[OF 2(2)] Suc.prems(2,4) ne len by simp
      ultimately show ?thesis by (metis append_take_drop_id)
    qed blast
  qed
qed

lemma merkle_root_binding:
  assumes "merkle_root xs = merkle_root ys" and "length xs = length ys" and "xs \<noteq> []"
    and "\<forall>x \<in> set xs. length x = HASH_LENGTH" and "\<forall>y \<in> set ys. length y = HASH_LENGTH"
  shows "xs = ys \<or> (\<exists>a b. collision a b)"
proof (rule mth_binding[OF _ assms(2,3) _ assms(4,5)])
  show "mth (length xs) xs = mth (length xs) ys" using assms(1,2) by (simp add: merkle_root_def)
  show "length xs \<le> 2 ^ length xs" by (rule less_imp_le) (rule less_exp)
qed

section \<open>Properties\<close>

text \<open>C23. Adding up to \<open>2^18\<close> tags of at most 32 bytes to an empty tree with \<open>mt_add\<close> succeeds on every
  call, and \<open>mt_get_root\<close> then copies out the Merkle root of the zero-padded tags as it is
  defined by recursion on the list of leaves: the two halves at the largest full level hashed together, an odd
  node carried up unchanged. The incremental algorithm therefore never reads a node it has not
  stored and keeps every level of the stored tree equal to the specification.\<close>

theorem merkle_build_root:
  assumes "\<forall>t \<in> set tags. length t \<le> HASH_LENGTH" and "tags \<noteq> []" and "length tags \<le> 2 ^ 18"
  shows "Option.bind (mt_build tags) mt_get_root = Some (merkle_root (map mt_init_hash tags))"
proof -
  have "length tags < MT_AL_MAX_ELEMS" using assms(3) by (simp add: MT_AL_MAX_ELEMS_def)
  then obtain mt where "mt_build tags = Some mt" "tree_inv (map mt_init_hash tags) mt"
    using mt_build_ok[OF assms(1)] by blast
  then show ?thesis using mt_get_root_spec[of "map mt_init_hash tags" mt] assms(2,3) by simp
qed

theorem merkle_build_root_witness:
  "Option.bind (mt_build [[1], [2], [3]]) mt_get_root =
     Some (hash2 (hash2 (mt_init_hash [1]) (mt_init_hash [2])) (mt_init_hash [3]))"
  using merkle_build_root[of "[[1], [2], [3]]"] by (simp add: HASH_LENGTH_def merkle_root_def numeral_3_eq_3)



text \<open>C25. Updating a leaf in place with \<open>mt_update\<close> succeeds and leaves a tree whose root is the one
  obtained by building a fresh tree with the new tag at that offset; the updated tree accepts
  the new tag.\<close>

theorem merkle_update_rebuild:
  assumes "\<forall>t \<in> set tags. length t \<le> HASH_LENGTH" and "length tags \<le> 2 ^ 18" and "i < length tags"
    and "length tag \<le> HASH_LENGTH"
  shows "\<exists>mt mt'. mt_build tags = Some mt \<and> mt_update mt tag i = Some (MT_SUCCESS, mt') \<and>
    mt_get_root mt' = Option.bind (mt_build (tags[i := tag])) mt_get_root \<and>
    mt_verify mt' tag i = Some MT_SUCCESS"
proof -
  let ?ts = "tags[i := tag]"
  have n: "length tags < MT_AL_MAX_ELEMS" using assms(2) by (simp add: MT_AL_MAX_ELEMS_def)
  have ts: "\<forall>t \<in> set ?ts. length t \<le> HASH_LENGTH"
    using set_update_subset_insert[of tags i tag] assms(1,4) by blast
  obtain mt where mt: "mt_build tags = Some mt" "tree_inv (map mt_init_hash tags) mt"
    using mt_build_ok[OF assms(1) n] by blast
  obtain mt2 where mt2: "mt_build ?ts = Some mt2" "tree_inv (map mt_init_hash ?ts) mt2"
    using mt_build_ok[OF ts] n by auto
  obtain mt' where mt': "mt_update mt tag i = Some (MT_SUCCESS, mt')" "tree_inv (map mt_init_hash ?ts) mt'"
    using mt_update_spec[OF mt(2) assms(4)] assms(2,3) by (auto simp: map_update)
  have ne: "map mt_init_hash ?ts \<noteq> []" and le: "length (map mt_init_hash ?ts) \<le> 2 ^ 18" using assms(2,3) by auto
  have "(map mt_init_hash ?ts)[i := mt_init_hash tag] = map mt_init_hash ?ts" by (simp add: map_update)
  then have "mt_verify mt' tag i = Some MT_SUCCESS"
    using mt_verify_spec[OF mt'(2) assms(4) _ le, of i] assms(3) by simp
  then show ?thesis
    using mt(1) mt'(1) mt2(1) mt_get_root_spec[OF mt'(2) le ne] mt_get_root_spec[OF mt2(2) le ne] by simp
qed

theorem merkle_update_rebuild_witness:
  "\<exists>mt mt'. mt_build [[1], [2], [3]] = Some mt \<and> mt_update mt [9] 2 = Some (MT_SUCCESS, mt') \<and>
    mt_get_root mt' = Option.bind (mt_build [[1], [2], [9]]) mt_get_root \<and> mt_verify mt' [9] 2 = Some MT_SUCCESS"
  using merkle_update_rebuild[of "[[1], [2], [3]]" 2 "[9]"] by (simp add: HASH_LENGTH_def)

lemma root_level_full:
  assumes "tree_inv xs mt" and "2 ^ 18 < length xs" and "l \<le> 18"
  shows "root_level mt l = 18"
  using assms(3)
proof (induction "18 - l" arbitrary: l)
  case 0
  have "lev xs (18 + 1) (mt_level mt ! (18 + 1))" using tree_inv_lev[OF assms(1)] by (simp add: TREE_LEVELS_def)
  from hasNext_spec[OF this] show ?case using 0 by (subst root_level.simps) simp
next
  case (Suc k)
  have "lev xs (l + 1) (mt_level mt ! (l + 1))"
    using tree_inv_lev[OF assms(1), of "l + 1"] Suc.prems by (simp add: TREE_LEVELS_def)
  moreover have "(2 :: nat) ^ l \<le> 2 ^ 18" using Suc.prems by (intro power_increasing) simp_all
  ultimately have "hasNextLevelExceptRoot mt l" using Suc.hyps(2) hasNext_spec[of xs l mt] assms(2) by simp
  then show ?case using Suc.hyps(1)[of "l + 1"] Suc.hyps(2) by (subst root_level.simps) simp
qed

text \<open>The capacity of a tree is larger than what its root covers. A tree takes up to \<open>2^19 - 1\<close> leaves without
  an error, but \<open>hasNextLevelExceptRoot\<close> stops one level below the top: with more than \<open>2^18\<close>
  leaves \<open>mt_get_root\<close> returns the root of the first \<open>2^18\<close> of them, so the later leaves are not
  authenticated at all.\<close>

theorem merkle_root_ignores_late_leaves:
  assumes "\<forall>t \<in> set tags. length t \<le> HASH_LENGTH" and "2 ^ 18 < length tags" and "length tags < 2 ^ 19"
  shows "Option.bind (mt_build tags) mt_get_root = Option.bind (mt_build (take (2 ^ 18) tags)) mt_get_root"
proof -
  let ?xs = "map mt_init_hash tags" and ?ts = "take (2 ^ 18) tags"
  have n: "length tags < MT_AL_MAX_ELEMS" using assms(3) by (simp add: MT_AL_MAX_ELEMS_def)
  obtain mt where mt: "mt_build tags = Some mt" "tree_inv ?xs mt" using mt_build_ok[OF assms(1) n] by blast
  have "\<forall>t \<in> set ?ts. length t \<le> HASH_LENGTH" using assms(1) by (blast dest: in_set_takeD)
  then obtain mt2 where mt2: "mt_build ?ts = Some mt2" "tree_inv (map mt_init_hash ?ts) mt2"
    using mt_build_ok[of ?ts] le_less_trans[OF min.cobounded1 n, of "2 ^ 18"] by (auto simp: min_def)
  have r: "root_level mt 0 = 18" using root_level_full[OF mt(2), of 0] assms(2) by simp
  have "lev ?xs 18 (mt_level mt ! 18)" using tree_inv_lev[OF mt(2)] by (simp add: TREE_LEVELS_def)
  moreover have "0 < nodes 18 (length tags)" using assms(2) by (intro top_stored) auto
  ultimately have "mt_get_root mt = Some (node 18 0 ?xs)"
    using lev_get[of ?xs 18 _ 0] n r by (simp add: mt_get_root_def)
  moreover have "node 18 0 ?xs = node 18 0 (map mt_init_hash ?ts)" by (simp add: node_def take_map)
  moreover have "node 18 0 (map mt_init_hash ?ts) = merkle_root (map mt_init_hash ?ts)"
    by (rule merkle_root_node) simp
  moreover have "map mt_init_hash ?ts \<noteq> []" using assms(2) by auto
  ultimately show ?thesis using mt(1) mt2 mt_get_root_spec[OF mt2(2)] by simp
qed

theorem merkle_root_ignores_late_leaves_witness:
  "Option.bind (mt_build (replicate (2 ^ 18) [1] @ [[2]])) mt_get_root =
   Option.bind (mt_build (replicate (2 ^ 18) [1])) mt_get_root"
  using merkle_root_ignores_late_leaves[of "replicate (2 ^ 18) [1] @ [[2]]"] by (simp add: HASH_LENGTH_def)

end
