(* ===== verification/Lru_Cache.thy ===== *)
theory Lru_Cache
  imports Neu_Prelude
begin

text \<open>
  The cache of \<open>common/lru_cache.hpp\<close>, which the block generator uses for loaded blocks and the SQL storage for query results. As in the source it
  is a linked list of nodes in order of use and an index from keys to list
  iterators. A node has an address, which is what an iterator holds; dereferencing an
  iterator whose node is gone, or the back of an empty list, is \<open>None\<close>. Every public operation
  holds the lock of the cache and is one step.

  The specification is the list of pairs in order of use. The lemmas show that the two structures
  never disagree, that the cache behaves as the list, how large it gets, and which keys it
  still holds.
\<close>

section \<open>The code\<close>

record ('k, 'v) lru_cache =
  lru_keys :: "(nat \<times> 'k \<times> 'v) list"
  lru_index :: "('k \<times> nat) list"
  lru_fresh :: nat
  maxSize :: nat
  elasticity :: nat

definition newCache :: "nat \<Rightarrow> nat \<Rightarrow> ('k, 'v) lru_cache" where
  "newCache m e = \<lparr>lru_keys = [], lru_index = [], lru_fresh = 0, maxSize = m, elasticity = e\<rparr>"

definition lru_size :: "('k, 'v) lru_cache \<Rightarrow> nat" where
  "lru_size c = length (lru_index c)"

definition lru_empty :: "('k, 'v) lru_cache \<Rightarrow> bool" where
  "lru_empty c \<longleftrightarrow> lru_index c = []"

definition lru_clear :: "('k, 'v) lru_cache \<Rightarrow> ('k, 'v) lru_cache" where
  "lru_clear c = c\<lparr>lru_index := [], lru_keys := []\<rparr>"

definition splice_front :: "nat \<Rightarrow> ('k, 'v) lru_cache \<Rightarrow> (('k \<times> 'v) \<times> ('k, 'v) lru_cache) option" where
  "splice_front p c =
     (case map_of (lru_keys c) p of
        None \<Rightarrow> None
      | Some kv \<Rightarrow> Some (kv, c\<lparr>lru_keys := (p, kv) # AList.delete p (lru_keys c)\<rparr>))"

definition set_value :: "nat \<Rightarrow> 'v \<Rightarrow> ('k, 'v) lru_cache \<Rightarrow> ('k, 'v) lru_cache" where
  "set_value p v c = c\<lparr>lru_keys := map (\<lambda>(q, k, w). (q, k, if q = p then v else w)) (lru_keys c)\<rparr>"

definition getMaxAllowedSize :: "('k, 'v) lru_cache \<Rightarrow> nat" where
  "getMaxAllowedSize c = (maxSize c + elasticity c) mod 2 ^ 64"

function prune_loop :: "('k, 'v) lru_cache \<Rightarrow> nat \<Rightarrow> (nat \<times> ('k, 'v) lru_cache) option" where
  "prune_loop c n =
     (if lru_size c > maxSize c
      then if lru_keys c = [] then None
        else prune_loop
          (c\<lparr>lru_index := AList.delete (fst (snd (last (lru_keys c)))) (lru_index c),
             lru_keys := butlast (lru_keys c)\<rparr>) (n + 1)
      else Some (n, c))"
  by pat_completeness auto
termination
  by (relation "measure (\<lambda>(c, n). length (lru_keys c))") auto

declare prune_loop.simps [simp del]

definition prune :: "('k, 'v) lru_cache \<Rightarrow> (nat \<times> ('k, 'v) lru_cache) option" where
  "prune c =
     (if maxSize c = 0 \<or> lru_size c < getMaxAllowedSize c then Some (0, c) else prune_loop c 0)"

definition lru_insert :: "'k \<Rightarrow> 'v \<Rightarrow> ('k, 'v) lru_cache \<Rightarrow> ('k, 'v) lru_cache option" where
  "lru_insert k v c =
     (case map_of (lru_index c) k of
        Some p \<Rightarrow> map_option snd (splice_front p (set_value p v c))
      | None \<Rightarrow>
          map_option snd (prune
            (c\<lparr>lru_keys := (lru_fresh c, k, v) # lru_keys c,
               lru_index := AList.update k (lru_fresh c) (lru_index c),
               lru_fresh := lru_fresh c + 1\<rparr>)))"

definition tryGet :: "'k \<Rightarrow> ('k, 'v) lru_cache \<Rightarrow> ('v option \<times> ('k, 'v) lru_cache) option" where
  "tryGet k c =
     (case map_of (lru_index c) k of
        None \<Rightarrow> Some (None, c)
      | Some p \<Rightarrow> map_option (\<lambda>(kv, c1). (Some (snd kv), c1)) (splice_front p c))"

datatype lru_error = KeyNotFound

definition lru_get :: "'k \<Rightarrow> ('k, 'v) lru_cache \<Rightarrow> ((lru_error + 'v) \<times> ('k, 'v) lru_cache) option" where
  "lru_get k c =
     (case map_of (lru_index c) k of
        None \<Rightarrow> Some (Inl KeyNotFound, c)
      | Some p \<Rightarrow> map_option (\<lambda>(kv, c1). (Inr (snd kv), c1)) (splice_front p c))"

definition lru_remove :: "'k \<Rightarrow> ('k, 'v) lru_cache \<Rightarrow> (bool \<times> ('k, 'v) lru_cache) option" where
  "lru_remove k c =
     (case map_of (lru_index c) k of
        None \<Rightarrow> Some (False, c)
      | Some p \<Rightarrow>
          if map_of (lru_keys c) p = None then None
          else Some (True, c\<lparr>lru_keys := AList.delete p (lru_keys c), lru_index := AList.delete k (lru_index c)\<rparr>))"

definition lru_contains :: "'k \<Rightarrow> ('k, 'v) lru_cache \<Rightarrow> bool" where
  "lru_contains k c \<longleftrightarrow> map_of (lru_index c) k \<noteq> None"

definition cwalk :: "('k \<times> 'v \<Rightarrow> 's \<Rightarrow> 's) \<Rightarrow> ('k, 'v) lru_cache \<Rightarrow> 's \<Rightarrow> 's" where
  "cwalk f c s = fold f (map snd (lru_keys c)) s"

section \<open>Operations and their answers\<close>

datatype ('k, 'v) lru_op =
  Op_Insert 'k 'v | Op_TryGet 'k | Op_Get 'k | Op_Remove 'k | Op_Contains 'k | Op_Size | Op_Clear

datatype 'v lru_answer = Done | Answer bool | Value 'v | Missing | Thrown lru_error | Size_Is nat

fun lru_run :: "('k, 'v) lru_op \<Rightarrow> ('k, 'v) lru_cache \<Rightarrow> ('v lru_answer \<times> ('k, 'v) lru_cache) option" where
  "lru_run (Op_Insert k v) c = map_option (Pair Done) (lru_insert k v c)"
| "lru_run (Op_TryGet k) c = map_option (map_prod (case_option Missing Value) id) (tryGet k c)"
| "lru_run (Op_Get k) c = map_option (map_prod (case_sum Thrown Value) id) (lru_get k c)"
| "lru_run (Op_Remove k) c = map_option (map_prod Answer id) (lru_remove k c)"
| "lru_run (Op_Contains k) c = Some (Answer (lru_contains k c), c)"
| "lru_run Op_Size c = Some (Size_Is (lru_size c), c)"
| "lru_run Op_Clear c = Some (Done, lru_clear c)"

fun lru_run_all :: "('k, 'v) lru_op list \<Rightarrow> ('k, 'v) lru_cache \<Rightarrow> ('v lru_answer list \<times> ('k, 'v) lru_cache) option" where
  "lru_run_all [] c = Some ([], c)"
| "lru_run_all (op # ops) c =
     Option.bind (lru_run op c) (\<lambda>(a, c1). map_option (map_prod ((#) a) id) (lru_run_all ops c1))"

section \<open>The specification\<close>

definition touch :: "'k \<Rightarrow> 'v \<Rightarrow> ('k \<times> 'v) list \<Rightarrow> ('k \<times> 'v) list" where
  "touch k v xs = (k, v) # AList.delete k xs"

definition spec_prune :: "nat \<Rightarrow> nat \<Rightarrow> ('k \<times> 'v) list \<Rightarrow> ('k \<times> 'v) list" where
  "spec_prune m e xs = (if m = 0 \<or> length xs < (m + e) mod 2 ^ 64 then xs else take m xs)"

fun lru_spec :: "nat \<Rightarrow> nat \<Rightarrow> ('k, 'v) lru_op \<Rightarrow> ('k \<times> 'v) list \<Rightarrow> 'v lru_answer \<times> ('k \<times> 'v) list" where
  "lru_spec m e (Op_Insert k v) xs =
     (Done, if map_of xs k = None then spec_prune m e ((k, v) # xs) else touch k v xs)"
| "lru_spec m e (Op_TryGet k) xs = (case map_of xs k of None \<Rightarrow> (Missing, xs) | Some v \<Rightarrow> (Value v, touch k v xs))"
| "lru_spec m e (Op_Get k) xs = (case map_of xs k of None \<Rightarrow> (Thrown KeyNotFound, xs) | Some v \<Rightarrow> (Value v, touch k v xs))"
| "lru_spec m e (Op_Remove k) xs = (Answer (map_of xs k \<noteq> None), AList.delete k xs)"
| "lru_spec m e (Op_Contains k) xs = (Answer (map_of xs k \<noteq> None), xs)"
| "lru_spec m e Op_Size xs = (Size_Is (length xs), xs)"
| "lru_spec m e Op_Clear xs = (Done, [])"

fun lru_spec_all :: "nat \<Rightarrow> nat \<Rightarrow> ('k, 'v) lru_op list \<Rightarrow> ('k \<times> 'v) list \<Rightarrow> 'v lru_answer list \<times> ('k \<times> 'v) list" where
  "lru_spec_all m e [] xs = ([], xs)"
| "lru_spec_all m e (op # ops) xs =
     (let (a, ys) = lru_spec m e op xs; (as, zs) = lru_spec_all m e ops ys in (a # as, zs))"

section \<open>The invariant\<close>

text \<open>Addresses are distinct and were handed out, keys are distinct, and the index has exactly the
  keys of the list, each with the address of its node.\<close>

definition lru_wf :: "(nat \<times> 'k \<times> 'v) list \<Rightarrow> ('k \<times> nat) list \<Rightarrow> nat \<Rightarrow> bool" where
  "lru_wf ks ix fresh \<longleftrightarrow> distinct (map fst ks) \<and> distinct (map (fst \<circ> snd) ks) \<and> distinct (map fst ix) \<and>
     (\<forall>p \<in> fst ` set ks. p < fresh) \<and> set ix = (\<lambda>(p, k, v). (k, p)) ` set ks"

definition lru_ok :: "('k, 'v) lru_cache \<Rightarrow> bool" where
  "lru_ok c \<longleftrightarrow> lru_wf (lru_keys c) (lru_index c) (lru_fresh c)"

definition lru_abs :: "('k, 'v) lru_cache \<Rightarrow> ('k \<times> 'v) list" where
  "lru_abs c = map snd (lru_keys c)"

lemma lru_okD:
  assumes "lru_ok c"
  shows "distinct (map fst (lru_keys c))" "distinct (map (fst \<circ> snd) (lru_keys c))" "distinct (map fst (lru_index c))"
    "\<And>p kv. (p, kv) \<in> set (lru_keys c) \<Longrightarrow> p < lru_fresh c"
    "set (lru_index c) = (\<lambda>(p, k, v). (k, p)) ` set (lru_keys c)"
  using assms by (auto simp: lru_ok_def lru_wf_def image_iff)

lemma new_ok [simp]: "lru_ok (newCache m e)" "lru_abs (newCache m e) = []"
  by (simp_all add: lru_ok_def lru_wf_def newCache_def lru_abs_def)

lemma same_node:
  assumes "lru_ok c" and "(p, k, v) \<in> set (lru_keys c)" and "(q, k', v') \<in> set (lru_keys c)"
  shows "q = p \<longleftrightarrow> k' = k"
proof
  assume "q = p"
  then have "(k', v') = (k, v)"
    using eq_key_imp_eq_value[OF lru_okD(1)[OF assms(1)], of p "(k', v')" "(k, v)"] assms(2,3) by simp
  then show "k' = k" by simp
next
  assume "k' = k"
  have "inj_on (fst \<circ> snd) (set (lru_keys c))" using lru_okD(2)[OF assms(1)] by (simp only: distinct_map)
  from inj_onD[OF this _ assms(3,2)] have "(q, k', v') = (p, k, v)" using \<open>k' = k\<close> by simp
  then show "q = p" by simp
qed

lemma abs_distinct: "lru_ok c \<Longrightarrow> distinct (map fst (lru_abs c))"
  using lru_okD(2) by (simp add: lru_abs_def)

lemma index_Some:
  assumes "lru_ok c" and "map_of (lru_index c) k = Some p"
  obtains v where "(p, k, v) \<in> set (lru_keys c)" "map_of (lru_keys c) p = Some (k, v)" "map_of (lru_abs c) k = Some v"
proof -
  have "(k, p) \<in> set (lru_index c)" using assms(2) by (rule map_of_SomeD)
  then obtain v where v: "(p, k, v) \<in> set (lru_keys c)" using lru_okD(5)[OF assms(1)] by auto
  then have "(k, v) \<in> set (lru_abs c)" unfolding lru_abs_def set_map by (rule rev_image_eqI) simp
  from that[OF v map_of_is_SomeI[OF lru_okD(1)[OF assms(1)] v] map_of_is_SomeI[OF abs_distinct[OF assms(1)] this]]
  show thesis .
qed

lemma index_None:
  assumes "lru_ok c" and "map_of (lru_index c) k = None"
  shows "map_of (lru_abs c) k = None" "k \<notin> fst ` snd ` set (lru_keys c)"
proof -
  have "k \<notin> fst ` set (lru_index c)" using assms(2) by (simp add: map_of_eq_None_iff)
  then show *: "k \<notin> fst ` snd ` set (lru_keys c)" using lru_okD(5)[OF assms(1)] by (auto simp: image_iff)
  then show "map_of (lru_abs c) k = None" by (simp add: map_of_eq_None_iff lru_abs_def image_image)
qed

lemma contains_abs:
  assumes "lru_ok c"
  shows "lru_contains k c \<longleftrightarrow> map_of (lru_abs c) k \<noteq> None"
proof (cases "map_of (lru_index c) k")
  case None
  then show ?thesis using index_None(1)[OF assms None] by (simp add: lru_contains_def)
next
  case (Some p)
  obtain v where "map_of (lru_abs c) k = Some v" by (rule index_Some[OF assms Some])
  then show ?thesis using Some by (simp add: lru_contains_def)
qed

lemma size_abs:
  assumes "lru_ok c"
  shows "lru_size c = length (lru_abs c)"
proof -
  have "map snd (map (\<lambda>(p, k, v). (k, p)) (lru_keys c)) = map fst (lru_keys c)" by auto
  then have "distinct (map snd (map (\<lambda>(p, k, v). (k, p)) (lru_keys c)))" using lru_okD(1)[OF assms] by (simp only:)
  then have "distinct (map (\<lambda>(p, k, v). (k, p)) (lru_keys c))" by (simp only: distinct_map)
  then have "card (set (map (\<lambda>(p, k, v). (k, p)) (lru_keys c))) = length (lru_keys c)"
    by (simp only: distinct_card length_map)
  then have "card (set (lru_index c)) = length (lru_keys c)" using lru_okD(5)[OF assms] by simp
  moreover have "distinct (lru_index c)" using lru_okD(3)[OF assms] by (simp add: distinct_map)
  ultimately show ?thesis by (simp add: lru_size_def lru_abs_def distinct_card)
qed

lemma delete_gone [simp]: "k \<notin> fst ` set (AList.delete k xs)"
  by (simp add: fst_set_AList_delete)

lemma same_node_filter:
  assumes "lru_ok c" and "(p, k, v) \<in> set (lru_keys c)"
  shows "{x \<in> set (lru_keys c). p \<noteq> fst x} = {x \<in> set (lru_keys c). k \<noteq> fst (snd x)}"
    and "filter (\<lambda>x. p \<noteq> fst x) (lru_keys c) = filter (\<lambda>x. k \<noteq> fst (snd x)) (lru_keys c)"
proof -
  have *: "p \<noteq> fst x \<longleftrightarrow> k \<noteq> fst (snd x)" if "x \<in> set (lru_keys c)" for x
    using same_node[OF assms, of "fst x" "fst (snd x)" "snd (snd x)"] that by auto
  then show "{x \<in> set (lru_keys c). p \<noteq> fst x} = {x \<in> set (lru_keys c). k \<noteq> fst (snd x)}" by blast
  show "filter (\<lambda>x. p \<noteq> fst x) (lru_keys c) = filter (\<lambda>x. k \<noteq> fst (snd x)) (lru_keys c)"
    using * by (intro filter_cong) simp_all
qed

lemma delete_filter: "AList.delete k xs = filter (\<lambda>x. k \<noteq> fst x) xs"
  unfolding AList.delete_eq by (rule filter_cong) auto

lemma delete_abs:
  assumes "lru_ok c" and "(p, k, v) \<in> set (lru_keys c)"
  shows "map snd (AList.delete p (lru_keys c)) = AList.delete k (lru_abs c)"
  unfolding delete_filter same_node_filter(2)[OF assms] lru_abs_def filter_map comp_def ..

lemma delete_ok:
  assumes "lru_ok c" and "(p, k, v) \<in> set (lru_keys c)"
  shows "lru_ok (c\<lparr>lru_keys := AList.delete p (lru_keys c), lru_index := AList.delete k (lru_index c)\<rparr>)"
proof -
  note ok = lru_okD[OF assms(1)]
  have "set (AList.delete k (lru_index c)) = (\<lambda>(p, k, v). (k, p)) ` set (AList.delete p (lru_keys c))"
    unfolding delete_filter set_filter ok(5) same_node_filter(1)[OF assms] by force
  moreover have "distinct (map (fst \<circ> snd) (AList.delete p (lru_keys c)))"
    using ok(2) by (simp add: AList.delete_eq distinct_map_filter)
  moreover have "distinct (map fst (AList.delete p (lru_keys c)))" "distinct (map fst (AList.delete k (lru_index c)))"
    using ok(1,3) by (simp_all add: distinct_delete)
  moreover have "\<forall>q \<in> fst ` set (AList.delete p (lru_keys c)). q < lru_fresh c"
    using ok(4) by (auto simp: delete_filter)
  ultimately show ?thesis by (simp add: lru_ok_def lru_wf_def)
qed

lemma splice_ok:
  assumes "lru_ok c" and "(p, k, v) \<in> set (lru_keys c)"
  shows "\<exists>c'. splice_front p c = Some ((k, v), c') \<and> lru_ok c' \<and> lru_abs c' = touch k v (lru_abs c) \<and>
    maxSize c' = maxSize c \<and> elasticity c' = elasticity c"
proof -
  note ok = lru_okD[OF assms(1)]
  let ?ks = "(p, k, v) # AList.delete p (lru_keys c)"
  have m: "map_of (lru_keys c) p = Some (k, v)" using ok(1) assms(2) by simp
  have set: "set ?ks = set (lru_keys c)"
    using same_node[OF assms] assms(2) eq_key_imp_eq_value[OF ok(1)] by (auto simp: AList.delete_eq)
  have "distinct (map fst ?ks)" using ok(1) by (simp add: AList.delete_eq distinct_map_filter) (auto)
  moreover have "distinct (map (fst \<circ> snd) ?ks)"
    using ok(2) by (auto simp: AList.delete_eq distinct_map_filter dest: same_node[OF assms])
  ultimately have "lru_ok (c\<lparr>lru_keys := ?ks\<rparr>)"
    using assms(1) set by (simp add: lru_ok_def lru_wf_def del: set_simps)
  moreover have "lru_abs (c\<lparr>lru_keys := ?ks\<rparr>) = touch k v (lru_abs c)"
    using delete_abs[OF assms] by (simp add: lru_abs_def touch_def)
  ultimately show ?thesis using m by (simp add: splice_front_def)
qed

lemma set_value_ok:
  assumes "lru_ok c" and "(p, k, w) \<in> set (lru_keys c)"
  shows "lru_ok (set_value p v c)" "(p, k, v) \<in> set (lru_keys (set_value p v c))"
    "AList.delete k (lru_abs (set_value p v c)) = AList.delete k (lru_abs c)"
    "maxSize (set_value p v c) = maxSize c" "elasticity (set_value p v c) = elasticity c"
proof -
  let ?f = "\<lambda>(q, k, w). (q, k, if q = p then v else w)"
  have keys: "map fst (map ?f ks) = map fst ks" "map (fst \<circ> snd) (map ?f ks) = map (fst \<circ> snd) ks" for ks :: "(nat \<times> 'a \<times> 'b) list"
    by (simp_all add: comp_def case_prod_beta)
  have pairs: "(\<lambda>(p, k, v). (k, p)) ` set (map ?f ks) = (\<lambda>(p, k, v). (k, p)) ` set ks" for ks :: "(nat \<times> 'a \<times> 'b) list"
    by (simp add: image_image case_prod_beta)
  have fresh: "fst ` set (map ?f ks) = fst ` set ks" for ks :: "(nat \<times> 'a \<times> 'b) list"
    using arg_cong[OF keys(1)[of ks], of set] by (simp only: set_map)
  have sel: "lru_keys (set_value p v c) = map ?f (lru_keys c)" "lru_index (set_value p v c) = lru_index c"
    "lru_fresh (set_value p v c) = lru_fresh c" by (simp_all add: set_value_def)
  show "lru_ok (set_value p v c)"
    using assms(1) unfolding lru_ok_def lru_wf_def sel keys pairs fresh .
  show "(p, k, v) \<in> set (lru_keys (set_value p v c))" using assms(2) by (force simp: set_value_def)
  have "filter (\<lambda>x. k \<noteq> fst (snd x)) (map ?f (lru_keys c)) = filter (\<lambda>x. k \<noteq> fst (snd x)) (lru_keys c)"
  proof -
    have "filter (\<lambda>x. k \<noteq> fst (snd x)) (map ?f (lru_keys c)) = map ?f (filter (\<lambda>x. k \<noteq> fst (snd x)) (lru_keys c))"
      by (simp add: filter_map comp_def case_prod_beta)
    also have "\<dots> = filter (\<lambda>x. k \<noteq> fst (snd x)) (lru_keys c)"
      unfolding same_node_filter(2)[OF assms, symmetric] by (rule map_idI) auto
    finally show ?thesis .
  qed
  then show "AList.delete k (lru_abs (set_value p v c)) = AList.delete k (lru_abs c)"
    unfolding delete_filter lru_abs_def sel filter_map[of _ snd] comp_def by (rule arg_cong)
qed (simp_all add: set_value_def)

lemma butlast_ok:
  assumes "lru_ok c" and "lru_keys c \<noteq> []"
  shows "lru_ok (c\<lparr>lru_index := AList.delete (fst (snd (last (lru_keys c)))) (lru_index c), lru_keys := butlast (lru_keys c)\<rparr>)"
proof -
  obtain p k v where l: "last (lru_keys c) = (p, k, v)" by (metis prod.collapse)
  then have ks: "lru_keys c = butlast (lru_keys c) @ [(p, k, v)]" using assms(2) append_butlast_last_id by metis
  have "distinct (map fst (butlast (lru_keys c) @ [(p, k, v)]))" using lru_okD(1)[OF assms(1)] ks by metis
  then have p: "\<forall>x \<in> set (butlast (lru_keys c)). p \<noteq> fst x" by auto
  have "AList.delete p (butlast (lru_keys c) @ [(p, k, v)]) = butlast (lru_keys c)"
    unfolding delete_filter using p by simp
  then have "AList.delete p (lru_keys c) = butlast (lru_keys c)" using ks by metis
  moreover have "(p, k, v) \<in> set (lru_keys c)" using l assms(2) last_in_set by metis
  ultimately show ?thesis using delete_ok[OF assms(1), of p k v] l by (simp add: lru_ok_def)
qed

lemma prune_loop_ok:
  assumes "lru_ok c"
  shows "\<exists>j c'. prune_loop c n = Some (j, c') \<and> lru_ok c' \<and> lru_abs c' = take (maxSize c) (lru_abs c) \<and>
    maxSize c' = maxSize c \<and> elasticity c' = elasticity c"
  using assms
proof (induction c n rule: prune_loop.induct)
  case (1 c n)
  let ?c = "c\<lparr>lru_index := AList.delete (fst (snd (last (lru_keys c)))) (lru_index c), lru_keys := butlast (lru_keys c)\<rparr>"
  show ?case
  proof (cases "lru_size c > maxSize c")
    case True
    then have ne: "lru_keys c \<noteq> []" using size_abs[OF 1(2)] by (auto simp: lru_abs_def)
    have "take (maxSize c) (lru_abs ?c) = take (maxSize c) (lru_abs c)"
      using True size_abs[OF 1(2)] by (simp add: lru_abs_def map_butlast take_butlast)
    then show ?thesis using 1(1)[OF True ne butlast_ok[OF 1(2) ne]] True ne
      by (subst prune_loop.simps) simp
  next
    case False
    then show ?thesis using 1(2) size_abs[OF 1(2)] by (subst prune_loop.simps) simp
  qed
qed


lemma update_new: "k \<notin> fst ` set xs \<Longrightarrow> AList.update k v xs = xs @ [(k, v)]"
  by (induction xs) auto

lemma insert_ok:
  assumes "lru_ok c"
  shows "\<exists>c'. lru_insert k v c = Some c' \<and> lru_ok c' \<and>
    lru_abs c' = snd (lru_spec (maxSize c) (elasticity c) (Op_Insert k v) (lru_abs c)) \<and>
    maxSize c' = maxSize c \<and> elasticity c' = elasticity c"
proof (cases "map_of (lru_index c) k")
  case None
  note ok = lru_okD[OF assms] and new = index_None[OF assms None]
  let ?c = "c\<lparr>lru_keys := (lru_fresh c, k, v) # lru_keys c,
      lru_index := AList.update k (lru_fresh c) (lru_index c), lru_fresh := lru_fresh c + 1\<rparr>"
  have "AList.update k (lru_fresh c) (lru_index c) = lru_index c @ [(k, lru_fresh c)]"
    using None by (intro update_new) (simp add: map_of_eq_None_iff)
  then have "set (AList.update k (lru_fresh c) (lru_index c)) = (\<lambda>(p, k, v). (k, p)) ` set ((lru_fresh c, k, v) # lru_keys c)"
    using ok(5) by simp
  moreover have "distinct (map fst (AList.update k (lru_fresh c) (lru_index c)))" using ok(3) by (rule distinct_update)
  moreover have "lru_fresh c \<notin> fst ` set (lru_keys c)" using ok(4) by fastforce
  moreover have "k \<notin> (fst \<circ> snd) ` set (lru_keys c)" using new(2) by (simp add: image_comp)
  moreover have "\<forall>p \<in> fst ` set (lru_keys c). p < lru_fresh c + 1" using ok(4) by (auto intro: less_SucI)
  ultimately have c: "lru_ok ?c" using ok(1,2) by (simp add: lru_ok_def lru_wf_def)
  have abs: "lru_abs ?c = (k, v) # lru_abs c" by (simp add: lru_abs_def)
  have "\<exists>j c'. prune ?c = Some (j, c') \<and> lru_ok c' \<and> lru_abs c' = spec_prune (maxSize c) (elasticity c) (lru_abs ?c) \<and>
      maxSize c' = maxSize c \<and> elasticity c' = elasticity c"
  proof (cases "maxSize ?c = 0 \<or> lru_size ?c < getMaxAllowedSize ?c")
    case True
    then have "prune ?c = Some (0, ?c)" unfolding prune_def by (rule if_P)
    moreover have "spec_prune (maxSize c) (elasticity c) (lru_abs ?c) = lru_abs ?c"
      unfolding spec_prune_def by (rule if_P) (use True size_abs[OF c] in \<open>simp add: getMaxAllowedSize_def\<close>)
    ultimately show ?thesis using c by simp
  next
    case False
    then have "prune ?c = prune_loop ?c 0" unfolding prune_def by (rule if_not_P)
    moreover have "spec_prune (maxSize c) (elasticity c) (lru_abs ?c) = take (maxSize c) (lru_abs ?c)"
      unfolding spec_prune_def by (rule if_not_P) (use False size_abs[OF c] in \<open>simp add: getMaxAllowedSize_def\<close>)
    ultimately show ?thesis using prune_loop_ok[OF c, of 0] by simp
  qed
  then show ?thesis using None new(1) abs by (auto simp: lru_insert_def)
next
  case (Some p)
  obtain w where w: "(p, k, w) \<in> set (lru_keys c)" "map_of (lru_abs c) k = Some w" by (rule index_Some[OF assms Some])
  note sv = set_value_ok[OF assms w(1), of v]
  show ?thesis using splice_ok[OF sv(1,2)] Some w(2) sv(3-5) by (auto simp: lru_insert_def touch_def)
qed

lemma lookup_ok:
  assumes "lru_ok c" and "map_of (lru_index c) k = Some p"
  shows "\<exists>v c'. splice_front p c = Some ((k, v), c') \<and> lru_ok c' \<and> map_of (lru_abs c) k = Some v \<and>
    lru_abs c' = touch k v (lru_abs c) \<and> maxSize c' = maxSize c \<and> elasticity c' = elasticity c"
proof -
  obtain v where v: "(p, k, v) \<in> set (lru_keys c)" "map_of (lru_abs c) k = Some v" by (rule index_Some[OF assms])
  then show ?thesis using splice_ok[OF assms(1) v(1)] by blast
qed

lemma remove_ok:
  assumes "lru_ok c"
  shows "\<exists>c'. lru_remove k c = Some (map_of (lru_abs c) k \<noteq> None, c') \<and> lru_ok c' \<and>
    lru_abs c' = AList.delete k (lru_abs c) \<and> maxSize c' = maxSize c \<and> elasticity c' = elasticity c"
proof (cases "map_of (lru_index c) k")
  case None
  have "k \<notin> fst ` set (lru_abs c)" using index_None(1)[OF assms None] by (simp add: map_of_eq_None_iff)
  then have "AList.delete k (lru_abs c) = lru_abs c" unfolding delete_filter by (intro filter_True) auto
  then show ?thesis using None index_None(1)[OF assms None] assms by (simp add: lru_remove_def)
next
  case (Some p)
  obtain v where v: "(p, k, v) \<in> set (lru_keys c)" "map_of (lru_keys c) p = Some (k, v)" "map_of (lru_abs c) k = Some v"
    by (rule index_Some[OF assms Some])
  have "lru_abs (c\<lparr>lru_keys := AList.delete p (lru_keys c), lru_index := AList.delete k (lru_index c)\<rparr>) = AList.delete k (lru_abs c)"
    using delete_abs[OF assms v(1)] by (simp add: lru_abs_def)
  then show ?thesis using Some v delete_ok[OF assms v(1)] by (simp add: lru_remove_def)
qed

lemma lru_run_ok:
  assumes "lru_ok c"
  shows "\<exists>a c'. lru_run op c = Some (a, c') \<and> lru_ok c' \<and>
    (a, lru_abs c') = lru_spec (maxSize c) (elasticity c) op (lru_abs c) \<and>
    maxSize c' = maxSize c \<and> elasticity c' = elasticity c"
proof (cases op)
  case (Op_Insert k v)
  then show ?thesis using insert_ok[OF assms, of k v] by auto
next
  case (Op_TryGet k)
  then show ?thesis using index_None(1)[OF assms, of k] lookup_ok[OF assms, of k] assms
    by (cases "map_of (lru_index c) k") (auto simp: tryGet_def)
next
  case (Op_Get k)
  then show ?thesis using index_None(1)[OF assms, of k] lookup_ok[OF assms, of k] assms
    by (cases "map_of (lru_index c) k") (auto simp: lru_get_def)
next
  case (Op_Remove k)
  then show ?thesis using remove_ok[OF assms, of k] by auto
next
  case (Op_Contains k)
  then show ?thesis using contains_abs[OF assms, of k] assms by simp
next
  case Op_Size
  then show ?thesis using size_abs[OF assms] assms by simp
next
  case Op_Clear
  then show ?thesis using assms by (simp add: lru_clear_def lru_ok_def lru_wf_def lru_abs_def)
qed

lemma lru_run_all_ok:
  assumes "lru_ok c"
  shows "\<exists>as c'. lru_run_all ops c = Some (as, c') \<and> lru_ok c' \<and>
    (as, lru_abs c') = lru_spec_all (maxSize c) (elasticity c) ops (lru_abs c)"
  using assms
proof (induction ops arbitrary: c)
  case (Cons op ops)
  obtain a c1 where 1: "lru_run op c = Some (a, c1)" "lru_ok c1"
    "lru_spec (maxSize c) (elasticity c) op (lru_abs c) = (a, lru_abs c1)" "maxSize c1 = maxSize c" "elasticity c1 = elasticity c"
    using lru_run_ok[OF Cons.prems, of op] by metis
  obtain as c2 where "lru_run_all ops c1 = Some (as, c2)" "lru_ok c2"
    "lru_spec_all (maxSize c) (elasticity c) ops (lru_abs c1) = (as, lru_abs c2)"
    using Cons.IH[OF 1(2)] 1(4,5) by metis
  then show ?case using 1 by simp
qed simp

section \<open>How much and what the list holds\<close>

definition lru_limit :: "nat \<Rightarrow> nat \<Rightarrow> nat" where
  "lru_limit m e = (if e = 0 then m else m + e - 1)"

lemma spec_bound:
  assumes "0 < m" and "m + e < 2 ^ 64" and "length xs \<le> lru_limit m e" and "distinct (map fst xs)"
  shows "length (snd (lru_spec m e op xs)) \<le> lru_limit m e \<and> distinct (map fst (snd (lru_spec m e op xs)))"
proof -
  have del: "length (AList.delete k xs) \<le> length xs" "distinct (map fst (AList.delete k xs))" "k \<notin> fst ` set (AList.delete k xs)" for k
    using assms(4) by (simp_all add: length_delete_le distinct_delete)
  have less: "length (AList.delete k xs) < length xs" if "map_of xs k = Some v" for k v
    unfolding delete_filter using map_of_SomeD[OF that] by (intro length_filter_less[of "(k, v)"]) simp_all
  have touch: "length (touch k v xs) \<le> lru_limit m e" "distinct (map fst (touch k v xs))" if "map_of xs k = Some w" for k v w
    using less[OF that] del[of k] assms(3) by (simp_all add: touch_def)
  have prune: "length (spec_prune m e ((k, v) # xs)) \<le> lru_limit m e \<and> distinct (map fst (spec_prune m e ((k, v) # xs)))"
    if "map_of xs k = None" for k v
  proof -
    have "distinct (map fst ((k, v) # xs))" using that assms(4) by (simp add: map_of_eq_None_iff)
    then have "distinct (map fst (take m ((k, v) # xs)))" unfolding take_map[symmetric] by (rule distinct_take)
    with \<open>distinct (map fst ((k, v) # xs))\<close> show ?thesis using assms(1,2) by (auto simp: spec_prune_def lru_limit_def)
  qed
  show ?thesis
  proof (cases op)
    case (Op_Insert k v)
    then show ?thesis using prune[of k v] touch[of k _ v] by (cases "map_of xs k") simp_all
  next
    case (Op_TryGet k)
    then show ?thesis using touch[of k] assms(3,4) by (simp split: option.splits)
  next
    case (Op_Get k)
    then show ?thesis using touch[of k] assms(3,4) by (simp split: option.splits)
  next
    case (Op_Remove k)
    then show ?thesis using del[of k] assms(3) by simp
  qed (use assms(3,4) in simp_all)
qed

lemma spec_all_bound:
  assumes "0 < m" and "m + e < 2 ^ 64" and "length xs \<le> lru_limit m e" and "distinct (map fst xs)"
  shows "length (snd (lru_spec_all m e ops xs)) \<le> lru_limit m e \<and> distinct (map fst (snd (lru_spec_all m e ops xs)))"
  using assms(3,4)
proof (induction ops arbitrary: xs)
  case (Cons op ops)
  show ?case using Cons.IH[of "snd (lru_spec m e op xs)"] spec_bound[OF assms(1,2) Cons.prems, of op]
    by (simp add: case_prod_beta Let_def)
qed simp

text \<open>The operations that use a key without removing anything.\<close>

fun lru_uses :: "('k, 'v) lru_op \<Rightarrow> 'k set" where
  "lru_uses (Op_Insert k v) = {k}"
| "lru_uses (Op_TryGet k) = {k}"
| "lru_uses (Op_Get k) = {k}"
| "lru_uses _ = {}"

fun lru_keeps :: "('k, 'v) lru_op \<Rightarrow> bool" where
  "lru_keeps (Op_Remove k) \<longleftrightarrow> False"
| "lru_keeps Op_Clear \<longleftrightarrow> False"
| "lru_keeps _ \<longleftrightarrow> True"

text \<open>Everything in front of \<open>k\<close> has been used since \<open>k\<close>.\<close>

definition recent :: "'k \<Rightarrow> 'v \<Rightarrow> 'k set \<Rightarrow> ('k \<times> 'v) list \<Rightarrow> bool" where
  "recent k v used xs \<longleftrightarrow> (\<exists>as bs. xs = as @ (k, v) # bs \<and> fst ` set as \<subseteq> used \<and> distinct (map fst xs))"

lemma recent_lookup: "recent k v used xs \<Longrightarrow> map_of xs k = Some v"
  by (auto simp: recent_def map_add_def map_of_eq_None_iff[THEN iffD2])

lemma recent_touch:
  assumes "recent k v used xs" and "k' \<noteq> k"
  shows "recent k v (insert k' used) (touch k' w xs)"
proof -
  obtain as bs where xs: "xs = as @ (k, v) # bs" "fst ` set as \<subseteq> used" "distinct (map fst xs)"
    using assms(1) unfolding recent_def by blast
  have "touch k' w xs = ((k', w) # AList.delete k' as) @ (k, v) # AList.delete k' bs"
    using assms(2) xs(1) by (simp add: touch_def delete_filter)
  moreover have "distinct (map fst (touch k' w xs))" using xs(3) by (simp add: touch_def distinct_delete)
  moreover have "fst ` set ((k', w) # AList.delete k' as) \<subseteq> insert k' used" using xs(2) by (auto simp: delete_filter)
  ultimately show ?thesis unfolding recent_def by blast
qed

lemma recent_prune:
  assumes "recent k v used ys" and "finite used" and "card used < m"
  shows "recent k v used (spec_prune m e ys)"
proof -
  obtain as bs where ys: "ys = as @ (k, v) # bs" "fst ` set as \<subseteq> used" "distinct (map fst ys)"
    using assms(1) unfolding recent_def by blast
  have "length as = card (fst ` set as)" using ys(1,3) by (simp add: distinct_map_fst_card)
  also have "\<dots> \<le> card used" by (rule card_mono[OF assms(2) ys(2)])
  finally have n: "length as < m" using assms(3) by simp
  then have "take m ys = as @ (k, v) # take (m - length as - 1) bs" using ys(1) by (simp add: take_Cons')
  moreover have "distinct (map fst (take m ys))" unfolding take_map[symmetric] using ys(3) by (rule distinct_take)
  ultimately have "recent k v used (take m ys)" unfolding recent_def using ys(2) by blast
  then show ?thesis using assms(1) by (simp add: spec_prune_def)
qed

lemma recent_mono: "recent k v used xs \<Longrightarrow> used \<subseteq> used' \<Longrightarrow> recent k v used' xs"
  unfolding recent_def by blast

lemma recent_run:
  assumes "recent k v used xs" and "lru_keeps op" and "k \<notin> lru_uses op" and "finite used" and "card (used \<union> lru_uses op) < m"
  shows "recent k v (used \<union> lru_uses op) (snd (lru_spec m e op xs))"
proof -
  have touch: "recent k v (insert k' used) (touch k' w xs)" if "k \<noteq> k'" for k' w
    using that by (intro recent_touch[OF assms(1)]) simp
  have keep: "recent k v (insert k' used) xs" for k' by (rule recent_mono[OF assms(1)]) blast
  show ?thesis
  proof (cases op)
    case (Op_Insert k' w)
    have "recent k v (insert k' used) ((k', w) # xs)" if "map_of xs k' = None"
    proof -
      obtain as bs where xs: "xs = as @ (k, v) # bs" "fst ` set as \<subseteq> used" "distinct (map fst xs)"
        using assms(1) unfolding recent_def by blast
      have "(k', w) # xs = ((k', w) # as) @ (k, v) # bs" using xs(1) by simp
      moreover have "fst ` set ((k', w) # as) \<subseteq> insert k' used" using xs(2) by auto
      moreover have "distinct (map fst ((k', w) # xs))" using that xs(3) by (simp add: map_of_eq_None_iff)
      ultimately show ?thesis unfolding recent_def by blast
    qed
    then have "recent k v (insert k' used) (spec_prune m e ((k', w) # xs))" if "map_of xs k' = None"
      using that assms(4,5) Op_Insert by (intro recent_prune) simp_all
    then show ?thesis using Op_Insert touch[of k' w] assms(3) by simp
  next
    case (Op_TryGet k')
    then show ?thesis using touch[of k'] keep[of k'] assms(3) by (simp split: option.splits)
  next
    case (Op_Get k')
    then show ?thesis using touch[of k'] keep[of k'] assms(3) by (simp split: option.splits)
  qed (use assms(1,2) in simp_all)
qed

lemma recent_run_all:
  assumes "recent k v used xs" and "\<forall>op \<in> set ops. lru_keeps op \<and> k \<notin> lru_uses op" and "finite used"
    and "card (used \<union> \<Union> (lru_uses ` set ops)) < m"
  shows "recent k v (used \<union> \<Union> (lru_uses ` set ops)) (snd (lru_spec_all m e ops xs))"
  using assms
proof (induction ops arbitrary: used xs)
  case (Cons op ops)
  have fin: "finite (lru_uses op)" for op :: "('a, 'b) lru_op" by (cases op) simp_all
  have "card (used \<union> lru_uses op) \<le> card (used \<union> \<Union> (lru_uses ` set (op # ops)))"
    using Cons.prems(3) fin by (intro card_mono) auto
  then have "recent k v (used \<union> lru_uses op) (snd (lru_spec m e op xs))"
    using Cons.prems by (intro recent_run) simp_all
  from Cons.IH[OF this] show ?case using Cons.prems fin[of op] by (simp add: case_prod_beta Let_def Un_assoc)
qed simp

lemma recent_insert:
  assumes "0 < m" and "distinct (map fst xs)"
  shows "recent k v {} (snd (lru_spec m e (Op_Insert k v) xs))"
proof (cases "map_of xs k")
  case None
  have "recent k v {} ((k, v) # xs)" unfolding recent_def
    using None assms(2) by (intro exI[of _ "[]"] exI[of _ xs]) (simp add: map_of_eq_None_iff)
  then show ?thesis using None assms(1) by (simp add: recent_prune)
next
  case (Some w)
  have "recent k v {} (touch k v xs)" unfolding recent_def touch_def
    using assms(2) by (intro exI[of _ "[]"] exI[of _ "AList.delete k xs"]) (simp add: distinct_delete)
  then show ?thesis using Some by simp
qed

lemma spec_distinct: "distinct (map fst xs) \<Longrightarrow> distinct (map fst (snd (lru_spec m e op xs)))"
proof (cases op)
  case (Op_Insert k v)
  assume d: "distinct (map fst xs)"
  have "distinct (map fst (take m ((k, v) # xs)))" if "map_of xs k = None"
    unfolding take_map[symmetric] using that d by (intro distinct_take) (simp add: map_of_eq_None_iff)
  then show ?thesis using d Op_Insert by (simp add: spec_prune_def touch_def distinct_delete map_of_eq_None_iff)
qed (auto simp: touch_def distinct_delete split: option.splits)

lemma spec_all_distinct: "distinct (map fst xs) \<Longrightarrow> distinct (map fst (snd (lru_spec_all m e ops xs)))"
  by (induction ops arbitrary: xs) (simp_all add: case_prod_beta Let_def spec_distinct)

lemma spec_all_append:
  "lru_spec_all m e (ops1 @ ops2) xs =
     (let (as, ys) = lru_spec_all m e ops1 xs; (bs, zs) = lru_spec_all m e ops2 ys in (as @ bs, zs))"
  by (induction ops1 arbitrary: xs) (simp_all add: case_prod_beta Let_def)

section \<open>Properties\<close>

text \<open>C31. Any sequence of operations on a new cache runs without touching an invalid iterator, gives the answers of
  the list in order of use, and the index and the list agree in the end. In
  particular the eviction loop ends and \<open>get\<close> throws exactly for keys that are not there.\<close>

theorem lru_cache_refines:
  "\<exists>as c. lru_run_all ops (newCache m e) = Some (as, c) \<and> lru_ok c \<and> (as, lru_abs c) = lru_spec_all m e ops []"
  using lru_run_all_ok[OF new_ok(1)[of m e], of ops] by (simp add: newCache_def lru_abs_def)

text \<open>A cache with a limit \<open>m > 0\<close> and elasticity \<open>e\<close> never holds more than \<open>m + e - 1\<close> keys after an operation, or \<open>m\<close> when
  \<open>e\<close> is zero: the size \<open>m + e\<close> up to which the comment lets it grow is never kept.\<close>

theorem lru_cache_bounded:
  assumes "0 < m" and "m + e < 2 ^ 64"
  shows "\<exists>as c. lru_run_all ops (newCache m e) = Some (as, c) \<and> lru_size c \<le> (if e = 0 then m else m + e - 1)"
proof -
  obtain as c where c: "lru_run_all ops (newCache m e) = Some (as, c)" "lru_ok c" "(as, lru_abs c) = lru_spec_all m e ops []"
    using lru_run_all_ok[OF new_ok(1)[of m e], of ops] by (auto simp: newCache_def lru_abs_def)
  then have "lru_abs c = snd (lru_spec_all m e ops [])" by (metis snd_conv)
  then show ?thesis using spec_all_bound[OF assms, of "[]" ops] c(1) size_abs[OF c(2)] by (simp add: lru_limit_def)
qed

theorem lru_cache_bounded_witness:
  "\<exists>as c. lru_run_all [Op_Insert (1 :: nat) ''a'', Op_Insert 2 ''b''] (newCache 1 1) = Some (as, c) \<and> lru_size c \<le> 1"
  using lru_cache_bounded[of 1 1 "[Op_Insert (1 :: nat) ''a'', Op_Insert 2 ''b'']"] by simp

text \<open>Hits. After \<open>insert(k, v)\<close> a lookup of \<open>k\<close> still returns \<open>v\<close> as long as fewer than \<open>m\<close> other keys have been inserted
  or looked up in between and nothing has been removed, whatever happened before: eviction only
  takes keys that were not used recently.\<close>

theorem lru_cache_hit:
  assumes "\<forall>op \<in> set ops2. lru_keeps op \<and> k \<notin> lru_uses op" and "card (\<Union> (lru_uses ` set ops2)) < m"
  shows "\<exists>as c. lru_run_all (ops1 @ Op_Insert k v # ops2 @ [Op_TryGet k]) (newCache m e) = Some (as, c) \<and>
    as \<noteq> [] \<and> last as = Value v"
proof -
  let ?ops = "ops1 @ Op_Insert k v # ops2 @ [Op_TryGet k]"
  let ?ys = "snd (lru_spec_all m e ops1 [])"
  let ?zs = "snd (lru_spec_all m e ops2 (snd (lru_spec m e (Op_Insert k v) ?ys)))"
  have "recent k v {} (snd (lru_spec m e (Op_Insert k v) ?ys))"
    using assms(2) spec_all_distinct[of "[]"] by (intro recent_insert) simp_all
  from recent_run_all[OF this, of ops2 m e] have z: "map_of ?zs k = Some v"
    using assms by (intro recent_lookup) auto
  have "last (fst (lru_spec_all m e ?ops [])) = Value v" "fst (lru_spec_all m e ?ops []) \<noteq> []"
    using z by (simp_all add: spec_all_append case_prod_beta Let_def)
  moreover obtain as c where "lru_run_all ?ops (newCache m e) = Some (as, c)" "(as, lru_abs c) = lru_spec_all m e ?ops []"
    using lru_run_all_ok[OF new_ok(1)[of m e], of ?ops] by (auto simp: newCache_def lru_abs_def)
  ultimately show ?thesis by (metis fst_conv)
qed

theorem lru_cache_hit_witness:
  "\<exists>as c. lru_run_all [Op_Insert (7 :: nat) ''x'', Op_Insert 1 ''a'', Op_Insert 2 ''b'', Op_TryGet 7, Op_TryGet 1] (newCache 3 0) =
     Some (as, c) \<and> as \<noteq> [] \<and> last as = Value ''a''"
  using lru_cache_hit[of "[Op_Insert 2 ''b'', Op_TryGet 7]" "1 :: nat" 3 "[Op_Insert 7 ''x'']" "''a''" 0] by simp

end
