(* ===== verification/Block_Generator.thy ===== *)
theory Block_Generator
  imports Block_Storage Merkle_Tree Transaction_Model Lru_Cache
begin

text \<open>
  \<open>BlockGenerator\<close> and \<open>BlockGeneratorImpl\<close> (\<open>block_generator.cpp\<close>, \<open>block_generator_impl.cpp\<close>) with the
  exchange of signatures in \<open>block_broadcaster.cpp\<close>.

  The transaction manager fills the queue and calls \<open>generateBlock\<close>; a pool of threads makes the bodies in any order; one thread
  adds the headers in the order of the epochs and appends the blocks to the storage. The step relation \<open>bg_step\<close> has
  one step for each of these, so that every interleaving is a run. \<open>submitted\<close> records the queues in the order of the
  calls; it is not part of the program.

  Serializing a transaction and signing are given by a record of functions; \<open>rsaDecryptOf ip root signature\<close> is the check with the public key of a server. The storage is given by the operations of the
  locale \<open>block_storage\<close>. The lemmas of the locale show that whatever the interleaving the stored chain is the one a
  sequential program would build, and that none of the checks fails within a run.
\<close>

section \<open>The queue of transactions\<close>

text \<open>A \<open>std::priority_queue\<close> that compares transaction ids, kept here in the order in which it is emptied: the largest id
  first.\<close>

type_synonym tx_priority_queue = "transaction list"

fun pq_push :: "transaction \<Rightarrow> tx_priority_queue \<Rightarrow> tx_priority_queue" where
  "pq_push t [] = [t]"
| "pq_push t (x # xs) = (if tx_tid x < tx_tid t then t # x # xs else x # pq_push t xs)"

section \<open>The body of a block\<close>

record bg_tools =
  serializeToString :: "transaction \<Rightarrow> string option"
  serializeResultToString :: "transaction \<Rightarrow> string option"
  rsaEncrypt :: "string \<Rightarrow> string option"
  rsaDecryptOf :: "string \<Rightarrow> string \<Rightarrow> string \<Rightarrow> bool"

fun result_code :: "transaction_result \<Rightarrow> nat" where
  "result_code COMMIT = 0"
| "result_code PENDING = 1"
| "result_code ABORT = 2"
| "result_code ABORT_NO_RETRY = 3"

fun partial_loop :: "bg_tools \<Rightarrow> tx_priority_queue \<Rightarrow> string list \<Rightarrow> string list option" where
  "partial_loop T [] ds = Some ds"
| "partial_loop T (t # q) ds = Option.bind (serializeResultToString T t) (\<lambda>d. partial_loop T q (ds @ [d]))"

fun body_loop :: "bg_tools \<Rightarrow> tx_priority_queue \<Rightarrow> string list \<Rightarrow> string \<Rightarrow> (string list \<times> string) option" where
  "body_loop T [] ds meta = Some (ds, meta)"
| "body_loop T (t # q) ds meta =
     Option.bind (serializeToString T t)
       (\<lambda>d. body_loop T q (ds @ [d]) (meta @ [char_of (result_code (transactionResult t))]))"

text \<open>One leaf of the Merkle tree: the digest variable keeps its old value when hashing fails, which the code does
  not check.\<close>

definition mt_leaf :: "string \<Rightarrow> string \<times> sha256_context \<times> merkle_tree \<Rightarrow> (string \<times> sha256_context \<times> merkle_tree) option" where
  "mt_leaf d = (\<lambda>(digest, ctx, mt).
     let (ok, h, ctx1) = helper_hash d ctx; digest1 = if ok then h else digest in
     if length digest1 < HASH_LENGTH then None
     else case mt_add mt (bytes_of (take HASH_LENGTH digest1)) of
         Some (MT_SUCCESS, mt1) \<Rightarrow> Some (digest1, ctx1, mt1)
       | _ \<Rightarrow> None)"

definition block_root :: "string list \<Rightarrow> string option" where
  "block_root ds =
     Option.bind (fold_opt mt_leaf ds ([], newSHA256Helper, mt_create)) (\<lambda>(digest, ctx, mt). map_option string_of (mt_get_root mt))"

definition block_body :: "bg_tools \<Rightarrow> tx_priority_queue \<Rightarrow> block option" where
  "block_body T q =
     Option.bind (body_loop T q [] []) (\<lambda>(ds, meta).
     Option.bind (block_root ds) (\<lambda>merkleRoot.
     Option.bind (rsaEncrypt T merkleRoot) (\<lambda>signature.
       Some (newBlock\<lparr>blk_data := ds, blk_metadata := [meta, merkleRoot, signature]\<rparr>))))"

section \<open>State and operations\<close>

record 's block_generator =
  bg_storage :: 's
  pendingTransactionQueue :: tx_priority_queue
  currentBlockEpoch :: epoch_size_t
  body_tasks :: "(epoch_size_t \<times> tx_priority_queue) list"
  blockBuffer :: "epoch_size_t \<Rightarrow> block option"
  partialBlockBuffer :: "epoch_size_t \<Rightarrow> block option"
  partialEpoch :: epoch_size_t
  previousDataHash :: string
  header_epoch :: epoch_size_t
  verifyBuffer :: "block list"
  blockCache :: "(epoch_size_t, block) lru_cache"
  submitted :: "tx_priority_queue list"

definition newBlockGenerator :: "('s \<Rightarrow> epoch_size_t) \<Rightarrow> 's \<Rightarrow> 's block_generator" where
  "newBlockGenerator latest s =
     \<lparr>bg_storage = s, pendingTransactionQueue = [], currentBlockEpoch = latest s, body_tasks = [],
      blockBuffer = (\<lambda>_. None), partialBlockBuffer = (\<lambda>_. None), partialEpoch = 0, previousDataHash = [],
      header_epoch = latest s, verifyBuffer = [], blockCache = newCache 100 10, submitted = []\<rparr>"

definition addCommittedTransaction :: "transaction \<Rightarrow> 's block_generator \<Rightarrow> 's block_generator" where
  "addCommittedTransaction t g = g\<lparr>pendingTransactionQueue := pq_push t (pendingTransactionQueue g)\<rparr>"

definition getPendingTransactionQueue :: "'s block_generator \<Rightarrow> tx_priority_queue \<times> 's block_generator" where
  "getPendingTransactionQueue g = (pendingTransactionQueue g, g\<lparr>pendingTransactionQueue := []\<rparr>)"

definition generateBlock :: "'s block_generator \<Rightarrow> bool \<times> 's block_generator" where
  "generateBlock g =
     (let g1 = g\<lparr>currentBlockEpoch := currentBlockEpoch g + 1\<rparr>;
          (transactions, g2) = getPendingTransactionQueue g1
      in (True, g2\<lparr>body_tasks := body_tasks g2 @ [(currentBlockEpoch g2, transactions)],
                   submitted := submitted g2 @ [transactions]\<rparr>))"

definition early_response :: "bg_tools \<Rightarrow> epoch_size_t \<Rightarrow> tx_priority_queue \<Rightarrow> 's block_generator \<Rightarrow> 's block_generator option" where
  "early_response T epoch txnQueue g =
     map_option (\<lambda>ds.
       let partialBlock = newBlock\<lparr>blk_data := ds, blk_header := (blk_header newBlock)\<lparr>blk_number := epoch\<rparr>\<rparr>;
           buf = (partialBlockBuffer g)(epoch \<mapsto> partialBlock)
       in g\<lparr>partialBlockBuffer := (if epoch > 100 then buf(epoch - 100 := None) else buf), partialEpoch := epoch\<rparr>)
     (partial_loop T txnQueue [])"

definition generateBlockBody :: "bg_tools \<Rightarrow> epoch_size_t \<Rightarrow> tx_priority_queue \<Rightarrow> 's block_generator \<Rightarrow> (block \<times> 's block_generator) option" where
  "generateBlockBody T epoch txnQueue g =
     Option.bind (early_response T epoch txnQueue g) (\<lambda>g1. map_option (\<lambda>b. (b, g1)) (block_body T txnQueue))"

text \<open>The task that \<open>generateBlock\<close> gives to the pool.\<close>

definition body_task :: "bg_tools \<Rightarrow> epoch_size_t \<Rightarrow> tx_priority_queue \<Rightarrow> 's block_generator \<Rightarrow> 's block_generator option" where
  "body_task T epoch txs g =
     map_option (\<lambda>(b, g1). g1\<lparr>blockBuffer := (blockBuffer g1)(epoch \<mapsto> b)\<rparr>) (generateBlockBody T epoch txs g)"

text \<open>The hash of the header: \<open>None\<close> where the code returns false.\<close>

definition hash_parts :: "string list \<Rightarrow> string option" where
  "hash_parts parts =
     (let (ok, ctx) = append_all parts newSHA256Helper in
      if \<not> ok then None else let (ok2, h, ctx2) = helper_execute ctx in if ok2 then Some h else None)"

definition generateBlockHeader ::
    "(epoch_size_t \<Rightarrow> 's \<Rightarrow> block option option) \<Rightarrow> ('s \<Rightarrow> epoch_size_t) \<Rightarrow> block \<Rightarrow> 's block_generator \<Rightarrow>
     (bool \<times> block \<times> 's block_generator) option" where
  "generateBlockHeader load latest b g =
     (if length (blk_metadata b) < 2 then None
      else case hash_parts [blk_metadata b ! 0, blk_metadata b ! 1] of
          None \<Rightarrow> Some (False, b, g)
        | Some hashResult \<Rightarrow>
            let last_epoch = latest (bg_storage g);
                hdr = (blk_header b)\<lparr>data_hash := hashResult, blk_number := last_epoch + 1\<rparr>;
                done = (\<lambda>hdr. Some (True, b\<lparr>blk_header := hdr\<rparr>, g\<lparr>previousDataHash := hashResult\<rparr>))
            in if sint last_epoch > 0
               then case load last_epoch (bg_storage g) of
                   Some (Some previous) \<Rightarrow>
                     if data_hash (blk_header previous) \<noteq> previousDataHash g then None
                     else done (hdr\<lparr>previous_hash := previousDataHash g\<rparr>)
                 | _ \<Rightarrow> None
               else done hdr)"

text \<open>One iteration of \<open>run\<close>, once the body is there.\<close>

definition header_run ::
    "(block \<Rightarrow> 's \<Rightarrow> bool \<times> 's) \<Rightarrow> (epoch_size_t \<Rightarrow> 's \<Rightarrow> block option option) \<Rightarrow> ('s \<Rightarrow> epoch_size_t) \<Rightarrow>
     's block_generator \<Rightarrow> 's block_generator option" where
  "header_run appendB load latest g =
     (let cur = header_epoch g + 1 in
      Option.bind (blockBuffer g cur) (\<lambda>b.
      Option.bind (generateBlockHeader load latest b (g\<lparr>header_epoch := cur, blockBuffer := (blockBuffer g)(cur := None)\<rparr>))
        (\<lambda>(ok, b1, g1).
          if \<not> ok then None
          else let (ok2, s) = appendB b1 (bg_storage g1) in
            if \<not> ok2 then None
            else Some (g1\<lparr>bg_storage := s, verifyBuffer := verifyBuffer g1 @ [b1]\<rparr>))))"

section \<open>Reading blocks back\<close>

text \<open>\<open>rsaDecrypt root signature\<close> is the check of a signature with the key of a server; a failing check aborts.\<close>

definition signatureValidate :: "(string \<Rightarrow> string \<Rightarrow> bool) \<Rightarrow> block \<Rightarrow> string \<Rightarrow> bool \<Rightarrow> bool option" where
  "signatureValidate rsaDecrypt b signature skipVerify =
     (if length (blk_metadata b) < 2 then None
      else Option.bind
        (if skipVerify then Some (blk_metadata b ! 1)
         else Option.bind (block_root (blk_data b)) (\<lambda>root. if root \<noteq> blk_metadata b ! 1 then None else Some root))
        (\<lambda>root. if \<not> rsaDecrypt root signature then None else Some True))"

text \<open>\<open>ser_data\<close> serializes the list of transactions of a block; \<open>None\<close> in the result is an access beyond the
  metadata, which the code reads before it checks how many there are.\<close>

definition deserializeBlock ::
    "(epoch_size_t \<Rightarrow> 's \<Rightarrow> block option option) \<Rightarrow> (string list \<Rightarrow> string) \<Rightarrow> (string \<Rightarrow> string \<Rightarrow> bool) \<Rightarrow>
     epoch_size_t \<Rightarrow> bool \<Rightarrow> bool \<Rightarrow> 's \<Rightarrow> (bool \<times> block option) option" where
  "deserializeBlock load ser_data rsaDecrypt epoch verify validate s =
     Option.bind (load epoch s) (\<lambda>r.
       case r of
         None \<Rightarrow> Some (False, None)
       | Some b \<Rightarrow>
           if verify \<and> length (blk_metadata b) < 2 then None
           else if verify \<and> hash_parts [ser_data (blk_data b), blk_metadata b ! 0, blk_metadata b ! 1] \<noteq> Some (data_hash (blk_header b))
             then Some (False, Some b)
           else if verify \<and> length (blk_metadata b) < 3 then Some (False, Some b)
           else if validate
             then if length (blk_metadata b) < 3 then None
               else map_option (\<lambda>ok. (ok, Some b)) (signatureValidate rsaDecrypt b (blk_metadata b ! 2) True)
           else Some (True, Some b))"

definition getPartialConstructedLatestEpoch :: "'s block_generator \<Rightarrow> epoch_size_t" where
  "getPartialConstructedLatestEpoch g = partialEpoch g"

definition getPartialConstructedBlock :: "(block \<Rightarrow> string) \<Rightarrow> epoch_size_t \<Rightarrow> 's block_generator \<Rightarrow> string option" where
  "getPartialConstructedBlock ser blockNum g = map_option ser (partialBlockBuffer g blockNum)"

section \<open>Exchange of signatures\<close>

record signature_exchange =
  se_epoch :: epoch_size_t
  se_ip :: string
  se_signature :: string

text \<open>\<open>blockVerifier\<close> for one block, and the callback the generator registers: it waits until the block is stored, and looks it up in
  the cache first. \<open>keys ip\<close> is the check with the key of a server.\<close>

definition blockVerifier :: "string \<Rightarrow> block \<Rightarrow> signature_exchange option" where
  "blockVerifier localIP b =
     (if length (blk_metadata b) \<ge> 3
      then Some \<lparr>se_epoch = number_of b, se_ip = localIP, se_signature = blk_metadata b ! 2\<rparr> else None)"

definition cached_block ::
    "(epoch_size_t \<Rightarrow> 's \<Rightarrow> block option option) \<Rightarrow> epoch_size_t \<Rightarrow> 's block_generator \<Rightarrow> (block \<times> 's block_generator) option" where
  "cached_block load epoch g =
     Option.bind (tryGet epoch (blockCache g)) (\<lambda>(hit, cache).
       case hit of
         Some b \<Rightarrow> Some (b, g\<lparr>blockCache := cache\<rparr>)
       | None \<Rightarrow>
           Option.bind (load epoch (bg_storage g)) (\<lambda>r.
           Option.bind r (\<lambda>b.
             map_option (\<lambda>cache1. (b, g\<lparr>blockCache := cache1\<rparr>)) (lru_insert epoch b cache))))"

definition signatureVerifyCallback ::
    "(epoch_size_t \<Rightarrow> 's \<Rightarrow> block option option) \<Rightarrow> ('s \<Rightarrow> epoch_size_t) \<Rightarrow> (string \<Rightarrow> string \<Rightarrow> string \<Rightarrow> bool) \<Rightarrow>
     epoch_size_t \<Rightarrow> string \<Rightarrow> string \<Rightarrow> 's block_generator \<Rightarrow> (bool \<times> 's block_generator) option" where
  "signatureVerifyCallback load latest keys epoch ip signature g =
     (if latest (bg_storage g) < epoch then None
      else Option.bind (cached_block load epoch g) (\<lambda>(b, g1).
        map_option (\<lambda>ok. (ok, g1)) (signatureValidate (keys ip) b signature True)))"

definition validated_slots :: nat where
  "validated_slots = 10000"

definition getSignatureFromOtherServer ::
    "(epoch_size_t \<Rightarrow> 's \<Rightarrow> block option option) \<Rightarrow> ('s \<Rightarrow> epoch_size_t) \<Rightarrow> (string \<Rightarrow> string \<Rightarrow> string \<Rightarrow> bool) \<Rightarrow>
     signature_exchange \<Rightarrow> (nat \<Rightarrow> bool) \<times> 's block_generator \<Rightarrow> ((nat \<Rightarrow> bool) \<times> 's block_generator) option" where
  "getSignatureFromOtherServer load latest keys m = (\<lambda>(validatedBlockNumber, g).
     Option.bind (signatureVerifyCallback load latest keys (se_epoch m) (se_ip m) (se_signature m) g) (\<lambda>(ok, g1).
       if \<not> ok then None
       else if unat (se_epoch m) < validated_slots
         then Some (validatedBlockNumber(unat (se_epoch m) := True), g1)
         else None))"

section \<open>Steps\<close>

inductive bg_step ::
    "(block \<Rightarrow> 's \<Rightarrow> bool \<times> 's) \<Rightarrow> (epoch_size_t \<Rightarrow> 's \<Rightarrow> block option option) \<Rightarrow> ('s \<Rightarrow> epoch_size_t) \<Rightarrow> bg_tools \<Rightarrow>
     's block_generator \<Rightarrow> 's block_generator \<Rightarrow> bool"
  for appendB load latest T where
  bg_add: "bg_step appendB load latest T g (addCommittedTransaction t g)"
| bg_generate: "bg_step appendB load latest T g (snd (generateBlock g))"
| bg_body: "(e, q) \<in> set (body_tasks g) \<Longrightarrow> body_task T e q g = Some g' \<Longrightarrow>
    bg_step appendB load latest T g (g'\<lparr>body_tasks := remove1 (e, q) (body_tasks g')\<rparr>)"
| bg_header: "header_run appendB load latest g = Some g' \<Longrightarrow> bg_step appendB load latest T g g'"
| bg_verify: "signatureVerifyCallback load latest (rsaDecryptOf T) e ip sig g = Some (valid, g') \<Longrightarrow> bg_step appendB load latest T g g'"

section \<open>Hashes and roots\<close>

declare bytes_string [simp] length_string_of [simp]

definition sha_string :: "string \<Rightarrow> string" where
  "sha_string s = string_of (sha256_spec (bytes_of s))"

lemma sha_string_length [simp]: "length (sha_string s) = 32"
  by (simp add: sha_string_def sha256_spec_length)

lemma helper_hash_spec:
  assumes "sha_inv p r c" and "length d < 2 ^ 32"
  shows "\<exists>c'. helper_hash d c = (True, sha_string d, c') \<and> sha_inv [] [] c'"
proof -
  have m: "length (Message_Block c) = 64" using assms(1) by (simp add: sha_inv_def)
  have e: "fst (SHA256Reset c) = shaSuccess" by (simp add: SHA256Reset_def SHA224_256Reset_def)
  have "length (bytes_of d) < 2 ^ 32" "8 * (length ([] :: byte list) + length ([] :: byte list) + length (bytes_of d)) < 2 ^ 64"
    using assms(2) by simp_all
  from Input_inv[OF Reset_inv[OF m] this] obtain c1 p1 r1 where
    c1: "SHA256Input (snd (SHA256Reset c)) (bytes_of d) (of_nat (length (bytes_of d))) = (shaSuccess, c1)" "sha_inv p1 r1 c1"
    "p1 @ r1 = bytes_of d" by auto
  obtain c2 where "helper_execute c1 = (True, string_of (sha256_spec (p1 @ r1)), c2)" "sha_inv [] [] c2"
    by (rule helper_execute_spec[OF c1(2)])
  moreover have "helper_reset c = (True, snd (SHA256Reset c))" by (simp add: helper_reset_def e case_prod_beta)
  moreover have "helper_append d (snd (SHA256Reset c)) = (True, c1)" using c1(1) by (simp add: helper_append_def)
  ultimately show ?thesis using c1(3) by (simp add: helper_hash_def sha_string_def)
qed

lemma leaves_built:
  assumes "sha_inv p r ctx" and "tree_inv xs mt" and "\<forall>d \<in> set ds. length d < 2 ^ 32" and "length xs + length ds < MT_AL_MAX_ELEMS"
  shows "\<exists>dg ctx' mt'. fold_opt mt_leaf ds (digest, ctx, mt) = Some (dg, ctx', mt') \<and>
    tree_inv (xs @ map (\<lambda>d. sha256_spec (bytes_of d)) ds) mt'"
  using assms
proof (induction ds arbitrary: digest p r ctx xs mt)
  case (Cons d ds)
  obtain c1 where c1: "helper_hash d ctx = (True, sha_string d, c1)" "sha_inv [] [] c1"
    using helper_hash_spec[OF Cons.prems(1), of d] Cons.prems(3) by auto
  let ?h = "sha256_spec (bytes_of d)"
  have h: "length ?h = HASH_LENGTH" by (simp add: HASH_LENGTH_def sha256_spec_length)
  have "bytes_of (take HASH_LENGTH (sha_string d)) = ?h" using h by (simp add: sha_string_def)
  moreover obtain mt1 where "mt_add mt ?h = Some (MT_SUCCESS, mt1)" "tree_inv (xs @ [mt_init_hash ?h]) mt1"
    using mt_add_ok[OF Cons.prems(2), of ?h] h Cons.prems(4) by auto
  moreover have "mt_init_hash ?h = ?h" using h by (simp add: mt_init_hash_def)
  ultimately have "mt_leaf d (digest, ctx, mt) = Some (sha_string d, c1, mt1)" and inv: "tree_inv (xs @ [?h]) mt1"
    using c1(1) by (simp_all add: mt_leaf_def HASH_LENGTH_def)
  then show ?case using Cons.IH[OF c1(2) inv, of "sha_string d"] Cons.prems(3,4) by auto
qed auto

lemma block_root_spec:
  assumes "\<forall>d \<in> set ds. length d < 2 ^ 32" and "ds \<noteq> []" and "length ds \<le> 2 ^ 18"
  shows "block_root ds = Some (string_of (merkle_root (map (\<lambda>d. sha256_spec (bytes_of d)) ds)))"
proof -
  have "length ([] :: mt_hash_t list) + length ds < MT_AL_MAX_ELEMS" using assms(3) by (simp add: MT_AL_MAX_ELEMS_def)
  from leaves_built[OF new_helper_inv tree_inv_create assms(1) this, of "[]"] obtain dg ctx mt where
    "fold_opt mt_leaf ds ([], newSHA256Helper, mt_create) = Some (dg, ctx, mt)"
    "tree_inv (map (\<lambda>d. sha256_spec (bytes_of d)) ds) mt" by auto
  then show ?thesis using mt_get_root_spec[of "map (\<lambda>d. sha256_spec (bytes_of d)) ds" mt] assms(2,3)
    by (simp add: block_root_def)
qed

lemma block_root_empty: "block_root [] = None"
proof -
  have "\<not> hasNextLevelExceptRoot mt_create 0"
    by (simp add: hasNextLevelExceptRoot_def mt_create_def TREE_LEVELS_def mt_al_get_size_def mt_al_create_def)
  then have "root_level mt_create 0 = 0" by (simp add: root_level.simps[of mt_create 0])
  then show ?thesis
    by (simp add: block_root_def mt_get_root_def mt_create_def TREE_LEVELS_def mt_al_get_def mt_al_create_def)
qed

lemma hash_parts_spec:
  assumes "\<forall>s \<in> set parts. length s < 2 ^ 32" and "8 * length (concat parts) < 2 ^ 64"
  shows "hash_parts parts = Some (sha_string (concat parts))"
proof -
  have "8 * (length ([] :: byte list) + length ([] :: byte list) + length (concat parts)) < 2 ^ 64" using assms(2) by simp
  from append_all_inv[OF new_helper_inv assms(1) this] obtain ctx p r where
    ctx: "append_all parts newSHA256Helper = (True, ctx)" "sha_inv p r ctx" "p @ r = bytes_of (concat parts)" by auto
  obtain c where "helper_execute ctx = (True, string_of (sha256_spec (p @ r)), c)" by (rule helper_execute_spec[OF ctx(2)])
  then show ?thesis using ctx(1,3) by (simp add: hash_parts_def sha_string_def)
qed

section \<open>The sequential chain\<close>

definition sealed :: "string \<Rightarrow> epoch_size_t \<Rightarrow> block \<Rightarrow> block option" where
  "sealed prev n b =
     map_option (\<lambda>h. b\<lparr>blk_header := \<lparr>blk_number = n, previous_hash = prev, data_hash = h\<rparr>\<rparr>)
       (hash_parts [blk_metadata b ! 0, blk_metadata b ! 1])"

fun seq_chain :: "bg_tools \<Rightarrow> string \<Rightarrow> epoch_size_t \<Rightarrow> tx_priority_queue list \<Rightarrow> block list option" where
  "seq_chain T prev n [] = Some []"
| "seq_chain T prev n (q # qs) =
     Option.bind (block_body T q) (\<lambda>b0.
     Option.bind (sealed prev n b0) (\<lambda>b.
     map_option ((#) b) (seq_chain T (data_hash (blk_header b)) (n + 1) qs)))"

definition last_hash :: "string \<Rightarrow> block list \<Rightarrow> string" where
  "last_hash prev bs = (if bs = [] then prev else data_hash (blk_header (last bs)))"

lemma seq_chain_length: "seq_chain T prev n qs = Some bs \<Longrightarrow> length bs = length qs"
  by (induction qs arbitrary: prev n bs) (auto simp: Option.bind_eq_Some_conv)

lemma seq_chain_snoc:
  assumes "seq_chain T prev n qs = Some bs" and "block_body T q = Some b0" and "sealed (last_hash prev bs) (n + of_nat (length qs)) b0 = Some b"
  shows "seq_chain T prev n (qs @ [q]) = Some (bs @ [b])"
  using assms
proof (induction qs arbitrary: prev n bs)
  case Nil
  then show ?case by (simp add: last_hash_def)
next
  case (Cons q1 qs)
  then obtain b1 b2 bs1 where 1: "block_body T q1 = Some b1" "sealed prev n b1 = Some b2"
    "seq_chain T (data_hash (blk_header b2)) (n + 1) qs = Some bs1" "bs = b2 # bs1" by (auto simp: Option.bind_eq_Some_conv)
  have "last_hash prev bs = last_hash (data_hash (blk_header b2)) bs1" by (simp add: last_hash_def 1(4))
  then have "seq_chain T (data_hash (blk_header b2)) (n + 1) (qs @ [q]) = Some (bs1 @ [b])"
    using Cons.IH[OF 1(3) Cons.prems(2)] Cons.prems(3) by (simp add: ac_simps)
  then show ?case using 1 by simp
qed

lemma body_shape:
  assumes "block_body T q = Some b"
  shows "length (blk_metadata b) = 3" "previous_hash (blk_header b) = []"
  using assms by (auto simp: block_body_def newBlock_def Option.bind_eq_Some_conv)

lemma sealed_sel:
  assumes "sealed prev n b0 = Some b"
  shows "number_of b = n" "previous_hash (blk_header b) = prev" "blk_data b = blk_data b0" "blk_metadata b = blk_metadata b0"
    "hash_parts [blk_metadata b0 ! 0, blk_metadata b0 ! 1] = Some (data_hash (blk_header b))"
  using assms by (auto simp: sealed_def)

section \<open>Runs of the generator\<close>

definition job_of :: "'s block_generator \<Rightarrow> epoch_size_t \<Rightarrow> tx_priority_queue \<Rightarrow> bool" where
  "job_of g e q \<longleftrightarrow> (\<exists>i < length (submitted g). unat e = Suc i \<and> submitted g ! i = q)"

definition bodies_ok :: "bg_tools \<Rightarrow> 's block_generator \<Rightarrow> bool" where
  "bodies_ok T g \<longleftrightarrow> unat (currentBlockEpoch g) = length (submitted g) \<and> (\<forall>(e, q) \<in> set (body_tasks g). job_of g e q) \<and>
     (\<forall>e b. blockBuffer g e = Some b \<longrightarrow> (\<exists>q. job_of g e q \<and> block_body T q = Some b))"

lemma bodies_add: "bodies_ok T g \<Longrightarrow> bodies_ok T (addCommittedTransaction t g)"
  by (auto simp: bodies_ok_def job_of_def addCommittedTransaction_def)

lemma job_mono: "job_of g e q \<Longrightarrow> submitted g' = submitted g @ qs \<Longrightarrow> job_of g' e q"
  unfolding job_of_def by (metis length_append nth_append trans_less_add1)

lemma bodies_generate:
  assumes "bodies_ok T g" and "Suc (length (submitted g)) < 2 ^ 63"
  shows "bodies_ok T (snd (generateBlock g))"
proof -
  let ?g = "snd (generateBlock g)" and ?q = "pendingTransactionQueue g"
  have sel: "currentBlockEpoch ?g = currentBlockEpoch g + 1" "submitted ?g = submitted g @ [?q]" "blockBuffer ?g = blockBuffer g"
    "body_tasks ?g = body_tasks g @ [(currentBlockEpoch g + 1, ?q)]"
    by (simp_all add: generateBlock_def getPendingTransactionQueue_def)
  have c: "unat (currentBlockEpoch g + 1) = Suc (length (submitted g))"
    using assms next_word(6)[of "currentBlockEpoch g + 1" "currentBlockEpoch g"] by (simp add: bodies_ok_def)
  have new: "job_of ?g (currentBlockEpoch g + 1) ?q"
    unfolding job_of_def sel using c by (intro exI[of _ "length (submitted g)"]) simp
  have old: "job_of ?g e q" if "job_of g e q" for e q using job_mono[OF that sel(2)] .
  show ?thesis unfolding bodies_ok_def sel(1,3,4)
  proof (intro conjI)
    show "unat (currentBlockEpoch g + 1) = length (submitted ?g)" using c sel(2) by simp
    show "\<forall>(e, q) \<in> set (body_tasks g @ [(currentBlockEpoch g + 1, ?q)]). job_of ?g e q"
      using assms(1) new old by (auto simp: bodies_ok_def)
    show "\<forall>e b. blockBuffer g e = Some b \<longrightarrow> (\<exists>q. job_of ?g e q \<and> block_body T q = Some b)"
      using assms(1) old unfolding bodies_ok_def by blast
  qed
qed

lemma body_task_SomeD:
  assumes "body_task T e q g = Some g'"
  obtains b where "block_body T q = Some b" "blockBuffer g' = (blockBuffer g)(e \<mapsto> b)" "submitted g' = submitted g"
    "currentBlockEpoch g' = currentBlockEpoch g" "body_tasks g' = body_tasks g" "bg_storage g' = bg_storage g"
    "header_epoch g' = header_epoch g" "previousDataHash g' = previousDataHash g" "pendingTransactionQueue g' = pendingTransactionQueue g"
    "blockCache g' = blockCache g"
  using assms by (auto simp: body_task_def generateBlockBody_def early_response_def Let_def)

lemma bodies_body:
  assumes "bodies_ok T g" and "(e, q) \<in> set (body_tasks g)" and "body_task T e q g = Some g'"
  shows "bodies_ok T (g'\<lparr>body_tasks := remove1 (e, q) (body_tasks g')\<rparr>)"
proof -
  obtain b where b: "block_body T q = Some b" "blockBuffer g' = (blockBuffer g)(e \<mapsto> b)" "submitted g' = submitted g"
    "currentBlockEpoch g' = currentBlockEpoch g" "body_tasks g' = body_tasks g"
    by (rule body_task_SomeD[OF assms(3)])
  have j: "job_of (g'\<lparr>body_tasks := x\<rparr>) = job_of g" for x by (simp add: job_of_def b(3) fun_eq_iff)
  have q: "job_of g e q" using assms(1,2) by (auto simp: bodies_ok_def)
  show ?thesis unfolding bodies_ok_def j
  proof (intro conjI)
    show "\<forall>(e', q') \<in> set (body_tasks (g'\<lparr>body_tasks := remove1 (e, q) (body_tasks g')\<rparr>)). job_of g e' q'"
      using assms(1) b(5) by (auto simp: bodies_ok_def dest: notin_set_remove1[rotated] split: prod.splits)
    show "\<forall>e' b'. blockBuffer (g'\<lparr>body_tasks := remove1 (e, q) (body_tasks g')\<rparr>) e' = Some b' \<longrightarrow>
        (\<exists>q. job_of g e' q \<and> block_body T q = Some b')"
      using assms(1) b(1,2) q unfolding bodies_ok_def by auto
  qed (use assms(1) b in \<open>simp add: bodies_ok_def\<close>)
qed

lemma bodies_buffer:
  assumes "bodies_ok T g" and "blockBuffer g e = Some b"
  shows "\<exists>i. i < length (submitted g) \<and> unat e = Suc i \<and> block_body T (submitted g ! i) = Some b"
  using assms unfolding bodies_ok_def job_of_def by fast

text \<open>What the storage holds: the sequential chain of the first queues.\<close>

definition chain_stored ::
    "(epoch_size_t \<Rightarrow> 's \<Rightarrow> block option option) \<Rightarrow> ('s \<Rightarrow> epoch_size_t) \<Rightarrow> bg_tools \<Rightarrow> 's block_generator \<Rightarrow> block list \<Rightarrow> bool" where
  "chain_stored load latest T g bs \<longleftrightarrow>
     unat (latest (bg_storage g)) \<le> length (submitted g) \<and>
     seq_chain T [] 1 (take (unat (latest (bg_storage g))) (submitted g)) = Some bs \<and>
     (\<forall>i < unat (latest (bg_storage g)). load (of_nat (Suc i)) (bg_storage g) = Some (Some (bs ! i)))"

lemma header_run_keeps:
  assumes "header_run appendB load latest g = Some g'"
  shows "submitted g' = submitted g \<and> pendingTransactionQueue g' = pendingTransactionQueue g"
proof -
  have hd: "submitted g2 = submitted g1 \<and> pendingTransactionQueue g2 = pendingTransactionQueue g1"
    if "generateBlockHeader load latest b g1 = Some (r, b1, g2)" for b r b1 g1 g2
    using that by (auto simp: generateBlockHeader_def Let_def split: if_splits option.splits)
  show ?thesis using assms
    by (auto simp: header_run_def Let_def Option.bind_eq_Some_conv split: if_splits prod.splits dest!: hd)
qed

lemma callback_keeps:
  assumes "signatureVerifyCallback load latest keys e ip sig g = Some (valid, g')"
  obtains c where "g' = g\<lparr>blockCache := c\<rparr>"
  using assms by (auto simp: signatureVerifyCallback_def cached_block_def Option.bind_eq_Some_conv split: if_splits option.splits)

lemma submitted_grows:
  assumes "bg_step appendB load latest T g g'"
  shows "length (submitted g) \<le> length (submitted g')"
  using assms
proof cases
  case (bg_body e q g1)
  then show ?thesis by (auto elim!: body_task_SomeD)
next
  case bg_header
  then show ?thesis using header_run_keeps[OF bg_header] by simp
next
  case (bg_verify e ip sig valid)
  then obtain c where "g' = g\<lparr>blockCache := c\<rparr>" by (rule callback_keeps)
  then show ?thesis by simp
qed (simp_all add: addCommittedTransaction_def generateBlock_def getPendingTransactionQueue_def)

context block_storage
begin

definition chain_inv :: "bg_tools \<Rightarrow> 's block_generator \<Rightarrow> bool" where
  "chain_inv T g \<longleftrightarrow> ok (bg_storage g) \<and> header_epoch g = latest (bg_storage g) \<and>
     (\<exists>bs. chain_stored load latest T g bs \<and> previousDataHash g = last_hash [] bs)"

lemma chain_inv_cong:
  assumes "chain_inv T g" and "bg_storage g' = bg_storage g" and "header_epoch g' = header_epoch g"
    and "previousDataHash g' = previousDataHash g" and "submitted g' = submitted g @ qs"
  shows "chain_inv T g'"
  using assms by (auto simp: chain_inv_def chain_stored_def)

text \<open>The step of the header thread: it succeeds as soon as the body is there, and extends the chain.\<close>

lemma generateBlockHeader_ok:
  assumes "chain_stored load latest T g bs" and "previousDataHash g = last_hash [] bs" and "length (submitted g) < 2 ^ 63"
    and "block_body T q = Some b0" and "sealed (last_hash [] bs) (latest (bg_storage g) + 1) b0 = Some b"
  shows "generateBlockHeader load latest b0 g = Some (True, b, g\<lparr>previousDataHash := data_hash (blk_header b)\<rparr>)"
proof -
  let ?l = "latest (bg_storage g)"
  have len: "unat ?l \<le> length (submitted g)" "length bs = unat ?l"
    using assms(1) seq_chain_length[of T "[]" 1 "take (unat ?l) (submitted g)" bs] by (auto simp: chain_stored_def)
  have h: "hash_parts [blk_metadata b0 ! 0, blk_metadata b0 ! 1] = Some (data_hash (blk_header b))" using sealed_sel(5)[OF assms(5)] .
  have b: "b = b0\<lparr>blk_header := \<lparr>blk_number = ?l + 1, previous_hash = last_hash [] bs, data_hash = data_hash (blk_header b)\<rparr>\<rparr>"
    using assms(5) h by (auto simp: sealed_def)
  show ?thesis
  proof (cases "?l = 0")
    case True
    then have "last_hash [] bs = []" using len(2) by (simp add: last_hash_def)
    then show ?thesis using True h body_shape[OF assms(4)] b by (cases "blk_header b0") (simp add: generateBlockHeader_def)
  next
    case False
    then have l: "0 < unat ?l" by (simp add: unat_gt_0)
    then have u: "Suc (unat ?l - 1) = unat ?l" by simp
    have "\<forall>i < unat ?l. load (of_nat (Suc i)) (bg_storage g) = Some (Some (bs ! i))"
      using assms(1) unfolding chain_stored_def by (elim conjE)
    moreover have "unat ?l - 1 < unat ?l" using l by simp
    ultimately have "load (of_nat (Suc (unat ?l - 1))) (bg_storage g) = Some (Some (bs ! (unat ?l - 1)))" by blast
    then have p: "load ?l (bg_storage g) = Some (Some (bs ! (unat ?l - 1)))" unfolding u by simp
    have "bs \<noteq> []" using l len(2) by auto
    then have "bs ! (unat ?l - 1) = last bs" "bs \<noteq> []" using len(2) by (simp_all add: last_conv_nth)
    then have d: "data_hash (blk_header (bs ! (unat ?l - 1))) = previousDataHash g" using assms(2) by (simp add: last_hash_def)
    have "unat (?l - 1) + 1 < 2 ^ 63" using len(1) assms(3) l by (simp add: unat_minus_one[OF False])
    then have "sint ?l = int (unat ?l)" by (intro next_word(5)[of ?l "?l - 1"]) simp_all
    then have "sint ?l > 0" using l by (simp only: of_nat_0_less_iff)
    then show ?thesis using h body_shape[OF assms(4)] b p d assms(2)
      by (cases "blk_header b0") (simp add: generateBlockHeader_def)
  qed
qed

lemma header_run_ok:
  assumes "chain_inv T g" and "bodies_ok T g" and "length (submitted g) < 2 ^ 63"
    and "blockBuffer g (header_epoch g + 1) = Some b0" and "hash_parts [blk_metadata b0 ! 0, blk_metadata b0 ! 1] = Some h"
  shows "\<exists>g'. header_run append load latest g = Some g' \<and> chain_inv T g' \<and> bodies_ok T g' \<and> submitted g' = submitted g \<and>
    latest (bg_storage g') = latest (bg_storage g) + 1 \<and> latest (bg_storage g) < latest (bg_storage g') \<and> blockCache g' = blockCache g \<and>
    (\<forall>k. 0 < k \<longrightarrow> k \<le> latest (bg_storage g) \<longrightarrow> load k (bg_storage g') = load k (bg_storage g))"
proof -
  let ?l = "latest (bg_storage g)"
  let ?g = "g\<lparr>header_epoch := ?l + 1, blockBuffer := (blockBuffer g)(?l + 1 := None)\<rparr>"
  obtain bs where bs: "ok (bg_storage g)" "header_epoch g = ?l" "chain_stored load latest T g bs" "previousDataHash g = last_hash [] bs"
    using assms(1) unfolding chain_inv_def by (elim conjE exE)
  obtain i where i: "i < length (submitted g)" "unat (?l + 1) = Suc i" "block_body T (submitted g ! i) = Some b0"
    using bodies_buffer[OF assms(2,4)] unfolding bs(2) by (elim exE conjE)
  have lt: "unat ?l < 2 ^ 63" using bs(3) assms(3) by (simp add: chain_stored_def)
  have "unat (?l + 1) = unat ?l + 1" using lt by (simp add: unat_word_ariths)
  then have il: "i = unat ?l" "unat ?l + 1 < 2 ^ 63" using i(1,2) assms(3) by simp_all
  note n = next_word[of "?l + 1" ?l, OF refl il(2)]
  obtain b where b: "sealed (last_hash [] bs) (?l + 1) b0 = Some b" using assms(5) by (simp add: sealed_def)
  have num: "number_of b = ?l + 1" using sealed_sel(1)[OF b] .
  have hd: "generateBlockHeader load latest b0 ?g = Some (True, b, ?g\<lparr>previousDataHash := data_hash (blk_header b)\<rparr>)"
    using generateBlockHeader_ok[of T ?g bs "submitted g ! i" b0 b] bs(3,4) assms(3) i(3) b by (simp add: chain_stored_def)
  obtain s' where s': "append b (bg_storage g) = (True, s')" "ok s'" "latest s' = ?l + 1" "load (?l + 1) s' = Some (Some b)"
    "\<forall>k. 0 < k \<longrightarrow> k \<le> ?l \<longrightarrow> load k s' = load k (bg_storage g)"
    using append_next[OF bs(1) num il(2)] num by auto
  let ?g' = "?g\<lparr>previousDataHash := data_hash (blk_header b), bg_storage := s', verifyBuffer := verifyBuffer g @ [b]\<rparr>"
  have run: "header_run append load latest g = Some ?g'" using assms(4) bs(2) hd s'(1) by (simp add: header_run_def Let_def)
  have len: "length bs = unat ?l" "unat ?l \<le> length (submitted g)"
    using bs(3) seq_chain_length[of T "[]" 1 "take (unat ?l) (submitted g)" bs] by (auto simp: chain_stored_def)
  have "seq_chain T [] 1 (take (unat ?l) (submitted g) @ [submitted g ! i]) = Some (bs @ [b])"
    using bs(3) i(3) b len by (intro seq_chain_snoc[where ?b0.0 = b0]) (simp_all add: chain_stored_def ac_simps)
  then have seq: "seq_chain T [] 1 (take (unat (?l + 1)) (submitted g)) = Some (bs @ [b])"
    using i(1) il(1) n(6) by (simp add: take_Suc_conv_app_nth)
  have "load (of_nat (Suc j)) s' = Some (Some ((bs @ [b]) ! j))" if j: "j < unat (?l + 1)" for j
  proof (cases "j = unat ?l")
    case True
    then show ?thesis using s'(4) len(1) by (simp add: nth_append add.commute)
  next
    case False
    then have jl: "j < unat ?l" using j n(6) by simp
    then have u: "unat (of_nat (Suc j) :: epoch_size_t) = Suc j"
      using lt by (simp add: unat_of_nat take_bit_nat_eq_self del: of_nat_Suc)
    have "0 < (of_nat (Suc j) :: epoch_size_t)" "of_nat (Suc j) \<le> ?l" using u jl by (simp_all add: word_less_nat_alt word_le_nat_alt del: of_nat_Suc)
    then have "load (of_nat (Suc j)) s' = load (of_nat (Suc j)) (bg_storage g)" using s'(5) by blast
    then show ?thesis using bs(3) jl len(1) unfolding chain_stored_def by (simp add: nth_append)
  qed
  then have "chain_stored load latest T ?g' (bs @ [b])" using seq s'(3) i(1,2) by (simp add: chain_stored_def)
  moreover have "previousDataHash ?g' = last_hash [] (bs @ [b])" by (simp add: last_hash_def)
  moreover have "ok (bg_storage ?g')" "header_epoch ?g' = latest (bg_storage ?g')" using s'(2,3) by simp_all
  ultimately have "chain_inv T ?g'" unfolding chain_inv_def by blast
  moreover have "bodies_ok T ?g'"
  proof -
    have j: "job_of ?g' = job_of g" by (simp add: job_of_def fun_eq_iff)
    show ?thesis using assms(2) unfolding bodies_ok_def j by auto
  qed
  ultimately show ?thesis using run s'(3,5) n(3) by (intro exI[of _ ?g']) simp
qed

lemma header_run_SomeD:
  assumes "header_run append load latest g = Some g'" and "bodies_ok T g"
  obtains b0 h where "blockBuffer g (header_epoch g + 1) = Some b0" "hash_parts [blk_metadata b0 ! 0, blk_metadata b0 ! 1] = Some h"
proof -
  obtain b0 where b0: "blockBuffer g (header_epoch g + 1) = Some b0" using assms(1) by (auto simp: header_run_def Let_def Option.bind_eq_Some_conv)
  then have "length (blk_metadata b0) = 3" using assms(2) body_shape(1) unfolding bodies_ok_def by blast
  then have "hash_parts [blk_metadata b0 ! 0, blk_metadata b0 ! 1] \<noteq> None"
  proof (rule_tac notI)
    assume "hash_parts [blk_metadata b0 ! 0, blk_metadata b0 ! 1] = None"
    then have "header_run append load latest g = None"
      using b0 \<open>length (blk_metadata b0) = 3\<close> by (simp add: header_run_def generateBlockHeader_def)
    then show False using assms(1) by simp
  qed
  then show thesis using b0 that by blast
qed

lemma chain_step:
  assumes "bg_step append load latest T g g'" and "chain_inv T g" and "bodies_ok T g" and "length (submitted g') < 2 ^ 63"
  shows "chain_inv T g' \<and> bodies_ok T g' \<and> length (submitted g) < 2 ^ 63"
  using assms(1)
proof cases
  case (bg_add t)
  then show ?thesis using assms(2-4) bodies_add[OF assms(3)]
    by (auto simp: addCommittedTransaction_def intro: chain_inv_cong[where qs = "[]"])
next
  case bg_generate
  then have "submitted g' = submitted g @ [pendingTransactionQueue g]"
    by (simp add: generateBlock_def getPendingTransactionQueue_def)
  then show ?thesis using assms(2-4) bodies_generate[OF assms(3)] bg_generate
    by (auto simp: generateBlock_def getPendingTransactionQueue_def intro: chain_inv_cong[where qs = "[pendingTransactionQueue g]"])
next
  case (bg_body e q g1)
  obtain b where b: "submitted g1 = submitted g" "bg_storage g1 = bg_storage g" "header_epoch g1 = header_epoch g"
    "previousDataHash g1 = previousDataHash g" by (rule body_task_SomeD[OF bg_body(3)])
  have "chain_inv T g'" using b bg_body(1) by (intro chain_inv_cong[OF assms(2), where qs = "[]"]) simp_all
  then show ?thesis using bodies_body[OF assms(3) bg_body(2,3)] bg_body(1) assms(4) b(1) by simp
next
  case bg_header
  obtain b0 h where "blockBuffer g (header_epoch g + 1) = Some b0" "hash_parts [blk_metadata b0 ! 0, blk_metadata b0 ! 1] = Some h"
    by (rule header_run_SomeD[OF bg_header assms(3)])
  moreover have "submitted g' = submitted g"
    using header_run_keeps[OF bg_header] by simp
  ultimately show ?thesis using header_run_ok[OF assms(2,3)] assms(4) bg_header by auto
next
  case (bg_verify e ip sig valid)
  then obtain c where c: "g' = g\<lparr>blockCache := c\<rparr>" by (rule callback_keeps)
  have "chain_inv T g'" by (rule chain_inv_cong[OF assms(2), where qs = "[]"]) (simp_all add: c)
  moreover have "bodies_ok T g'" using assms(3) by (simp add: bodies_ok_def job_of_def c)
  ultimately show ?thesis using assms(4) c by simp
qed

lemma chain_reachable:
  assumes "(bg_step append load latest T)\<^sup>*\<^sup>* (newBlockGenerator latest s) g" and "ok s" and "latest s = 0"
    and "length (submitted g) < 2 ^ 63"
  shows "chain_inv T g \<and> bodies_ok T g"
  using assms(1,4)
proof (induction rule: rtranclp_induct)
  case base
  then show ?case using assms(2,3)
    by (simp add: chain_inv_def chain_stored_def bodies_ok_def newBlockGenerator_def last_hash_def)
next
  case (step g g')
  have "length (submitted g) \<le> length (submitted g')" by (rule submitted_grows[OF step.hyps(2)])
  then show ?case using step chain_step[OF step.hyps(2)] by simp
qed

end

end
