(* ===== verification/Block_Chain.thy ===== *)
theory Block_Chain
  imports Block_Generator Sample_Codec
begin

text \<open>
  The chain of blocks as the servers see it: the order in which a queue is emptied, the links of a chain, the cache of
  loaded blocks and the exchange of signatures, and the properties of the block generator over both storages.
\<close>

section \<open>The order of the queue\<close>

definition descending :: "tx_priority_queue \<Rightarrow> bool" where
  "descending q \<longleftrightarrow> sorted (map tx_tid (rev q))"

lemma descending_simps: "descending []" "descending (x # q) \<longleftrightarrow> (\<forall>y \<in> set q. tx_tid y \<le> tx_tid x) \<and> descending q"
  by (auto simp: descending_def sorted_append)

lemma set_pq_push [simp]: "set (pq_push t q) = insert t (set q)"
  by (induction q) auto

lemma mset_pq_push: "mset (pq_push t q) = add_mset t (mset q)"
  by (induction q) auto

lemma pq_push_descending: "descending q \<Longrightarrow> descending (pq_push t q)"
  by (induction q) (auto simp: descending_simps not_less)

lemma descending_unique:
  assumes "descending p" and "descending q" and "mset p = mset q" and "distinct (map tx_tid p)"
  shows "p = q"
proof -
  have "inj_on tx_tid (set (rev p))" using assms(4) by (simp add: distinct_map)
  then have "sort_key tx_tid (rev p) = rev q" "sort_key tx_tid (rev p) = rev p"
    using assms(1-3) sort_key_inj_key_eq[of "rev p" "rev q" tx_tid] sort_key_inj_key_eq[of "rev p" "rev p" tx_tid]
    by (simp_all add: descending_def)
  then show ?thesis by simp
qed

lemma queues_step:
  assumes "bg_step appendB load latest T g g'" and "descending (pendingTransactionQueue g)" and "\<forall>q \<in> set (submitted g). descending q"
  shows "descending (pendingTransactionQueue g') \<and> (\<forall>q \<in> set (submitted g'). descending q)"
  using assms(1)
proof cases
  case (bg_body e q g1)
  obtain b where "submitted g1 = submitted g" "pendingTransactionQueue g1 = pendingTransactionQueue g" by (rule body_task_SomeD[OF bg_body(3)])
  then show ?thesis using assms(2,3) bg_body(1) by simp
next
  case bg_header
  then show ?thesis using header_run_keeps[OF bg_header] assms(2,3) by simp
next
  case (bg_verify e ip sig valid)
  then obtain c where "g' = g\<lparr>blockCache := c\<rparr>" by (rule callback_keeps)
  then show ?thesis using assms(2,3) by simp
qed (use assms(2,3) in \<open>auto simp: addCommittedTransaction_def generateBlock_def getPendingTransactionQueue_def
    pq_push_descending descending_simps(1)\<close>)

lemma queues_reachable:
  assumes "(bg_step appendB load latest T)\<^sup>*\<^sup>* (newBlockGenerator latest s) g" and "q \<in> set (submitted g)"
  shows "descending q"
proof -
  have "descending (pendingTransactionQueue g) \<and> (\<forall>q \<in> set (submitted g). descending q)"
    using assms(1)
  proof (induction rule: rtranclp_induct)
    case base
    then show ?case by (simp add: newBlockGenerator_def descending_simps(1))
  next
    case (step g g')
    then show ?case using queues_step by blast
  qed
  then show ?thesis using assms(2) by blast
qed

section \<open>The links of a sequential chain\<close>

lemma seq_chain_nth:
  assumes "seq_chain T prev n qs = Some bs" and "i < length qs"
  shows "\<exists>b0. block_body T (qs ! i) = Some b0 \<and>
    sealed (if i = 0 then prev else data_hash (blk_header (bs ! (i - 1)))) (n + of_nat i) b0 = Some (bs ! i)"
  using assms
proof (induction qs arbitrary: prev n bs i)
  case (Cons q qs)
  obtain b0 b bs1 where 1: "block_body T q = Some b0" "sealed prev n b0 = Some b"
    "seq_chain T (data_hash (blk_header b)) (n + 1) qs = Some bs1" "bs = b # bs1"
    using Cons.prems(1) by (auto simp: Option.bind_eq_Some_conv)
  show ?case
  proof (cases i)
    case 0
    then show ?thesis using 1 by simp
  next
    case (Suc j)
    then have "j < length qs" using Cons.prems(2) by simp
    from Cons.IH[OF 1(3) this] show ?thesis using Suc 1(4) by (auto simp: ac_simps nth_Cons split: nat.splits if_splits)
  qed
qed simp

text \<open>Two chains from the same queues agree on everything but the signatures.\<close>

definition same_block :: "block \<Rightarrow> block \<Rightarrow> bool" where
  "same_block b c \<longleftrightarrow> blk_header b = blk_header c \<and> blk_data b = blk_data c \<and> take 2 (blk_metadata b) = take 2 (blk_metadata c)"

lemma body_loop_tools:
  assumes "serializeToString T = serializeToString U"
  shows "body_loop T q ds meta = body_loop U q ds meta"
  using assms by (induction q arbitrary: ds meta) simp_all

lemma same_sealed:
  assumes "serializeToString T = serializeToString U" and "block_body T q = Some b0" and "block_body U q = Some c0"
    and "sealed prev n b0 = Some b" and "sealed prev n c0 = Some c"
  shows "same_block b c"
proof -
  have "blk_data b0 = blk_data c0" "take 2 (blk_metadata b0) = take 2 (blk_metadata c0)"
    "blk_metadata b0 ! 0 = blk_metadata c0 ! 0" "blk_metadata b0 ! 1 = blk_metadata c0 ! 1"
    using assms(2,3) body_loop_tools[OF assms(1), of q "[]" "[]"] by (auto simp: block_body_def Option.bind_eq_Some_conv)
  then show ?thesis using assms(4,5) by (auto simp: sealed_def same_block_def)
qed

lemma same_chain:
  assumes "serializeToString T = serializeToString U" and "seq_chain T prev n qs = Some bs" and "seq_chain U prev n rs = Some cs"
    and "i < length qs" and "i < length rs" and "\<And>j. j \<le> i \<Longrightarrow> qs ! j = rs ! j"
  shows "same_block (bs ! i) (cs ! i)"
  using assms(4-6)
proof (induction i)
  case 0
  obtain b0 where b0: "block_body T (qs ! 0) = Some b0" "sealed prev n b0 = Some (bs ! 0)"
    using seq_chain_nth[OF assms(2) 0(1)] by auto
  obtain c0 where c0: "block_body U (rs ! 0) = Some c0" "sealed prev n c0 = Some (cs ! 0)"
    using seq_chain_nth[OF assms(3) 0(2)] by auto
  have q: "qs ! 0 = rs ! 0" using 0(3)[of 0] by simp
  show ?case by (rule same_sealed[OF assms(1) b0(1)[unfolded q] c0(1) b0(2) c0(2)])
next
  case (Suc i)
  then have same: "same_block (bs ! i) (cs ! i)" by simp
  obtain b0 where b0: "block_body T (qs ! Suc i) = Some b0" "sealed (data_hash (blk_header (bs ! i))) (n + of_nat (Suc i)) b0 = Some (bs ! Suc i)"
    using seq_chain_nth[OF assms(2) Suc.prems(1)] by auto
  obtain c0 where c0: "block_body U (rs ! Suc i) = Some c0" "sealed (data_hash (blk_header (cs ! i))) (n + of_nat (Suc i)) c0 = Some (cs ! Suc i)"
    using seq_chain_nth[OF assms(3) Suc.prems(2)] by auto
  have q: "qs ! Suc i = rs ! Suc i" using Suc.prems(3)[of "Suc i"] by simp
  have h: "data_hash (blk_header (bs ! i)) = data_hash (blk_header (cs ! i))" using same by (simp add: same_block_def)
  show ?case by (rule same_sealed[OF assms(1) b0(1)[unfolded q] c0(1) b0(2)[unfolded h] c0(2)])
qed

lemma same_stored:
  assumes "serializeToString T = serializeToString U" and "chain_stored load latest T g bs" and "chain_stored load' latest' U h cs"
    and "i < unat (latest (bg_storage g))" and "i < unat (latest' (bg_storage h))" and "\<And>j. j \<le> i \<Longrightarrow> submitted g ! j = submitted h ! j"
  shows "same_block (bs ! i) (cs ! i)"
proof -
  let ?qs = "take (unat (latest (bg_storage g))) (submitted g)" and ?rs = "take (unat (latest' (bg_storage h))) (submitted h)"
  have seq: "seq_chain T [] 1 ?qs = Some bs" "seq_chain U [] 1 ?rs = Some cs" using assms(2,3) by (simp_all add: chain_stored_def)
  have len: "i < length ?qs" "i < length ?rs" using assms(2-5) by (simp_all add: chain_stored_def)
  show ?thesis using assms(4-6) by (intro same_chain[OF assms(1) seq len]) simp
qed

section \<open>The cache of blocks\<close>

definition cache_ok :: "(epoch_size_t \<Rightarrow> 's \<Rightarrow> block option option) \<Rightarrow> ('s \<Rightarrow> epoch_size_t) \<Rightarrow> 's block_generator \<Rightarrow> bool" where
  "cache_ok load latest g \<longleftrightarrow> lru_ok (blockCache g) \<and>
     (\<forall>(k, b) \<in> set (lru_abs (blockCache g)). 0 < k \<longrightarrow> k \<le> latest (bg_storage g) \<and> load k (bg_storage g) = Some (Some b))"

lemma touch_set: "map_of xs k = Some v \<Longrightarrow> set (touch k v xs) \<subseteq> set xs"
  by (auto simp: touch_def AList.delete_eq dest: map_of_SomeD)

lemma insert_set: "set (snd (lru_spec m e (Op_Insert k v) xs)) \<subseteq> insert (k, v) (set xs)"
  by (auto simp: spec_prune_def touch_def AList.delete_eq dest: in_set_takeD)

lemma cached_block_keeps:
  assumes "cache_ok load latest g" and "cached_block load k g = Some (b, g')" and "k \<le> latest (bg_storage g)"
  shows "cache_ok load latest g' \<and> (0 < k \<longrightarrow> load k (bg_storage g) = Some (Some b))"
proof -
  let ?c = "blockCache g"
  have ok: "lru_ok ?c" and all: "\<forall>(k, b) \<in> set (lru_abs ?c). 0 < k \<longrightarrow> k \<le> latest (bg_storage g) \<and> load k (bg_storage g) = Some (Some b)"
    using assms(1) by (simp_all add: cache_ok_def)
  show ?thesis
  proof (cases "map_of (lru_index ?c) k")
    case None
    obtain c where c: "lru_insert k b ?c = Some c" "lru_ok c"
      "lru_abs c = snd (lru_spec (maxSize ?c) (elasticity ?c) (Op_Insert k b) (lru_abs ?c))"
      using insert_ok[OF ok] by blast
    then have g': "load k (bg_storage g) = Some (Some b)" "g' = g\<lparr>blockCache := c\<rparr>"
      using assms(2) None by (auto simp: cached_block_def tryGet_def Option.bind_eq_Some_conv)
    have "set (lru_abs c) \<subseteq> insert (k, b) (set (lru_abs ?c))" unfolding c(3) by (rule insert_set)
    then show ?thesis using all c(2) g' assms(3) by (auto simp: cache_ok_def)
  next
    case (Some p)
    obtain v c where c: "splice_front p ?c = Some ((k, v), c)" "lru_ok c" "map_of (lru_abs ?c) k = Some v"
      "lru_abs c = touch k v (lru_abs ?c)" using lookup_ok[OF ok Some] by blast
    then have g': "b = v" "g' = g\<lparr>blockCache := c\<rparr>" using assms(2) Some by (simp_all add: cached_block_def tryGet_def)
    have "set (lru_abs c) \<subseteq> set (lru_abs ?c)" unfolding c(4) by (rule touch_set[OF c(3)])
    then show ?thesis using all c(2) g' map_of_SomeD[OF c(3)] by (auto simp: cache_ok_def)
  qed
qed

lemma cached_block_ok:
  assumes "cache_ok load latest g" and "0 < k" and "k \<le> latest (bg_storage g)" and "load k (bg_storage g) = Some (Some b)"
  shows "\<exists>c. cached_block load k g = Some (b, g\<lparr>blockCache := c\<rparr>) \<and> cache_ok load latest (g\<lparr>blockCache := c\<rparr>)"
proof -
  have ok: "lru_ok (blockCache g)" using assms(1) by (simp add: cache_ok_def)
  obtain b1 c where c: "cached_block load k g = Some (b1, g\<lparr>blockCache := c\<rparr>)"
    using insert_ok[OF ok, of k b] lookup_ok[OF ok, of k] assms(4)
    by (cases "map_of (lru_index (blockCache g)) k") (auto simp: cached_block_def tryGet_def)
  then show ?thesis using cached_block_keeps[OF assms(1) c assms(3)] assms(2,4) by auto
qed

lemma callback_exact:
  assumes "cache_ok load latest g" and "0 < k" and "k \<le> latest (bg_storage g)" and "load k (bg_storage g) = Some (Some b)"
    and "2 \<le> length (blk_metadata b)"
  shows "\<exists>c. cache_ok load latest (g\<lparr>blockCache := c\<rparr>) \<and> signatureVerifyCallback load latest keys k ip sig g =
    (if keys ip (blk_metadata b ! 1) sig then Some (True, g\<lparr>blockCache := c\<rparr>) else None)"
proof -
  obtain c where "cached_block load k g = Some (b, g\<lparr>blockCache := c\<rparr>)" "cache_ok load latest (g\<lparr>blockCache := c\<rparr>)"
    using cached_block_ok[OF assms(1-4)] by blast
  then show ?thesis using assms(3,5) by (intro exI[of _ c]) (simp add: signatureVerifyCallback_def signatureValidate_def not_less[symmetric])
qed

context block_storage
begin

text \<open>Every stored block of a reachable state has its three entries of metadata.\<close>

lemma stored_block:
  assumes "chain_inv T g" and "length (submitted g) < 2 ^ 63" and "0 < k" and "k \<le> latest (bg_storage g)"
  obtains bs b0 where "chain_stored load latest T g bs" "load k (bg_storage g) = Some (Some (bs ! (unat k - 1)))"
    "unat k - 1 < unat (latest (bg_storage g))"
    "block_body T (submitted g ! (unat k - 1)) = Some b0" "length (blk_metadata (bs ! (unat k - 1))) = 3"
    "sealed (if unat k - 1 = 0 then [] else data_hash (blk_header (bs ! (unat k - 1 - 1)))) k b0 = Some (bs ! (unat k - 1))"
proof -
  let ?l = "latest (bg_storage g)" and ?i = "unat k - 1"
  obtain bs where bs: "chain_stored load latest T g bs" using assms(1) unfolding chain_inv_def by blast
  have k: "0 < unat k" "unat k \<le> unat ?l" using assms(3,4) by (simp_all add: word_less_nat_alt word_le_nat_alt)
  then have i: "?i < unat ?l" "Suc ?i = unat k" by simp_all
  have "load (of_nat (Suc ?i)) (bg_storage g) = Some (Some (bs ! ?i))" using bs i(1) unfolding chain_stored_def by blast
  then have load: "load k (bg_storage g) = Some (Some (bs ! ?i))" unfolding i(2) by simp
  have "?i < length (take (unat ?l) (submitted g))" using bs i(1) by (simp add: chain_stored_def)
  moreover have "seq_chain T [] 1 (take (unat ?l) (submitted g)) = Some bs" using bs by (simp add: chain_stored_def)
  ultimately obtain b0 where b0: "block_body T (take (unat ?l) (submitted g) ! ?i) = Some b0"
    "sealed (if ?i = 0 then [] else data_hash (blk_header (bs ! (?i - 1)))) (1 + of_nat ?i) b0 = Some (bs ! ?i)"
    using seq_chain_nth by blast
  have "of_nat (Suc ?i) = k" unfolding i(2) by simp
  then have n: "1 + of_nat ?i = k" by simp
  have "length (blk_metadata (bs ! ?i)) = 3" using sealed_sel(4)[OF b0(2)] body_shape(1)[OF b0(1)] by simp
  then show thesis using that[OF bs load i(1)] b0 i(1) unfolding n by simp
qed

lemma stored_body:
  assumes "chain_inv T g" and "length (submitted g) < 2 ^ 63" and "0 < k" and "k \<le> latest (bg_storage g)" and "load k (bg_storage g) = Some (Some b)"
  obtains b0 prev where "block_body T (submitted g ! (unat k - 1)) = Some b0" "sealed prev k b0 = Some b" "length (blk_metadata b) = 3"
proof -
  obtain bs b0 where "load k (bg_storage g) = Some (Some (bs ! (unat k - 1)))" "block_body T (submitted g ! (unat k - 1)) = Some b0"
    "length (blk_metadata (bs ! (unat k - 1))) = 3"
    "sealed (if unat k - 1 = 0 then [] else data_hash (blk_header (bs ! (unat k - 1 - 1)))) k b0 = Some (bs ! (unat k - 1))"
    by (rule stored_block[OF assms(1-4)])
  then show thesis using that assms(5) by simp
qed

lemma cache_step:
  assumes "bg_step append load latest T g g'" and "chain_inv T g" and "bodies_ok T g" and "length (submitted g') < 2 ^ 63"
    and "cache_ok load latest g"
  shows "cache_ok load latest g'"
  using assms(1)
proof cases
  case (bg_body e q g1)
  obtain b where "bg_storage g1 = bg_storage g" "blockCache g1 = blockCache g" by (rule body_task_SomeD[OF bg_body(3)])
  then show ?thesis using assms(5) bg_body(1) by (simp add: cache_ok_def)
next
  case bg_header
  have sub: "length (submitted g) < 2 ^ 63" using header_run_keeps[OF bg_header] assms(4) by simp
  obtain b0 h where b0: "blockBuffer g (header_epoch g + 1) = Some b0" "hash_parts [blk_metadata b0 ! 0, blk_metadata b0 ! 1] = Some h"
    by (rule header_run_SomeD[OF bg_header assms(3)])
  obtain g1 where g1: "header_run append load latest g = Some g1" "latest (bg_storage g) < latest (bg_storage g1)" "blockCache g1 = blockCache g"
    "\<forall>k. 0 < k \<longrightarrow> k \<le> latest (bg_storage g) \<longrightarrow> load k (bg_storage g1) = load k (bg_storage g)"
    using header_run_ok[OF assms(2,3) sub b0] by blast
  then have "g' = g1" using bg_header by simp
  then show ?thesis using assms(5) g1(2-4) by (force simp: cache_ok_def)
next
  case (bg_verify e ip sig valid)
  then obtain b where "cached_block load e g = Some (b, g')" "e \<le> latest (bg_storage g)"
    by (auto simp: signatureVerifyCallback_def Option.bind_eq_Some_conv not_less split: if_splits)
  then show ?thesis using cached_block_keeps[OF assms(5)] by blast
qed (use assms(5) in \<open>simp_all add: cache_ok_def addCommittedTransaction_def generateBlock_def getPendingTransactionQueue_def\<close>)

lemma cache_reachable:
  assumes "(bg_step append load latest T)\<^sup>*\<^sup>* (newBlockGenerator latest s) g" and "ok s" and "latest s = 0"
    and "length (submitted g) < 2 ^ 63"
  shows "cache_ok load latest g"
  using assms(1,4)
proof (induction rule: rtranclp_induct)
  case base
  then show ?case by (simp add: cache_ok_def newBlockGenerator_def)
next
  case (step g g')
  have lt: "length (submitted g) < 2 ^ 63" using submitted_grows[OF step.hyps(2)] step.prems by simp
  then have "chain_inv T g \<and> bodies_ok T g" by (rule chain_reachable[OF step.hyps(1) assms(2,3)])
  then show ?case using step lt by (intro cache_step[OF step.hyps(2)]) simp_all
qed

text \<open>A run that makes the body of a block, and one that stores it.\<close>

lemma one_body_run:
  assumes "latest s = 0" and "serializeToString T t = Some d" and "length d < 2 ^ 32"
    and "serializeResultToString T t = Some r" and "\<And>m. rsaEncrypt T m \<noteq> None"
  shows "\<exists>g b. (bg_step append load latest T)\<^sup>*\<^sup>* (newBlockGenerator latest s) g \<and> submitted g = [[t]] \<and> bg_storage g = s \<and>
    blockBuffer g (header_epoch g + 1) = Some b \<and> length (blk_metadata b ! 0) = 1 \<and> length (blk_metadata b ! 1) = 32"
proof -
  let ?R = "bg_step append load latest T" and ?g0 = "newBlockGenerator latest s"
  let ?g1 = "addCommittedTransaction t ?g0"
  define g2 where "g2 = snd (generateBlock ?g1)"
  have g2: "body_tasks g2 = [(1, [t])]" "submitted g2 = [[t]]" "header_epoch g2 = 0" "bg_storage g2 = s"
    using assms(1) by (simp_all add: g2_def generateBlock_def getPendingTransactionQueue_def addCommittedTransaction_def newBlockGenerator_def)
  define root where "root = string_of (merkle_root (map (\<lambda>d. sha256_spec (bytes_of d)) [d]))"
  have root: "block_root [d] = Some root" "length root = 32"
    using block_root_spec[of "[d]"] assms(3) by (simp_all add: root_def merkle_root_def sha256_spec_length)
  obtain sig where "rsaEncrypt T root = Some sig" using assms(5) by blast
  then have b: "block_body T [t] = Some (newBlock\<lparr>blk_data := [d], blk_metadata := [[char_of (result_code (transactionResult t))], root, sig]\<rparr>)"
    (is "_ = Some ?b") using assms(2) root(1) by (simp add: block_body_def)
  obtain g3 where g3: "body_task T 1 [t] g2 = Some g3"
    using b assms(4) by (simp add: body_task_def generateBlockBody_def early_response_def)
  let ?g3 = "g3\<lparr>body_tasks := remove1 (1, [t]) (body_tasks g3)\<rparr>"
  obtain b' where b': "block_body T [t] = Some b'" "blockBuffer g3 = (blockBuffer g2)(1 \<mapsto> b')" "submitted g3 = submitted g2" "header_epoch g3 = header_epoch g2"
    "bg_storage g3 = bg_storage g2" by (rule body_task_SomeD[OF g3])
  have "?R ?g0 ?g1" by (rule bg_add)
  moreover have "?R ?g1 g2" unfolding g2_def by (rule bg_generate)
  moreover have "?R g2 ?g3" using g2(1) g3 by (intro bg_body) simp_all
  ultimately have "?R\<^sup>*\<^sup>* ?g0 ?g3" by (meson converse_rtranclp_into_rtranclp rtranclp.rtrancl_refl)
  moreover have "b' = ?b" using b'(1) b by simp
  ultimately show ?thesis using b'(2-5) g2 root(2) by (intro exI[of _ ?g3] exI[of _ ?b]) simp
qed

lemma one_block_run:
  assumes "ok s" and "latest s = 0" and "serializeToString T t = Some d" and "length d < 2 ^ 32"
    and "serializeResultToString T t = Some r" and "\<And>m. rsaEncrypt T m \<noteq> None"
  shows "\<exists>g. (bg_step append load latest T)\<^sup>*\<^sup>* (newBlockGenerator latest s) g \<and> submitted g = [[t]] \<and> latest (bg_storage g) = 1 \<and>
    (\<exists>b. load 1 (bg_storage g) = Some (Some b) \<and> length (blk_metadata b ! 0) = 1 \<and> length (blk_metadata b ! 1) = 32)"
proof -
  let ?R = "bg_step append load latest T"
  obtain g b where g: "?R\<^sup>*\<^sup>* (newBlockGenerator latest s) g" "submitted g = [[t]]" "bg_storage g = s"
    "blockBuffer g (header_epoch g + 1) = Some b" "length (blk_metadata b ! 0) = 1" "length (blk_metadata b ! 1) = 32"
    using one_body_run[OF assms(2-6)] by blast
  then have inv: "chain_inv T g" "bodies_ok T g" using chain_reachable[OF g(1) assms(1,2)] by simp_all
  have "hash_parts [blk_metadata b ! 0, blk_metadata b ! 1] = Some (sha_string (concat [blk_metadata b ! 0, blk_metadata b ! 1]))"
    using g(5,6) by (intro hash_parts_spec) simp_all
  from header_run_ok[OF inv _ g(4) this] g(2) obtain g4 where
    g4: "header_run append load latest g = Some g4" "submitted g4 = [[t]]" "latest (bg_storage g4) = latest (bg_storage g) + 1" "chain_inv T g4" by auto
  then have l: "latest (bg_storage g4) = 1" using g(3) assms(2) by simp
  have k: "length (submitted g4) < 2 ^ 63" "0 < (1 :: epoch_size_t)" "1 \<le> latest (bg_storage g4)" using g4(2) l by simp_all
  obtain b1 where b1: "load 1 (bg_storage g4) = Some (Some b1)" by (rule stored_block[OF g4(4) k])
  obtain b0 prev where b0: "block_body T (submitted g4 ! (unat (1 :: epoch_size_t) - 1)) = Some b0" "sealed prev 1 b0 = Some b1"
    by (rule stored_body[OF g4(4) k b1])
  have "block_body T [t] = Some b" using bodies_buffer[OF inv(2) g(4)] g(2) by auto
  then have "blk_metadata b1 = blk_metadata b" using b0(1) sealed_sel(4)[OF b0(2)] g4(2) by simp
  moreover have "?R\<^sup>*\<^sup>* (newBlockGenerator latest s) g4" using g(1) bg_header[OF g4(1)] by (rule rtranclp.rtrancl_into_rtrancl)
  ultimately show ?thesis using l g4(2) b1 g(5,6) by (intro exI[of _ g4]) simp
qed

text \<open>A restarted generator does not know the hash of the last block, and its header thread stops at the first check.\<close>

lemma restart_header:
  assumes "bg_storage g = s" and "previousDataHash g = []" and "unat (latest s) < 2 ^ 63" and "0 < latest s"
    and "load (latest s) s = Some (Some p)" and "data_hash (blk_header p) \<noteq> []"
  shows "header_run append load latest g = None"
proof -
  have "unat (latest s - 1) + 1 < 2 ^ 63" using assms(3,4) by (simp add: unat_minus_one[of "latest s"])
  then have "sint (latest s) = int (unat (latest s))" by (intro next_word(5)[of "latest s" "latest s - 1"]) simp_all
  then have "sint (latest s) > 0" using assms(4) by (simp only: of_nat_0_less_iff unat_gt_0)
  then have "generateBlockHeader load latest b (g\<lparr>header_epoch := c, blockBuffer := f\<rparr>) \<in>
      {None, Some (False, b, g\<lparr>header_epoch := c, blockBuffer := f\<rparr>)}" for b c f
    using assms(1,2,5,6) by (auto simp: generateBlockHeader_def Let_def split: option.splits)
  then show ?thesis by (fastforce simp: header_run_def Let_def Option.bind_eq_None_conv)
qed

lemma restart_stuck:
  assumes "(bg_step append load latest T)\<^sup>*\<^sup>* (newBlockGenerator latest s) g" and "unat (latest s) < 2 ^ 63" and "0 < latest s"
    and "load (latest s) s = Some (Some p)" and "data_hash (blk_header p) \<noteq> []"
  shows "bg_storage g = s \<and> previousDataHash g = []"
  using assms(1)
proof (induction rule: rtranclp_induct)
  case base
  then show ?case by (simp add: newBlockGenerator_def)
next
  case (step g g')
  from step.hyps(2) show ?case
  proof cases
    case (bg_body e q g1)
    obtain b where "bg_storage g1 = bg_storage g" "previousDataHash g1 = previousDataHash g" by (rule body_task_SomeD[OF bg_body(3)])
    then show ?thesis using step.IH bg_body(1) by simp
  next
    case bg_header
    then show ?thesis using restart_header[OF _ _ assms(2-5)] step.IH by simp
  next
    case (bg_verify e ip sig valid)
    then obtain c where "g' = g\<lparr>blockCache := c\<rparr>" by (rule callback_keeps)
    then show ?thesis using step.IH by simp
  qed (use step.IH in \<open>simp_all add: addCommittedTransaction_def generateBlock_def getPendingTransactionQueue_def\<close>)
qed

end

section \<open>Properties\<close>

text \<open>A concrete encoding of blocks and concrete keys, on which the properties are applied.\<close>

definition block_code :: "block \<Rightarrow> string" where
  "block_code b = nat_code (unat (number_of b)) @ str_code (previous_hash (blk_header b)) @ str_code (data_hash (blk_header b)) @
     list_code (blk_data b) @ list_code (blk_metadata b)"

definition block_decode :: "string \<Rightarrow> block option" where
  "block_decode s =
     (let (n, s1) = read_nat s; (p, s2) = read_str s1; (h, s3) = read_str s2; (d, s4) = read_list s3; (m, s5) = read_list s4
      in Some \<lparr>blk_header = \<lparr>blk_number = of_nat n, previous_hash = p, data_hash = h\<rparr>, blk_data = d, blk_metadata = m\<rparr>)"

lemma block_decode_code: "\<forall>b. block_decode (block_code b) = Some b"
  by (simp add: block_decode_def block_code_def read_nat_code read_str_code read_list_code)

definition plain_tools :: bg_tools where
  "plain_tools = \<lparr>serializeToString = (\<lambda>t. Some ''tx''), serializeResultToString = (\<lambda>t. Some ''r''), rsaEncrypt = Some,
     rsaDecryptOf = (\<lambda>ip root sig. root = sig)\<rparr>"

abbreviation db_step :: "(block \<Rightarrow> string) \<Rightarrow> (string \<Rightarrow> block option) \<Rightarrow> bg_tools \<Rightarrow> db_blocks block_generator \<Rightarrow> db_blocks block_generator \<Rightarrow> bool" where
  "db_step ser parse \<equiv> bg_step (db_appendBlock ser) (db_loadBlock parse) bufferedEpochFromDb"

abbreviation file_step ::
    "(string \<Rightarrow> bool) \<Rightarrow> (block \<Rightarrow> string) \<Rightarrow> (string \<Rightarrow> block option) \<Rightarrow> bg_tools \<Rightarrow> file_blocks block_generator \<Rightarrow> file_blocks block_generator \<Rightarrow> bool" where
  "file_step opens ser parse \<equiv> bg_step (file_appendBlock opens ser) (file_loadBlock parse) bufferedEpochFromFile"

abbreviation db_start :: "db_blocks block_generator" where
  "db_start \<equiv> newBlockGenerator bufferedEpochFromDb newBlockStorageToDB"

abbreviation file_start :: "(string \<Rightarrow> bool) \<Rightarrow> epoch_size_t \<Rightarrow> (string \<rightharpoonup> string) \<Rightarrow> file_blocks block_generator" where
  "file_start opens indet fs \<equiv> newBlockGenerator bufferedEpochFromFile (newBlockStorageToFile opens True indet fs)"

lemma fresh_latest [simp]: "bufferedEpochFromDb newBlockStorageToDB = 0" "bufferedEpochFromFile (newBlockStorageToFile opens True indet fs) = 0"
  by (simp_all add: newBlockStorageToDB_def newBlockStorageToFile_def write_file_def)

lemma file_run: "\<exists>g. (file_step (\<lambda>_. True) block_code block_decode plain_tools)\<^sup>*\<^sup>* (file_start (\<lambda>_. True) 0 Map.empty) g \<and>
    submitted g = [[makeTransaction 1 5 False]] \<and> bufferedEpochFromFile (bg_storage g) = 1 \<and>
    (\<exists>b. file_loadBlock block_decode 1 (bg_storage g) = Some (Some b) \<and> length (blk_metadata b ! 0) = 1 \<and> length (blk_metadata b ! 1) = 32)"
  by (rule file_chain.one_block_run[OF fresh_storage(2)[OF block_decode_code], where d = "''tx''" and r = "''r''"]) (simp_all add: plain_tools_def)

lemma db_run: "\<exists>g. (db_step block_code block_decode plain_tools)\<^sup>*\<^sup>* db_start g \<and>
    submitted g = [[makeTransaction 1 5 False]] \<and> bufferedEpochFromDb (bg_storage g) = 1 \<and>
    (\<exists>b. db_loadBlock block_decode 1 (bg_storage g) = Some (Some b) \<and> length (blk_metadata b ! 0) = 1 \<and> length (blk_metadata b ! 1) = 32)"
  by (rule db_chain.one_block_run[OF fresh_storage(1)[OF block_decode_code], where d = "''tx''" and r = "''r''"]) (simp_all add: plain_tools_def)

lemma db_body_run: "\<exists>g b. (db_step block_code block_decode plain_tools)\<^sup>*\<^sup>* db_start g \<and> submitted g = [[makeTransaction 1 5 False]] \<and>
    bg_storage g = newBlockStorageToDB \<and> blockBuffer g (header_epoch g + 1) = Some b \<and>
    length (blk_metadata b ! 0) = 1 \<and> length (blk_metadata b ! 1) = 32"
  by (rule db_chain.one_body_run[where d = "''tx''" and r = "''r''"]) (simp_all add: plain_tools_def)

text \<open>C4. The chain on disk. However the calls of the transaction manager, the pool that makes the bodies, the header thread and the
  signature checks interleave, the stored blocks are those a sequential program builds from the queues in the order of the calls: block
  \<open>i\<close> has number \<open>i\<close>, holds the transactions of the \<open>i\<close>-th call, and its header has the hash of its results and
  Merkle root and the hash of the block before.\<close>

theorem stored_chain_sequential:
  assumes "\<forall>b. parse (ser b) = Some b" and "\<forall>n. opens n" and "(file_step opens ser parse T)\<^sup>*\<^sup>* (file_start opens indet fs) g"
    and "length (submitted g) < 2 ^ 63"
  shows "\<exists>bs. chain_stored (file_loadBlock parse) bufferedEpochFromFile T g bs \<and>
    (\<forall>i < length bs. number_of (bs ! i) = of_nat (Suc i) \<and>
      previous_hash (blk_header (bs ! i)) = (if i = 0 then [] else data_hash (blk_header (bs ! (i - 1)))) \<and>
      hash_parts [blk_metadata (bs ! i) ! 0, blk_metadata (bs ! i) ! 1] = Some (data_hash (blk_header (bs ! i))))"
proof -
  have "file_chain.chain_inv parse opens ser T g"
    using file_chain.chain_reachable[OF assms(3) fresh_storage(2)[OF assms(1,2)] _ assms(4)] by simp
  then obtain bs where bs: "chain_stored (file_loadBlock parse) bufferedEpochFromFile T g bs"
    unfolding file_chain.chain_inv_def by blast
  let ?qs = "take (unat (bufferedEpochFromFile (bg_storage g))) (submitted g)"
  have seq: "seq_chain T [] 1 ?qs = Some bs" using bs by (simp add: chain_stored_def)
  have "number_of (bs ! i) = of_nat (Suc i) \<and>
      previous_hash (blk_header (bs ! i)) = (if i = 0 then [] else data_hash (blk_header (bs ! (i - 1)))) \<and>
      hash_parts [blk_metadata (bs ! i) ! 0, blk_metadata (bs ! i) ! 1] = Some (data_hash (blk_header (bs ! i)))" if i: "i < length bs" for i
  proof -
    have "i < length ?qs" using i seq_chain_length[OF seq] by simp
    from seq_chain_nth[OF seq this] obtain b0 where
      b0: "sealed (if i = 0 then [] else data_hash (blk_header (bs ! (i - 1)))) (1 + of_nat i) b0 = Some (bs ! i)" by blast
    show ?thesis using sealed_sel[OF b0] by simp
  qed
  then show ?thesis using bs by blast
qed

theorem stored_chain_sequential_witness:
  "\<exists>g bs. (file_step (\<lambda>_. True) block_code block_decode plain_tools)\<^sup>*\<^sup>* (file_start (\<lambda>_. True) 0 Map.empty) g \<and>
    bufferedEpochFromFile (bg_storage g) = 1 \<and> chain_stored (file_loadBlock block_decode) bufferedEpochFromFile plain_tools g bs"
proof -
  obtain g where g: "(file_step (\<lambda>_. True) block_code block_decode plain_tools)\<^sup>*\<^sup>* (file_start (\<lambda>_. True) 0 Map.empty) g"
    "submitted g = [[makeTransaction 1 5 False]]" "bufferedEpochFromFile (bg_storage g) = 1" using file_run by blast
  then show ?thesis using stored_chain_sequential[OF block_decode_code _ g(1)] by auto
qed

text \<open>Within a run no check of the header thread fails: whenever the body of the next block is there and its first two entries of
  metadata are shorter than four gigabytes, the header is made, the comparison with the stored previous block
  succeeds and the block is appended.\<close>

theorem header_thread_never_aborts:
  assumes "\<forall>b. parse (ser b) = Some b" and "(db_step ser parse T)\<^sup>*\<^sup>* db_start g" and "length (submitted g) < 2 ^ 63"
    and "blockBuffer g (header_epoch g + 1) = Some b0" and "length (blk_metadata b0 ! 0) < 2 ^ 32" and "length (blk_metadata b0 ! 1) < 2 ^ 32"
  shows "\<exists>g'. header_run (db_appendBlock ser) (db_loadBlock parse) bufferedEpochFromDb g = Some g' \<and>
    bufferedEpochFromDb (bg_storage g') = bufferedEpochFromDb (bg_storage g) + 1"
proof -
  have inv: "db_chain.chain_inv parse ser T g" "bodies_ok T g"
    using db_chain.chain_reachable[OF assms(2) fresh_storage(1)[OF assms(1)] _ assms(3)] by simp_all
  have "hash_parts [blk_metadata b0 ! 0, blk_metadata b0 ! 1] = Some (sha_string (concat [blk_metadata b0 ! 0, blk_metadata b0 ! 1]))"
    using assms(5,6) by (intro hash_parts_spec) simp_all
  from db_chain.header_run_ok[OF inv assms(3,4) this] show ?thesis by blast
qed

theorem header_thread_never_aborts_witness:
  "\<exists>g g'. (db_step block_code block_decode plain_tools)\<^sup>*\<^sup>* db_start g \<and>
    header_run (db_appendBlock block_code) (db_loadBlock block_decode) bufferedEpochFromDb g = Some g' \<and>
    bufferedEpochFromDb (bg_storage g') = 1"
proof -
  obtain g b where g: "(db_step block_code block_decode plain_tools)\<^sup>*\<^sup>* db_start g" "submitted g = [[makeTransaction 1 5 False]]"
    "bg_storage g = newBlockStorageToDB" "blockBuffer g (header_epoch g + 1) = Some b" "length (blk_metadata b ! 0) = 1" "length (blk_metadata b ! 1) = 32"
    using db_body_run by blast
  then show ?thesis using header_thread_never_aborts[OF block_decode_code g(1) _ g(4)] by auto
qed



text \<open>Signatures are exchanged successfully. When the second server receives the signature the first one broadcasts for a block both
  have stored from the same transactions, its check succeeds and the block is marked as validated, provided that signatures
  of the first server are accepted under its address and the block number is below the size of the table. The answer does not depend on
  what the cache of blocks holds.\<close>

theorem signature_accepted:
  assumes "\<forall>b. parse (ser b) = Some b" and "\<forall>n. opens n" and "serializeToString T = serializeToString U"
    and "(db_step ser parse T)\<^sup>*\<^sup>* db_start g" and "(file_step opens ser parse U)\<^sup>*\<^sup>* (file_start opens indet fs) h"
    and "length (submitted g) < 2 ^ 63" and "length (submitted h) < 2 ^ 63"
    and "\<forall>i < unat k. submitted g ! i = submitted h ! i"
    and "0 < k" and "k \<le> bufferedEpochFromDb (bg_storage g)" and "k \<le> bufferedEpochFromFile (bg_storage h)" and "unat k < 10000"
    and "\<forall>root sig. rsaEncrypt T root = Some sig \<longrightarrow> rsaDecryptOf U ip root sig"
    and "db_loadBlock parse k (bg_storage g) = Some (Some b)"
  shows "\<exists>m h'. blockVerifier ip b = Some m \<and>
    getSignatureFromOtherServer (file_loadBlock parse) bufferedEpochFromFile (rsaDecryptOf U) m (v, h) = Some (v(unat k := True), h')"
proof -
  have g: "db_chain.chain_inv parse ser T g" and h: "file_chain.chain_inv parse opens ser U h"
    using db_chain.chain_reachable[OF assms(4) fresh_storage(1)[OF assms(1)] _ assms(6)]
      file_chain.chain_reachable[OF assms(5) fresh_storage(2)[OF assms(1,2)] _ assms(7)] by simp_all
  let ?i = "unat k - 1"
  obtain bs b0 prev where bs: "chain_stored (db_loadBlock parse) bufferedEpochFromDb T g bs"
    "db_loadBlock parse k (bg_storage g) = Some (Some (bs ! ?i))" "?i < unat (bufferedEpochFromDb (bg_storage g))"
    "block_body T (submitted g ! ?i) = Some b0" "sealed prev k b0 = Some (bs ! ?i)"
    using db_chain.stored_block[OF g assms(6,9,10)] by metis
  obtain cs where cs: "chain_stored (file_loadBlock parse) bufferedEpochFromFile U h cs"
    "file_loadBlock parse k (bg_storage h) = Some (Some (cs ! ?i))" "?i < unat (bufferedEpochFromFile (bg_storage h))"
    "length (blk_metadata (cs ! ?i)) = 3" using file_chain.stored_block[OF h assms(7,9,11)] by metis
  have b: "b = bs ! ?i" using assms(14) bs(2) by simp
  have k: "0 < unat k" using assms(9) by (simp add: word_less_nat_alt)
  then have "same_block b (cs ! ?i)"
    unfolding b using assms(8) by (intro same_stored[OF assms(3) bs(1) cs(1) bs(3) cs(3)]) simp
  then have "take 2 (blk_metadata b) ! 1 = take 2 (blk_metadata (cs ! ?i)) ! 1" by (simp add: same_block_def)
  then have root: "blk_metadata b ! 1 = blk_metadata (cs ! ?i) ! 1" by simp
  have meta: "blk_metadata b = blk_metadata b0" "number_of b = k" using sealed_sel(1,4)[OF bs(5)] b by simp_all
  have sig: "rsaEncrypt T (blk_metadata b ! 1) = Some (blk_metadata b ! 2)" "length (blk_metadata b) = 3"
    using bs(4) by (auto simp: meta block_body_def Option.bind_eq_Some_conv)
  have "rsaDecryptOf U ip (blk_metadata (cs ! ?i) ! 1) (blk_metadata b ! 2)" using sig(1) assms(13) root by metis
  moreover have cache: "cache_ok (file_loadBlock parse) bufferedEpochFromFile h"
    using file_chain.cache_reachable[OF assms(5) fresh_storage(2)[OF assms(1,2)] _ assms(7)] by simp
  ultimately obtain h' where
    "signatureVerifyCallback (file_loadBlock parse) bufferedEpochFromFile (rsaDecryptOf U) k ip (blk_metadata b ! 2) h = Some (True, h')"
    using callback_exact[OF cache assms(9,11) cs(2), of "rsaDecryptOf U" ip "blk_metadata b ! 2"] cs(4) by auto
  then show ?thesis using sig(2) meta(2) assms(12)
    by (simp add: blockVerifier_def getSignatureFromOtherServer_def validated_slots_def)
qed

theorem signature_accepted_witness:
  "\<exists>g h b m h'. (db_step block_code block_decode plain_tools)\<^sup>*\<^sup>* db_start g \<and> db_loadBlock block_decode 1 (bg_storage g) = Some (Some b) \<and>
    blockVerifier ''a'' b = Some m \<and>
    getSignatureFromOtherServer (file_loadBlock block_decode) bufferedEpochFromFile (rsaDecryptOf plain_tools) m (\<lambda>_. False, h) =
      Some ((\<lambda>_. False)(1 := True), h')"
proof -
  obtain g b where g: "(db_step block_code block_decode plain_tools)\<^sup>*\<^sup>* db_start g"
    "submitted g = [[makeTransaction 1 5 False]]" "bufferedEpochFromDb (bg_storage g) = 1" 
    and b: "db_loadBlock block_decode 1 (bg_storage g) = Some (Some b)" using db_run by blast
  obtain h where h: "(file_step (\<lambda>_. True) block_code block_decode plain_tools)\<^sup>*\<^sup>* (file_start (\<lambda>_. True) 0 Map.empty) h"
    "submitted h = [[makeTransaction 1 5 False]]" "bufferedEpochFromFile (bg_storage h) = 1" using file_run by blast
  have keys: "\<forall>root sig. rsaEncrypt plain_tools root = Some sig \<longrightarrow> rsaDecryptOf plain_tools ''a'' root sig" by (simp add: plain_tools_def)
  obtain m h' where "blockVerifier ''a'' b = Some m" "getSignatureFromOtherServer (file_loadBlock block_decode) bufferedEpochFromFile
      (rsaDecryptOf plain_tools) m (\<lambda>_. False, h) = Some ((\<lambda>_. False)(1 := True), h')"
    using signature_accepted[OF block_decode_code _ refl g(1) h(1) _ _ _ _ _ _ _ keys b, of "\<lambda>_. False"] g h by auto
  then show ?thesis using g(1) b by blast
qed



text \<open>C37. A server cannot go on after a restart. The chain written to disk is found again, but the hash of the last block is
  only kept in memory: started on a chain that is not empty, the header thread fails its first comparison, and
  no run of the restarted server ever stores a block.\<close>

theorem restart_stores_nothing:
  assumes "\<forall>b. parse (ser b) = Some b" and "\<forall>n. opens n" and "(file_step opens ser parse T)\<^sup>*\<^sup>* (file_start opens indet fs) g"
    and "length (submitted g) < 2 ^ 63" and "0 < bufferedEpochFromFile (bg_storage g)"
    and "file_loadBlock parse (bufferedEpochFromFile (bg_storage g)) (bg_storage g) = Some (Some b)"
    and "length (blk_metadata b ! 0) < 2 ^ 32" and "length (blk_metadata b ! 1) < 2 ^ 32"
    and "(file_step opens ser parse U)\<^sup>*\<^sup>* (newBlockGenerator bufferedEpochFromFile
      (newBlockStorageToFile opens False indet' (files (bg_storage g)))) g'"
  shows "bg_storage g' = bg_storage g"
proof -
  let ?l = "bufferedEpochFromFile (bg_storage g)"
  have inv: "file_chain.chain_inv parse opens ser T g"
    using file_chain.chain_reachable[OF assms(3) fresh_storage(2)[OF assms(1,2)] _ assms(4)] by simp
  then have ok: "file_ok opens ser parse (bg_storage g)" and "unat ?l \<le> length (submitted g)"
    unfolding file_chain.chain_inv_def chain_stored_def by auto
  then have lt: "unat ?l < 2 ^ 63" using assms(4) by simp
  obtain b0 prev where b0: "sealed prev ?l b0 = Some b" by (rule file_chain.stored_body[OF inv assms(4,5) order_refl assms(6)])
  have "hash_parts [blk_metadata b ! 0, blk_metadata b ! 1] = Some (data_hash (blk_header b))" using sealed_sel(4,5)[OF b0] by simp
  then have "data_hash (blk_header b) = sha_string (blk_metadata b ! 0 @ blk_metadata b ! 1)"
    using hash_parts_spec[of "[blk_metadata b ! 0, blk_metadata b ! 1]"] assms(7,8) by simp
  then have "length (data_hash (blk_header b)) = 32" by simp
  then have ne: "data_hash (blk_header b) \<noteq> []" by auto
  have "(file_step opens ser parse U)\<^sup>*\<^sup>* (newBlockGenerator bufferedEpochFromFile (bg_storage g)) g'"
    using assms(9) unfolding restart_files[OF ok] .
  from file_chain.restart_stuck[OF this lt assms(5,6) ne] show ?thesis by simp
qed

theorem restart_stores_nothing_witness:
  "\<exists>g :: file_blocks block_generator. bufferedEpochFromFile (bg_storage g) = 1 \<and>
    bg_storage (addCommittedTransaction (makeTransaction 2 6 False) (newBlockGenerator bufferedEpochFromFile
      (newBlockStorageToFile (\<lambda>_. True) False 0 (files (bg_storage g))))) = bg_storage g"
proof -
  obtain g b where g: "(file_step (\<lambda>_. True) block_code block_decode plain_tools)\<^sup>*\<^sup>* (file_start (\<lambda>_. True) 0 Map.empty) g"
    "submitted g = [[makeTransaction 1 5 False]]" "bufferedEpochFromFile (bg_storage g) = 1"
    "file_loadBlock block_decode 1 (bg_storage g) = Some (Some b)" "length (blk_metadata b ! 0) = 1" "length (blk_metadata b ! 1) = 32"
    using file_run by blast
  let ?r = "newBlockGenerator bufferedEpochFromFile (newBlockStorageToFile (\<lambda>_. True) False 0 (files (bg_storage g)))"
  have "(file_step (\<lambda>_. True) block_code block_decode plain_tools)\<^sup>*\<^sup>* ?r (addCommittedTransaction (makeTransaction 2 6 False) ?r)"
    by (rule r_into_rtranclp) (rule bg_add)
  then have "bg_storage (addCommittedTransaction (makeTransaction 2 6 False) ?r) = bg_storage g"
    using g(2-6) by (intro restart_stores_nothing[OF block_decode_code _ g(1), where b = b and U = plain_tools]) simp_all
  then show ?thesis using g(3) by blast
qed

end
