(* ===== verification/Base64.thy ===== *)
theory Base64
  imports Neu_Prelude "HOL-Library.Word"
begin

text \<open>
  The base64 codec of \<open>src/common/base64.cpp\<close>, which the crypto layer uses to put keys and signatures into
  text. A \<open>std::string\<close> is a \<open>string\<close>, a character that is promoted to an integer its
  code \<open>of_char c :: nat\<close>; a thrown \<open>std::runtime_error\<close> is \<open>None\<close>. The encoder counts
  its position in 32 bits, so for an input of \<open>2^32\<close> or more bytes its loop does not end, which is
  \<open>None\<close> too.

  The lemmas show that decoding inverts encoding for both alphabets and for the
  variants with line breaks, and what the line breaks look like.
\<close>

unbundle bit_operations_syntax

section \<open>The code\<close>

definition base64_chars :: "bool \<Rightarrow> string" where
  "base64_chars url =
     (if url then ''ABCDEFGHIJKLMNOPQRSTUVWXYZabcdefghijklmnopqrstuvwxyz0123456789-_''
      else ''ABCDEFGHIJKLMNOPQRSTUVWXYZabcdefghijklmnopqrstuvwxyz0123456789+/'')"

definition pos_of_char :: "char \<Rightarrow> nat option" where
  "pos_of_char chr =
     (let n = of_char chr :: nat; c = (\<lambda>x. of_char x :: nat) in
      if c (CHR ''A'') \<le> n \<and> n \<le> c (CHR ''Z'') then Some (n - c (CHR ''A''))
      else if c (CHR ''a'') \<le> n \<and> n \<le> c (CHR ''z'')
        then Some (n - c (CHR ''a'') + (c (CHR ''Z'') - c (CHR ''A'')) + 1)
      else if c (CHR ''0'') \<le> n \<and> n \<le> c (CHR ''9'')
        then Some (n - c (CHR ''0'') + (c (CHR ''Z'') - c (CHR ''A'')) + (c (CHR ''z'') - c (CHR ''a'')) + 2)
      else if chr = CHR ''+'' \<or> chr = CHR ''-'' then Some 62
      else if chr = CHR ''/'' \<or> chr = CHR ''_'' then Some 63
      else None)"

partial_function (option) linebreak_loop :: "nat \<Rightarrow> nat \<Rightarrow> string \<Rightarrow> string option" where
  "linebreak_loop distance pos str =
     (if pos < length str
      then linebreak_loop distance (pos + distance + 1) (take pos str @ CHR 0x0A # drop pos str)
      else Some str)"

definition insert_linebreaks :: "string \<Rightarrow> nat \<Rightarrow> string option" where
  "insert_linebreaks str distance = (if length str = 0 then Some [] else linebreak_loop distance distance str)"

definition trailing_char :: "bool \<Rightarrow> char" where
  "trailing_char url = (if url then CHR ''.'' else CHR ''='')"

fun encode_loop :: "bool \<Rightarrow> nat list \<Rightarrow> string" where
  "encode_loop url [] = []"
| "encode_loop url [a] =
     [base64_chars url ! drop_bit 2 (a AND 0xfc),
      base64_chars url ! push_bit 4 (a AND 0x03), trailing_char url, trailing_char url]"
| "encode_loop url [a, b] =
     [base64_chars url ! drop_bit 2 (a AND 0xfc),
      base64_chars url ! (push_bit 4 (a AND 0x03) + drop_bit 4 (b AND 0xf0)),
      base64_chars url ! push_bit 2 (b AND 0x0f), trailing_char url]"
| "encode_loop url (a # b # c # rest) =
     base64_chars url ! drop_bit 2 (a AND 0xfc)
     # base64_chars url ! (push_bit 4 (a AND 0x03) + drop_bit 4 (b AND 0xf0))
     # base64_chars url ! (push_bit 2 (b AND 0x0f) + drop_bit 6 (c AND 0xc0))
     # base64_chars url ! (c AND 0x3f)
     # encode_loop url rest"

definition base64_encode :: "string \<Rightarrow> bool \<Rightarrow> string option" where
  "base64_encode s url = (if 2 ^ 32 \<le> length s then None else Some (encode_loop url (map of_char s)))"

definition encode_with_line_breaks :: "nat \<Rightarrow> string \<Rightarrow> string option" where
  "encode_with_line_breaks line_length s =
     Option.bind (base64_encode s False) (\<lambda>e. insert_linebreaks e line_length)"

definition base64_encode_pem :: "string \<Rightarrow> string option" where
  "base64_encode_pem s = encode_with_line_breaks 64 s"

definition base64_encode_mime :: "string \<Rightarrow> string option" where
  "base64_encode_mime s = encode_with_line_breaks 76 s"

text \<open>Indexing a \<open>std::string\<close> at its length reads the terminating zero.\<close>

definition str_at :: "string \<Rightarrow> nat \<Rightarrow> char" where
  "str_at s i = (if i < length s then s ! i else CHR 0x00)"

definition decode_chunk :: "string \<Rightarrow> string option" where
  "decode_chunk s =
     Option.bind (pos_of_char (str_at s 1)) (\<lambda>p1.
     Option.bind (pos_of_char (str_at s 0)) (\<lambda>p0.
       let b0 = char_of (push_bit 2 p0 + drop_bit 4 (p1 AND 0x30)) in
       if 2 < length s \<and> str_at s 2 \<noteq> CHR ''='' \<and> str_at s 2 \<noteq> CHR ''.''
       then Option.bind (pos_of_char (str_at s 2)) (\<lambda>p2.
         let b1 = char_of (push_bit 4 (p1 AND 0x0f) + drop_bit 2 (p2 AND 0x3c)) in
         if 3 < length s \<and> str_at s 3 \<noteq> CHR ''='' \<and> str_at s 3 \<noteq> CHR ''.''
         then Option.bind (pos_of_char (str_at s 3)) (\<lambda>p3. Some [b0, b1, char_of (push_bit 6 (p2 AND 0x03) + p3)])
         else Some [b0, b1])
       else Some [b0]))"

function decode_loop :: "string \<Rightarrow> string option" where
  "decode_loop s =
     (if s = [] then Some []
      else Option.bind (decode_chunk s) (\<lambda>bs. map_option ((@) bs) (decode_loop (drop 4 s))))"
  by pat_completeness auto
termination
  by (relation "measure length") auto

declare decode_loop.simps [simp del]

definition base64_decode :: "string \<Rightarrow> bool \<Rightarrow> string option" where
  "base64_decode s remove_linebreaks =
     (if s = [] then Some []
      else decode_loop (if remove_linebreaks then filter (\<lambda>c. c \<noteq> CHR 0x0A) s else s))"

section \<open>Masks and alphabets\<close>

lemma drop_and_mask:
  "drop_bit k m = mask j \<Longrightarrow> drop_bit k (n AND m) = (n div 2 ^ k) mod 2 ^ j" for n m :: nat
  by (simp only: drop_bit_and take_bit_eq_mask[symmetric] take_bit_eq_mod) (simp only: drop_bit_eq_div)

lemma and_mask_mod: "m = mask j \<Longrightarrow> n AND m = n mod 2 ^ j" for n m :: nat
  by (simp only: take_bit_eq_mask[symmetric] take_bit_eq_mod)

lemma base64_shifts:
  fixes n :: nat
  shows "drop_bit 2 (n AND 0xfc) = n div 2 ^ 2 mod 2 ^ 6" and "drop_bit 4 (n AND 0xf0) = n div 2 ^ 4 mod 2 ^ 4"
    and "drop_bit 6 (n AND 0xc0) = n div 2 ^ 6 mod 2 ^ 2" and "drop_bit 4 (n AND 0x30) = n div 2 ^ 4 mod 2 ^ 2"
    and "drop_bit 2 (n AND 0x3c) = n div 2 ^ 2 mod 2 ^ 4"
  by (rule drop_and_mask, simp add: mask_eq_exp_minus_1 drop_bit_eq_div)+

lemma base64_ands:
  fixes n :: nat
  shows "n AND 0x03 = n mod 2 ^ 2" and "n AND 0x0f = n mod 2 ^ 4" and "n AND 0x3f = n mod 2 ^ 6"
  by (rule and_mask_mod, simp add: mask_eq_exp_minus_1)+

lemmas base64_masks = base64_shifts base64_ands push_bit_eq_mult
lemmas encode_arith = encode_loop.simps(2-4)[unfolded base64_masks]
lemmas decode_arith = decode_chunk_def[unfolded base64_masks]

declare encode_loop.simps(2-4) [simp del] encode_arith [simp]

lemma base64_chars_pos: "map pos_of_char (base64_chars url) = map Some [0..<64]"
  unfolding base64_chars_def pos_of_char_def Let_def by (simp add: upt_rec)

lemma base64_chars_plain: "list_all (\<lambda>c. c \<noteq> CHR ''='' \<and> c \<noteq> CHR ''.'' \<and> c \<noteq> CHR 0x0A) (base64_chars url)"
  unfolding base64_chars_def by simp

lemma base64_chars_length [simp]: "length (base64_chars url) = 64"
  using arg_cong[OF base64_chars_pos, of length url] by simp

lemma pos_of_base64_char [simp]: "i < 64 \<Longrightarrow> pos_of_char (base64_chars url ! i) = Some i"
  using arg_cong[OF base64_chars_pos, of "\<lambda>xs. xs ! i" url] by simp

lemma base64_char_plain [simp]:
  assumes "i < 64"
  shows "base64_chars url ! i \<noteq> CHR ''=''" "base64_chars url ! i \<noteq> CHR ''.''" "base64_chars url ! i \<noteq> CHR 0x0A"
  using base64_chars_plain[of url] assms by (auto simp: list_all_length)

section \<open>Decoding what was encoded\<close>

lemma trailing_char_pad [simp]: "trailing_char url = CHR ''='' \<or> trailing_char url = CHR ''.''"
  by (simp add: trailing_char_def)

lemma two_digits:
  fixes k d :: nat
  assumes "k < d"
  shows "(x * d + k) div d = x" "(x * d + k) mod d = k"
  using assms by (simp_all add: div_add1_eq)

lemma base64_div_mod:
  fixes a b c :: nat
  assumes "a < 256" and "b < 256" and "c < 256"
  shows "a mod 4 * 16 < 64" "a mod 4 * 16 + b div 16 mod 16 < 64" "b mod 16 * 4 < 64"
    "b mod 16 * 4 + c div 64 mod 4 < 64"
    "a div 4 mod 64 * 4 + (a mod 4 * 16) div 16 mod 4 = a"
    "a div 4 mod 64 * 4 + (a mod 4 * 16 + b div 16 mod 16) div 16 mod 4 = a"
    "(a mod 4 * 16 + b div 16 mod 16) mod 16 * 16 + (b mod 16 * 4) div 4 mod 16 = b"
    "(a mod 4 * 16 + b div 16 mod 16) mod 16 * 16 + (b mod 16 * 4 + c div 64 mod 4) div 4 mod 16 = b"
    "(b mod 16 * 4 + c div 64 mod 4) mod 4 * 64 + c mod 64 = c"
proof -
  have lt: "a div 4 < 64" "b div 16 < 16" "c div 64 < 4" using assms by auto
  have m: "a mod 4 < 4" "b mod 16 < 16" by simp_all
  show "a mod 4 * 16 < 64" "b mod 16 * 4 < 64" using m by linarith+
  show "a mod 4 * 16 + b div 16 mod 16 < 64" "b mod 16 * 4 + c div 64 mod 4 < 64" using lt m by simp_all
  show "a div 4 mod 64 * 4 + (a mod 4 * 16) div 16 mod 4 = a" using lt by simp
  show "a div 4 mod 64 * 4 + (a mod 4 * 16 + b div 16 mod 16) div 16 mod 4 = a"
    "(a mod 4 * 16 + b div 16 mod 16) mod 16 * 16 + (b mod 16 * 4) div 4 mod 16 = b"
    "(a mod 4 * 16 + b div 16 mod 16) mod 16 * 16 + (b mod 16 * 4 + c div 64 mod 4) div 4 mod 16 = b"
    "(b mod 16 * 4 + c div 64 mod 4) mod 4 * 64 + c mod 64 = c"
    using lt by (simp_all add: two_digits)
qed

lemma decode_chunk_quad:
  assumes "\<forall>n \<in> {p0, p1, p2, p3}. n < 64"
  shows "decode_chunk (base64_chars url ! p0 # base64_chars url ! p1 # base64_chars url ! p2 # base64_chars url ! p3 # s) =
    Some [char_of (p0 * 4 + p1 div 16 mod 4), char_of (p1 mod 16 * 16 + p2 div 4 mod 16), char_of (p2 mod 4 * 64 + p3)]"
  using assms by (simp add: decode_arith str_at_def)

lemma decode_chunk_pad1:
  assumes "\<forall>n \<in> {p0, p1, p2}. n < 64"
  shows "decode_chunk [base64_chars url ! p0, base64_chars url ! p1, base64_chars url ! p2, trailing_char url] =
    Some [char_of (p0 * 4 + p1 div 16 mod 4), char_of (p1 mod 16 * 16 + p2 div 4 mod 16)]"
  using assms trailing_char_pad[of url] by (auto simp: decode_arith str_at_def simp del: trailing_char_pad)

lemma decode_chunk_pad2:
  assumes "\<forall>n \<in> {p0, p1}. n < 64"
  shows "decode_chunk [base64_chars url ! p0, base64_chars url ! p1, trailing_char url, trailing_char url] =
    Some [char_of (p0 * 4 + p1 div 16 mod 4)]"
  using assms trailing_char_pad[of url] by (auto simp: decode_arith str_at_def simp del: trailing_char_pad)

lemma decode_chunk_encoded:
  assumes "a < 256" and "b < 256" and "c < 256"
  shows "decode_chunk (encode_loop url [a]) = Some [char_of a]"
    and "decode_chunk (encode_loop url [a, b]) = Some [char_of a, char_of b]"
    and "decode_chunk (encode_loop url (a # b # c # rest)) = Some [char_of a, char_of b, char_of c]"
proof -
  note dm = base64_div_mod[OF assms]
  have lt: "a div 4 mod 64 < 64" "c mod 64 < 64" by simp_all
  have e: "encode_loop url [a] = [base64_chars url ! (a div 4 mod 64), base64_chars url ! (a mod 4 * 16), trailing_char url, trailing_char url]"
    "encode_loop url [a, b] = [base64_chars url ! (a div 4 mod 64), base64_chars url ! (a mod 4 * 16 + b div 16 mod 16),
      base64_chars url ! (b mod 16 * 4), trailing_char url]"
    "encode_loop url (a # b # c # rest) = base64_chars url ! (a div 4 mod 64) # base64_chars url ! (a mod 4 * 16 + b div 16 mod 16)
      # base64_chars url ! (b mod 16 * 4 + c div 64 mod 4) # base64_chars url ! (c mod 64) # encode_loop url rest"
    by simp_all
  show "decode_chunk (encode_loop url [a]) = Some [char_of a]"
    unfolding e by (subst decode_chunk_pad2) (use dm(1) lt in simp, simp only: dm)
  show "decode_chunk (encode_loop url [a, b]) = Some [char_of a, char_of b]"
    unfolding e by (subst decode_chunk_pad1) (use dm(2,3) lt in simp, simp only: dm)
  show "decode_chunk (encode_loop url (a # b # c # rest)) = Some [char_of a, char_of b, char_of c]"
    unfolding e by (subst decode_chunk_quad) (use dm(2,4) lt in simp, simp only: dm)
qed

lemma decode_encode_loop:
  "\<forall>n \<in> set bs. n < 256 \<Longrightarrow> decode_loop (encode_loop url bs) = Some (map char_of bs)"
proof (induction url bs rule: encode_loop.induct)
  case (1 url)
  then show ?case by (simp add: decode_loop.simps)
next
  case (2 url a)
  then show ?case using decode_chunk_encoded(1)[of a 0 0 url]
    by (subst decode_loop.simps) (simp add: decode_loop.simps[of "[]"])
next
  case (3 url a b)
  then show ?case using decode_chunk_encoded(2)[of a b 0 url]
    by (subst decode_loop.simps) (simp add: decode_loop.simps[of "[]"])
next
  case (4 url a b c rest)
  then show ?case using decode_chunk_encoded(3)[of a b c url rest]
    by (subst decode_loop.simps) simp
qed

lemma encode_loop_set:
  "\<forall>n \<in> set bs. n < 256 \<Longrightarrow> set (encode_loop url bs) \<subseteq> insert (trailing_char url) (set (base64_chars url))"
proof (induction url bs rule: encode_loop.induct)
  case (2 url a)
  then show ?case using base64_div_mod(1)[of a 0 0] by simp
next
  case (3 url a b)
  then show ?case using base64_div_mod(2,3)[of a b 0] by simp
next
  case (4 url a b c rest)
  then show ?case using base64_div_mod(2,4)[of a b c] by simp
qed simp

lemma encode_loop_no_newline: "\<forall>n \<in> set bs. n < 256 \<Longrightarrow> CHR 0x0A \<notin> set (encode_loop url bs)"
  using encode_loop_set[of bs url] base64_chars_plain[of url] by (auto simp: list_all_iff trailing_char_def split: if_splits)

lemma encode_loop_length: "length (encode_loop url bs) = (length bs + 2) div 3 * 4"
proof (induction url bs rule: encode_loop.induct)
  case (4 url a b c rest)
  have "length rest + 5 = (length rest + 2) + 1 * 3" by simp
  then have "(length rest + 5) div 3 = (length rest + 2) div 3 + 1" by simp
  then show ?case using 4 by (simp add: add.commute)
qed simp_all

lemma encode_loop_Nil: "encode_loop url bs = [] \<Longrightarrow> bs = []"
  by (induction url bs rule: encode_loop.induct) simp_all

section \<open>Line breaks\<close>

text \<open>Lines of \<open>d\<close> characters, joined by newlines.\<close>

function lines_of :: "nat \<Rightarrow> string \<Rightarrow> string" where
  "lines_of d s = (if d = 0 \<or> length s \<le> d then s else take d s @ CHR 0x0A # lines_of d (drop d s))"
  by pat_completeness auto
termination
  by (relation "measure (\<lambda>(d, s). length s)") auto

declare lines_of.simps [simp del]

lemma linebreak_loop_lines:
  assumes "0 < d"
  shows "linebreak_loop d (length pre + d) (pre @ s) = Some (pre @ lines_of d s)"
proof (induction "length s" arbitrary: pre s rule: less_induct)
  case less
  show ?case
  proof (cases "length s \<le> d")
    case True
    then show ?thesis by (subst linebreak_loop.simps) (simp add: lines_of.simps[of d s])
  next
    case False
    let ?pre = "pre @ take d s @ [CHR 0x0A]"
    have "linebreak_loop d (length ?pre + d) (?pre @ drop d s) = Some (?pre @ lines_of d (drop d s))"
      using False assms by (intro less) simp
    moreover have "length ?pre + d = length pre + d + d + 1" using False by simp
    ultimately show ?thesis using False assms
      by (subst linebreak_loop.simps) (simp add: lines_of.simps[of d s])
  qed
qed

lemma insert_linebreaks_lines: "0 < d \<Longrightarrow> insert_linebreaks s d = Some (lines_of d s)"
  using linebreak_loop_lines[of d "[]" s] by (auto simp: insert_linebreaks_def lines_of.simps[of d "[]"])

lemma lines_of_filter: "filter (\<lambda>c. c \<noteq> CHR 0x0A) (lines_of d s) = filter (\<lambda>c. c \<noteq> CHR 0x0A) s"
proof (induction d s rule: lines_of.induct)
  case (1 d s)
  show ?case
  proof (cases "d = 0 \<or> length s \<le> d")
    case False
    have "filter (\<lambda>c. c \<noteq> CHR 0x0A) (lines_of d s) =
        filter (\<lambda>c. c \<noteq> CHR 0x0A) (take d s) @ filter (\<lambda>c. c \<noteq> CHR 0x0A) (drop d s)"
      using 1[OF False] False by (simp add: lines_of.simps[of d s])
    also have "\<dots> = filter (\<lambda>c. c \<noteq> CHR 0x0A) s" by (simp flip: filter_append)
    finally show ?thesis .
  qed (simp add: lines_of.simps[of d s])
qed

section \<open>Properties\<close>

lemma decode_encoded:
  assumes "filter (\<lambda>c. c \<noteq> CHR 0x0A) t = encode_loop url (map of_char s)"
    and "b \<or> t = encode_loop url (map of_char s)"
  shows "base64_decode t b = Some s"
proof -
  have "\<forall>n \<in> set (map of_char s). n < (256 :: nat)" by simp
  note dec = decode_encode_loop[OF this, of url]
  have s: "map char_of (map of_char s :: nat list) = s" by (simp add: comp_def)
  show ?thesis
  proof (cases "t = []")
    case True
    then have "s = []" using assms(1) encode_loop_Nil[of url "map of_char s"] by simp
    then show ?thesis using True by (simp add: base64_decode_def)
  next
    case False
    have "decode_loop (if b then filter (\<lambda>c. c \<noteq> CHR 0x0A) t else t) = Some s"
      using assms dec s by (cases b) (simp_all only: if_True if_False, simp_all)
    then show ?thesis using False by (simp add: base64_decode_def)
  qed
qed

lemma encode_filter:
  "filter (\<lambda>c. c \<noteq> CHR 0x0A) (encode_loop url (map of_char s)) = encode_loop url (map of_char s)"
  by (rule filter_True) (use encode_loop_no_newline[of "map of_char s" url] in auto)

text \<open>C30. Encoding a string of less than \<open>2^32\<close> bytes with either alphabet returns a text of exactly the length the
  encoder reserves, and decoding that text, with or without the removal of line breaks, returns
  the string.\<close>

theorem base64_roundtrip:
  assumes "length s < 2 ^ 32"
  shows "\<exists>e. base64_encode s url = Some e \<and> length e = (length s + 2) div 3 * 4 \<and> base64_decode e b = Some s"
  using assms encode_loop_length[of url "map of_char s"]
    decode_encoded[OF encode_filter, of b url s] by (simp add: base64_encode_def)

theorem base64_roundtrip_witness:
  "\<exists>e. base64_encode ''NeuChain'' True = Some e \<and> length e = 12 \<and> base64_decode e False = Some ''NeuChain''"
  using base64_roundtrip[of "''NeuChain''" True False] by simp

text \<open>The PEM and MIME encodings are the plain encoding cut into lines of 64 and 76 characters joined by
  newlines; their loops end, and decoding with removal of line breaks returns the
  string.\<close>

theorem base64_lines_roundtrip:
  assumes "length s < 2 ^ 32"
  shows "\<exists>e. base64_encode s False = Some e \<and>
    base64_encode_pem s = Some (lines_of 64 e) \<and> base64_decode (lines_of 64 e) True = Some s \<and>
    base64_encode_mime s = Some (lines_of 76 e) \<and> base64_decode (lines_of 76 e) True = Some s"
proof -
  let ?e = "encode_loop False (map of_char s)"
  have "base64_decode (lines_of d ?e) True = Some s" for d
    by (rule decode_encoded) (simp_all add: lines_of_filter encode_filter)
  then show ?thesis using assms
    by (simp add: base64_encode_def base64_encode_pem_def base64_encode_mime_def encode_with_line_breaks_def
        insert_linebreaks_lines)
qed

theorem base64_lines_roundtrip_witness:
  "\<exists>e. base64_encode (replicate 100 (CHR ''x'')) False = Some e \<and>
    base64_encode_pem (replicate 100 (CHR ''x'')) = Some (lines_of 64 e) \<and>
    base64_decode (lines_of 64 e) True = Some (replicate 100 (CHR ''x'')) \<and>
    base64_encode_mime (replicate 100 (CHR ''x'')) = Some (lines_of 76 e) \<and>
    base64_decode (lines_of 76 e) True = Some (replicate 100 (CHR ''x''))"
  by (rule base64_lines_roundtrip) simp

lemma decode_chunk_SomeD:
  assumes "decode_chunk s = Some bs"
  shows "pos_of_char (str_at s 0) \<noteq> None" "pos_of_char (str_at s 1) \<noteq> None"
  using assms by (auto simp: decode_chunk_def bind_eq_Some_conv)

lemma decode_loop_SomeD:
  assumes "decode_loop s = Some r"
  shows "length s mod 4 \<noteq> 1 \<and> (\<forall>i < length s. i mod 4 < 2 \<longrightarrow> pos_of_char (s ! i) \<noteq> None)"
  using assms
proof (induction s arbitrary: r rule: decode_loop.induct)
  case (1 s)
  show ?case
  proof (cases "s = []")
    case False
    then obtain bs r' where d: "decode_chunk s = Some bs" "decode_loop (drop 4 s) = Some r'"
      using 1(2) by (subst (asm) decode_loop.simps) (auto simp: bind_eq_Some_conv)
    have IH: "length (drop 4 s) mod 4 \<noteq> 1" "\<forall>i < length (drop 4 s). i mod 4 < 2 \<longrightarrow> pos_of_char (drop 4 s ! i) \<noteq> None"
      using 1(1)[OF False d] by simp_all
    note chunk = decode_chunk_SomeD[OF d(1)]
    have one: "length s \<noteq> 1"
    proof
      assume "length s = 1"
      then have "pos_of_char (CHR 0x00) \<noteq> None" using chunk(2) by (simp add: str_at_def)
      then show False by (simp add: pos_of_char_def)
    qed
    have "length s mod 4 \<noteq> 1"
    proof (cases "4 \<le> length s")
      case True
      then show ?thesis using IH(1) by (simp add: mod_if)
    qed (use one in simp)
    moreover have "pos_of_char (s ! i) \<noteq> None" if i: "i < length s" "i mod 4 < 2" for i
    proof (cases "4 \<le> i")
      case True
      then have "i - 4 < length (drop 4 s)" "(i - 4) mod 4 < 2" "drop 4 s ! (i - 4) = s ! i"
        using i by (simp_all add: mod_if)
      then show ?thesis using IH(2) by metis
    next
      case False
      then have "i = 0 \<or> i = 1" using i(2) by auto
      then show ?thesis using chunk i(1) by (auto simp: str_at_def)
    qed
    ultimately show ?thesis by blast
  qed simp
qed

text \<open>The decoder rejects malformed text: when the length leaves a single character over after the groups of four,
  or when one of the first two characters of a group is outside both alphabets, \<open>base64_decode\<close> throws
  instead of returning bytes.\<close>

theorem base64_decode_rejects:
  assumes "length s mod 4 = 1 \<or> (\<exists>i < length s. i mod 4 < 2 \<and> pos_of_char (s ! i) = None)"
  shows "base64_decode s False = None"
proof (rule ccontr)
  assume "base64_decode s False \<noteq> None"
  moreover have "s \<noteq> []" using assms by auto
  ultimately obtain r where "decode_loop s = Some r" by (auto simp: base64_decode_def)
  then show False using decode_loop_SomeD[of s r] assms by auto
qed

theorem base64_decode_rejects_witness:
  "base64_decode ''QUJDR'' False = None \<and> base64_decode ''Q!JD'' False = None"
proof
  show "base64_decode ''QUJDR'' False = None" by (rule base64_decode_rejects) simp
  show "base64_decode ''Q!JD'' False = None"
    by (rule base64_decode_rejects, rule disjI2, rule exI[of _ 1]) (simp add: pos_of_char_def)
qed

end
