(* ===== verification/Mpmc_Queue.thy ===== *)
theory Mpmc_Queue
  imports Neu_Prelude
begin

text \<open>
  The bounded queue for many producers and many consumers of \<open>common/concurrent_queue/mpmc_queue.h\<close>, through which the threads
  of a server pass batches, messages and transactions.

  The queue is a ring of slots. A producer takes a ticket from \<open>head_\<close>, a consumer one from \<open>tail_\<close>; the ticket gives the slot and the
  turn of the slot for which the thread waits. Each step of the model is one access to shared memory: to \<open>head_\<close>, to \<open>tail_\<close>,
  to the turn of a slot, or to its storage; the steps of the threads are interleaved freely. \<open>None\<close> in \<open>sl_storage\<close> is raw
  memory, and using it as an object, or constructing an object over a living one, sets \<open>mq_bad\<close>.

  \<open>mq_ins\<close> records the pushed values in the order of the tickets, \<open>mq_taken\<close> counts the tickets of the consumers, \<open>mq_outs\<close> has the tickets and values of the finished pops, and \<open>mq_ret\<close> what
  each operation returned; they are read by no operation. The counters are 64 bits wide. The atomic accesses are sequentially consistent
  here; the code uses acquire and release, which order the accesses to the storage of a slot by its turn.
\<close>

section \<open>Slots, tickets and threads\<close>

record 'a slot =
  sl_turn :: nat
  sl_storage :: "'a option"

datatype 'a mq_pc =
    Idle
  | E_Spin nat 'a | E_Construct nat 'a | E_Store nat
  | TE_Load 'a | TE_Turn nat 'a | TE_Cas nat 'a | TE_Reload nat 'a
  | P_Spin nat | P_Move nat | P_Destroy nat 'a | P_Store nat 'a
  | TP_Load | TP_Turn nat | TP_Cas nat | TP_Reload nat

datatype 'a mq_result = Pushed bool | Popped "'a option"

record 'a mpmc =
  mq_capacity :: nat
  mq_slots :: "nat \<Rightarrow> 'a slot"
  mq_head :: nat
  mq_tail :: nat
  mq_pc :: "nat \<Rightarrow> 'a mq_pc"
  mq_ins :: "'a list"
  mq_outs :: "(nat \<times> 'a) list"
  mq_taken :: nat
  mq_ret :: "nat \<Rightarrow> 'a mq_result option"
  mq_bad :: bool

definition size_max :: nat where
  "size_max = 2 ^ 64"

definition mq_idx :: "'a mpmc \<Rightarrow> nat \<Rightarrow> nat" where
  "mq_idx s i = i mod mq_capacity s"

definition mq_turn :: "'a mpmc \<Rightarrow> nat \<Rightarrow> nat" where
  "mq_turn s i = i div mq_capacity s"

abbreviation slot_of :: "'a mpmc \<Rightarrow> nat \<Rightarrow> 'a slot" where
  "slot_of s i \<equiv> mq_slots s (mq_idx s i)"

text \<open>The values the turn of a slot is compared with and set to.\<close>

definition turn_push :: "'a mpmc \<Rightarrow> nat \<Rightarrow> nat" where
  "turn_push s i = mq_turn s i * 2 mod size_max"

definition turn_full :: "'a mpmc \<Rightarrow> nat \<Rightarrow> nat" where
  "turn_full s i = (mq_turn s i * 2 + 1) mod size_max"

definition turn_free :: "'a mpmc \<Rightarrow> nat \<Rightarrow> nat" where
  "turn_free s i = (mq_turn s i * 2 + 2) mod size_max"

text \<open>The constructor throws for capacity 0.\<close>

definition newQueue :: "nat \<Rightarrow> 'a mpmc option" where
  "newQueue capacity =
     (if capacity < 1 then None
      else Some \<lparr>mq_capacity = capacity, mq_slots = (\<lambda>_. \<lparr>sl_turn = 0, sl_storage = None\<rparr>), mq_head = 0, mq_tail = 0,
        mq_pc = (\<lambda>_. Idle), mq_ins = [], mq_outs = [], mq_taken = 0, mq_ret = (\<lambda>_. None), mq_bad = False\<rparr>)"

definition goto :: "nat \<Rightarrow> 'a mq_pc \<Rightarrow> 'a mpmc \<Rightarrow> 'a mpmc" where
  "goto t p s = s\<lparr>mq_pc := (mq_pc s)(t := p)\<rparr>"

definition finish :: "nat \<Rightarrow> 'a mq_result \<Rightarrow> 'a mpmc \<Rightarrow> 'a mpmc" where
  "finish t r s = s\<lparr>mq_pc := (mq_pc s)(t := Idle), mq_ret := (mq_ret s)(t \<mapsto> r)\<rparr>"

definition sl_construct :: "nat \<Rightarrow> 'a \<Rightarrow> 'a mpmc \<Rightarrow> 'a mpmc" where
  "sl_construct i v s =
     s\<lparr>mq_slots := (mq_slots s)(mq_idx s i := (slot_of s i)\<lparr>sl_storage := Some v\<rparr>),
       mq_bad := mq_bad s \<or> sl_storage (slot_of s i) \<noteq> None\<rparr>"

definition sl_destroy :: "nat \<Rightarrow> 'a mpmc \<Rightarrow> 'a mpmc" where
  "sl_destroy i s =
     s\<lparr>mq_slots := (mq_slots s)(mq_idx s i := (slot_of s i)\<lparr>sl_storage := None\<rparr>),
       mq_bad := mq_bad s \<or> sl_storage (slot_of s i) = None\<rparr>"

definition sl_store_turn :: "nat \<Rightarrow> nat \<Rightarrow> 'a mpmc \<Rightarrow> 'a mpmc" where
  "sl_store_turn i n s = s\<lparr>mq_slots := (mq_slots s)(mq_idx s i := (slot_of s i)\<lparr>sl_turn := n\<rparr>)\<rparr>"

definition take_head :: "'a \<Rightarrow> 'a mpmc \<Rightarrow> 'a mpmc" where
  "take_head v s = s\<lparr>mq_head := (mq_head s + 1) mod size_max, mq_ins := mq_ins s @ [v]\<rparr>"

definition take_tail :: "'a mpmc \<Rightarrow> 'a mpmc" where
  "take_tail s = s\<lparr>mq_tail := (mq_tail s + 1) mod size_max, mq_taken := mq_taken s + 1\<rparr>"

section \<open>Operations\<close>

text \<open>The first access of \<open>push\<close>, \<open>try_push\<close>, \<open>pop\<close> and \<open>try_pop\<close>; the blocking ones take their ticket at once.\<close>

definition mq_push :: "nat \<Rightarrow> 'a \<Rightarrow> 'a mpmc \<Rightarrow> 'a mpmc" where
  "mq_push t v s = goto t (E_Spin (mq_head s) v) (take_head v s)"

definition mq_try_push :: "nat \<Rightarrow> 'a \<Rightarrow> 'a mpmc \<Rightarrow> 'a mpmc" where
  "mq_try_push t v s = goto t (TE_Load v) s"

definition mq_pop :: "nat \<Rightarrow> 'a mpmc \<Rightarrow> 'a mpmc" where
  "mq_pop t s = goto t (P_Spin (mq_tail s)) (take_tail s)"

definition mq_try_pop :: "nat \<Rightarrow> 'a mpmc \<Rightarrow> 'a mpmc" where
  "mq_try_pop t s = goto t TP_Load s"

text \<open>The rest of an operation. A thread whose turn has not come stays where it is. Constructing and handing over, moving, destroying and handing
  back are shared by the blocking operations and those that try.\<close>

definition emplace :: "nat \<Rightarrow> 'a mpmc \<Rightarrow> 'a mpmc" where
  "emplace t s =
     (case mq_pc s t of
        E_Spin i v \<Rightarrow> if turn_push s i \<noteq> sl_turn (slot_of s i) then s else goto t (E_Construct i v) s
      | E_Construct i v \<Rightarrow> goto t (E_Store i) (sl_construct i v s)
      | E_Store i \<Rightarrow> finish t (Pushed True) (sl_store_turn i (turn_full s i) s)
      | _ \<Rightarrow> s)"

definition try_emplace :: "nat \<Rightarrow> 'a mpmc \<Rightarrow> 'a mpmc" where
  "try_emplace t s =
     (case mq_pc s t of
        TE_Load v \<Rightarrow> goto t (TE_Turn (mq_head s) v) s
      | TE_Turn i v \<Rightarrow> if turn_push s i = sl_turn (slot_of s i) then goto t (TE_Cas i v) s else goto t (TE_Reload i v) s
      | TE_Cas i v \<Rightarrow>
          if mq_head s = i then goto t (E_Construct i v) (take_head v s) else goto t (TE_Turn (mq_head s) v) s
      | TE_Reload i v \<Rightarrow> if mq_head s = i then finish t (Pushed False) s else goto t (TE_Turn (mq_head s) v) s
      | _ \<Rightarrow> s)"

definition pop :: "nat \<Rightarrow> 'a mpmc \<Rightarrow> 'a mpmc" where
  "pop t s =
     (case mq_pc s t of
        P_Spin j \<Rightarrow> if turn_full s j \<noteq> sl_turn (slot_of s j) then s else goto t (P_Move j) s
      | P_Move j \<Rightarrow>
          (case sl_storage (slot_of s j) of
             Some v \<Rightarrow> goto t (P_Destroy j v) s
           | None \<Rightarrow> s\<lparr>mq_bad := True\<rparr>)
      | P_Destroy j v \<Rightarrow> goto t (P_Store j v) (sl_destroy j s)
      | P_Store j v \<Rightarrow>
          finish t (Popped (Some v)) (sl_store_turn j (turn_free s j) (s\<lparr>mq_outs := mq_outs s @ [(j, v)]\<rparr>))
      | _ \<Rightarrow> s)"

definition try_pop :: "nat \<Rightarrow> 'a mpmc \<Rightarrow> 'a mpmc" where
  "try_pop t s =
     (case mq_pc s t of
        TP_Load \<Rightarrow> goto t (TP_Turn (mq_tail s)) s
      | TP_Turn j \<Rightarrow> if turn_full s j = sl_turn (slot_of s j) then goto t (TP_Cas j) s else goto t (TP_Reload j) s
      | TP_Cas j \<Rightarrow> if mq_tail s = j then goto t (P_Move j) (take_tail s) else goto t (TP_Turn (mq_tail s)) s
      | TP_Reload j \<Rightarrow> if mq_tail s = j then finish t (Popped None) s else goto t (TP_Turn (mq_tail s)) s
      | _ \<Rightarrow> s)"

definition mq_next :: "nat \<Rightarrow> 'a mpmc \<Rightarrow> 'a mpmc" where
  "mq_next t s =
     (case mq_pc s t of
        Idle \<Rightarrow> s
      | E_Spin _ _ \<Rightarrow> emplace t s | E_Construct _ _ \<Rightarrow> emplace t s | E_Store _ \<Rightarrow> emplace t s
      | TE_Load _ \<Rightarrow> try_emplace t s | TE_Turn _ _ \<Rightarrow> try_emplace t s
      | TE_Cas _ _ \<Rightarrow> try_emplace t s | TE_Reload _ _ \<Rightarrow> try_emplace t s
      | P_Spin _ \<Rightarrow> pop t s | P_Move _ \<Rightarrow> pop t s | P_Destroy _ _ \<Rightarrow> pop t s | P_Store _ _ \<Rightarrow> pop t s
      | TP_Load \<Rightarrow> try_pop t s | TP_Turn _ \<Rightarrow> try_pop t s | TP_Cas _ \<Rightarrow> try_pop t s | TP_Reload _ \<Rightarrow> try_pop t s)"

text \<open>The destructor destroys the objects in the slots whose turn is odd.\<close>

definition slot_delete :: "nat \<Rightarrow> 'a mpmc \<Rightarrow> 'a mpmc" where
  "slot_delete k s = (if odd (sl_turn (slot_of s k)) then sl_destroy k s else s)"

definition queue_delete :: "'a mpmc \<Rightarrow> 'a mpmc" where
  "queue_delete s = fold slot_delete [0..<mq_capacity s] s"

inductive mq_step :: "'a mpmc \<Rightarrow> 'a mpmc \<Rightarrow> bool" where
  start_push: "mq_pc s t = Idle \<Longrightarrow> mq_step s (mq_push t v s)"
| start_try_push: "mq_pc s t = Idle \<Longrightarrow> mq_step s (mq_try_push t v s)"
| start_pop: "mq_pc s t = Idle \<Longrightarrow> mq_step s (mq_pop t s)"
| start_try_pop: "mq_pc s t = Idle \<Longrightarrow> mq_step s (mq_try_pop t s)"
| proceed: "mq_step s (mq_next t s)"

section \<open>Tickets\<close>

text \<open>The turn of its slot tells how far a ticket has come: \<open>at_push\<close> while its producer may write, \<open>at_pop\<close> while its consumer
  may read.\<close>

fun in_ticket :: "'a mq_pc \<Rightarrow> nat option" where
  "in_ticket (E_Spin i v) = Some i"
| "in_ticket (E_Construct i v) = Some i"
| "in_ticket (E_Store i) = Some i"
| "in_ticket _ = None"

fun out_ticket :: "'a mq_pc \<Rightarrow> nat option" where
  "out_ticket (P_Spin j) = Some j"
| "out_ticket (P_Move j) = Some j"
| "out_ticket (P_Destroy j v) = Some j"
| "out_ticket (P_Store j v) = Some j"
| "out_ticket _ = None"

definition pdone :: "'a mpmc \<Rightarrow> nat \<Rightarrow> bool" where
  "pdone s i \<longleftrightarrow> 2 * mq_turn s i < sl_turn (slot_of s i)"

definition qdone :: "'a mpmc \<Rightarrow> nat \<Rightarrow> bool" where
  "qdone s i \<longleftrightarrow> 2 * mq_turn s i + 1 < sl_turn (slot_of s i)"

definition at_push :: "'a mpmc \<Rightarrow> nat \<Rightarrow> bool" where
  "at_push s i \<longleftrightarrow> sl_turn (slot_of s i) = 2 * mq_turn s i"

definition at_pop :: "'a mpmc \<Rightarrow> nat \<Rightarrow> bool" where
  "at_pop s i \<longleftrightarrow> sl_turn (slot_of s i) = 2 * mq_turn s i + 1"

definition small :: "'a mpmc \<Rightarrow> bool" where
  "small s \<longleftrightarrow> length (mq_ins s) < 2 ^ 63 \<and> mq_taken s < 2 ^ 63"

lemmas ticket_defs = pdone_def qdone_def at_push_def at_pop_def mq_turn_def mq_idx_def

lemmas mq_acts = goto_def finish_def sl_construct_def sl_destroy_def sl_store_turn_def take_head_def take_tail_def

lemma ticket_eq: "mq_idx s i = mq_idx s x \<Longrightarrow> mq_turn s i = mq_turn s x \<Longrightarrow> i = x"
  unfolding mq_idx_def mq_turn_def by (metis div_mult_mod_eq)

text \<open>The view depends on nothing but the turns.\<close>

lemma view_cong:
  assumes "mq_capacity s' = mq_capacity s" and "\<And>k. sl_turn (mq_slots s' k) = sl_turn (mq_slots s k)"
  shows "pdone s' = pdone s" and "qdone s' = qdone s" and "at_push s' = at_push s" and "at_pop s' = at_pop s"
  using assms by (auto simp: ticket_defs fun_eq_iff)

lemma view_slot:
  assumes "mq_capacity s' = mq_capacity s" and "mq_slots s' = (mq_slots s)(mq_idx s i := (slot_of s i)\<lparr>sl_turn := n\<rparr>)"
  shows "sl_turn (slot_of s' x) = (if mq_idx s x = mq_idx s i then n else sl_turn (slot_of s x))" and "mq_turn s' x = mq_turn s x"
  using assms by (simp_all add: mq_idx_def mq_turn_def)

lemma view_full:
  assumes "at_push s i"
    and "mq_capacity s' = mq_capacity s" and "mq_slots s' = (mq_slots s)(mq_idx s i := (slot_of s i)\<lparr>sl_turn := 2 * mq_turn s i + 1\<rparr>)"
  shows "pdone s' x \<longleftrightarrow> pdone s x \<or> x = i" and "qdone s' x \<longleftrightarrow> qdone s x"
    and "at_push s' x \<longleftrightarrow> at_push s x \<and> x \<noteq> i" and "at_pop s' x \<longleftrightarrow> at_pop s x \<or> x = i"
proof -
  define same where "same \<longleftrightarrow> mq_idx s x = mq_idx s i"
  define q where "q = mq_turn s x"
  define r where "r = mq_turn s i"
  define n where "n = sl_turn (slot_of s x)"
  have new: "sl_turn (slot_of s' x) = (if same then 2 * r + 1 else n)" "mq_turn s' x = q"
    using view_slot[OF assms(2,3), of x] by (simp_all add: same_def q_def r_def n_def)
  have old: "same \<longrightarrow> n = 2 * r" using assms(1) by (simp add: same_def n_def r_def at_push_def)
  have eq: "x = i \<longleftrightarrow> same \<and> q = r" using ticket_eq[of s x i] by (auto simp: same_def q_def r_def)
  have v: "pdone s x \<longleftrightarrow> 2 * q < n" "qdone s x \<longleftrightarrow> 2 * q + 1 < n" "at_push s x \<longleftrightarrow> n = 2 * q" "at_pop s x \<longleftrightarrow> n = 2 * q + 1"
    by (simp_all add: pdone_def qdone_def at_push_def at_pop_def q_def n_def)
  show "pdone s' x \<longleftrightarrow> pdone s x \<or> x = i" "qdone s' x \<longleftrightarrow> qdone s x"
    "at_push s' x \<longleftrightarrow> at_push s x \<and> x \<noteq> i" "at_pop s' x \<longleftrightarrow> at_pop s x \<or> x = i"
    unfolding pdone_def[of s'] qdone_def[of s'] at_push_def[of s'] at_pop_def[of s'] new v eq same_def[symmetric] q_def[symmetric] r_def[symmetric]
    using old by presburger+
qed

lemma view_free:
  assumes "at_pop s i"
    and "mq_capacity s' = mq_capacity s" and "mq_slots s' = (mq_slots s)(mq_idx s i := (slot_of s i)\<lparr>sl_turn := 2 * mq_turn s i + 2\<rparr>)"
  shows "pdone s' x \<longleftrightarrow> pdone s x" and "qdone s' x \<longleftrightarrow> qdone s x \<or> x = i"
    and "at_push s' x \<longleftrightarrow> at_push s x \<or> (mq_idx s x = mq_idx s i \<and> mq_turn s x = mq_turn s i + 1)"
    and "at_pop s' x \<longleftrightarrow> at_pop s x \<and> x \<noteq> i"
proof -
  define same where "same \<longleftrightarrow> mq_idx s x = mq_idx s i"
  define q where "q = mq_turn s x"
  define r where "r = mq_turn s i"
  define n where "n = sl_turn (slot_of s x)"
  have new: "sl_turn (slot_of s' x) = (if same then 2 * r + 2 else n)" "mq_turn s' x = q"
    using view_slot[OF assms(2,3), of x] by (simp_all add: same_def q_def r_def n_def)
  have old: "same \<longrightarrow> n = 2 * r + 1" using assms(1) by (simp add: same_def n_def r_def at_pop_def)
  have eq: "x = i \<longleftrightarrow> same \<and> q = r" using ticket_eq[of s x i] by (auto simp: same_def q_def r_def)
  have v: "pdone s x \<longleftrightarrow> 2 * q < n" "qdone s x \<longleftrightarrow> 2 * q + 1 < n" "at_push s x \<longleftrightarrow> n = 2 * q" "at_pop s x \<longleftrightarrow> n = 2 * q + 1"
    by (simp_all add: pdone_def qdone_def at_push_def at_pop_def q_def n_def)
  show "pdone s' x \<longleftrightarrow> pdone s x" "qdone s' x \<longleftrightarrow> qdone s x \<or> x = i"
    "at_push s' x \<longleftrightarrow> at_push s x \<or> (mq_idx s x = mq_idx s i \<and> mq_turn s x = mq_turn s i + 1)"
    "at_pop s' x \<longleftrightarrow> at_pop s x \<and> x \<noteq> i"
    unfolding pdone_def[of s'] qdone_def[of s'] at_push_def[of s'] at_pop_def[of s'] new v eq same_def[symmetric] q_def[symmetric] r_def[symmetric]
    using old by presburger+
qed

lemma view_order:
  "at_push s i \<Longrightarrow> \<not> pdone s i" "at_pop s i \<Longrightarrow> pdone s i" "at_pop s i \<Longrightarrow> \<not> qdone s i" "qdone s i \<Longrightarrow> pdone s i"
  by (simp_all add: pdone_def qdone_def at_push_def at_pop_def)

lemma view_parity: "at_push s i \<Longrightarrow> at_pop s x \<Longrightarrow> mq_idx s x \<noteq> mq_idx s i"
proof
  assume a: "at_push s i" "at_pop s x" "mq_idx s x = mq_idx s i"
  then have "2 * mq_turn s i = 2 * mq_turn s x + 1" by (simp add: at_push_def at_pop_def)
  then show False by presburger
qed

lemma view_unique:
  assumes "mq_idx s x = mq_idx s i"
  shows "at_push s i \<Longrightarrow> at_push s x \<Longrightarrow> x = i" and "at_pop s i \<Longrightarrow> at_pop s x \<Longrightarrow> x = i"
  by (rule ticket_eq[OF assms], simp add: at_push_def assms, rule ticket_eq[OF assms], simp add: at_pop_def assms)

lemma turn_small:
  assumes "i < 2 ^ 63"
  shows "turn_push s i = 2 * mq_turn s i" and "turn_full s i = 2 * mq_turn s i + 1"
    and "i < 2 ^ 63 - 1 \<Longrightarrow> turn_free s i = 2 * mq_turn s i + 2"
proof -
  have "mq_turn s i \<le> i" by (simp add: mq_turn_def)
  then show "turn_push s i = 2 * mq_turn s i" "turn_full s i = 2 * mq_turn s i + 1"
    "i < 2 ^ 63 - 1 \<Longrightarrow> turn_free s i = 2 * mq_turn s i + 2"
    using assms by (simp_all add: turn_push_def turn_full_def turn_free_def size_max_def)
qed

section \<open>The invariant\<close>

fun pc_ok :: "'a mpmc \<Rightarrow> 'a mq_pc \<Rightarrow> bool" where
  "pc_ok s (E_Spin i v) \<longleftrightarrow> i < length (mq_ins s) \<and> mq_ins s ! i = v"
| "pc_ok s (E_Construct i v) \<longleftrightarrow> i < length (mq_ins s) \<and> mq_ins s ! i = v \<and> at_push s i"
| "pc_ok s (E_Store i) \<longleftrightarrow> i < length (mq_ins s) \<and> at_push s i"
| "pc_ok s (TE_Turn i v) \<longleftrightarrow> i \<le> length (mq_ins s)"
| "pc_ok s (TE_Cas i v) \<longleftrightarrow> i \<le> length (mq_ins s) \<and> (i = length (mq_ins s) \<longrightarrow> at_push s i)"
| "pc_ok s (TE_Reload i v) \<longleftrightarrow> i \<le> length (mq_ins s)"
| "pc_ok s (P_Spin j) \<longleftrightarrow> j < mq_taken s"
| "pc_ok s (P_Move j) \<longleftrightarrow> j < mq_taken s \<and> at_pop s j"
| "pc_ok s (P_Destroy j v) \<longleftrightarrow> j < mq_taken s \<and> at_pop s j \<and> mq_ins s ! j = v"
| "pc_ok s (P_Store j v) \<longleftrightarrow> j < mq_taken s \<and> at_pop s j \<and> mq_ins s ! j = v"
| "pc_ok s (TP_Turn j) \<longleftrightarrow> j \<le> mq_taken s"
| "pc_ok s (TP_Cas j) \<longleftrightarrow> j \<le> mq_taken s \<and> (j = mq_taken s \<longrightarrow> at_pop s j)"
| "pc_ok s (TP_Reload j) \<longleftrightarrow> j \<le> mq_taken s"
| "pc_ok s _ \<longleftrightarrow> True"

definition counters_ok :: "'a mpmc \<Rightarrow> bool" where
  "counters_ok s \<longleftrightarrow> 0 < mq_capacity s \<and> mq_head s = length (mq_ins s) \<and> mq_tail s = mq_taken s \<and> \<not> mq_bad s"

definition in_ok :: "'a mpmc \<Rightarrow> bool" where
  "in_ok s \<longleftrightarrow>
     (\<forall>i. pdone s i \<longleftrightarrow> i < length (mq_ins s) \<and> (\<forall>t. in_ticket (mq_pc s t) \<noteq> Some i)) \<and>
     (\<forall>t u i. in_ticket (mq_pc s t) = Some i \<longrightarrow> in_ticket (mq_pc s u) = Some i \<longrightarrow> t = u)"

definition out_ok :: "'a mpmc \<Rightarrow> bool" where
  "out_ok s \<longleftrightarrow>
     (\<forall>j. qdone s j \<longleftrightarrow> j < mq_taken s \<and> (\<forall>t. out_ticket (mq_pc s t) \<noteq> Some j)) \<and>
     (\<forall>t u j. out_ticket (mq_pc s t) = Some j \<longrightarrow> out_ticket (mq_pc s u) = Some j \<longrightarrow> t = u)"

definition storage_ok :: "'a mpmc \<Rightarrow> bool" where
  "storage_ok s \<longleftrightarrow>
     (\<forall>i. at_push s i \<longrightarrow> sl_storage (slot_of s i) = (if \<exists>t. mq_pc s t = E_Store i then Some (mq_ins s ! i) else None)) \<and>
     (\<forall>j. at_pop s j \<longrightarrow> sl_storage (slot_of s j) = (if \<exists>t v. mq_pc s t = P_Store j v then None else Some (mq_ins s ! j)))"

definition outs_ok :: "'a mpmc \<Rightarrow> bool" where
  "outs_ok s \<longleftrightarrow> distinct (map fst (mq_outs s)) \<and> set (mq_outs s) = (\<lambda>j. (j, mq_ins s ! j)) ` {j. qdone s j}"

definition mq_inv :: "'a mpmc \<Rightarrow> bool" where
  "mq_inv s \<longleftrightarrow> counters_ok s \<and> (\<forall>t. pc_ok s (mq_pc s t)) \<and> in_ok s \<and> out_ok s \<and> storage_ok s \<and> outs_ok s"

section \<open>Each kind of access keeps the invariant\<close>

lemma pc_ok_cong:
  assumes "mq_ins s' = mq_ins s" and "mq_taken s' = mq_taken s" and "at_push s' = at_push s" and "at_pop s' = at_pop s"
  shows "pc_ok s' p = pc_ok s p"
  using assms by (cases p) simp_all

lemma ticket_upd:
  "in_ticket p = in_ticket (pc t) \<Longrightarrow> in_ticket ((pc(t := p)) u) = in_ticket (pc u)"
  "out_ticket p = out_ticket (pc t) \<Longrightarrow> out_ticket ((pc(t := p)) u) = out_ticket (pc u)"
  by simp_all

fun storing :: "'a mq_pc \<Rightarrow> bool" where
  "storing (E_Store i) = True"
| "storing (P_Store j v) = True"
| "storing _ = False"

lemma ex_upd:
  assumes "\<forall>v. f t \<noteq> g v"
  shows "(\<exists>u v. (f(t := p)) u = g v) \<longleftrightarrow> (\<exists>v. p = g v) \<or> (\<exists>u v. f u = g v)"
proof
  assume "\<exists>u v. (f(t := p)) u = g v"
  then obtain u v where "(f(t := p)) u = g v" by blast
  then show "(\<exists>v. p = g v) \<or> (\<exists>u v. f u = g v)" by (cases "u = t") auto
next
  assume "(\<exists>v. p = g v) \<or> (\<exists>u v. f u = g v)"
  then show "\<exists>u v. (f(t := p)) u = g v"
  proof
    assume "\<exists>v. p = g v"
    then show ?thesis by (intro exI[of _ t]) simp
  next
    assume "\<exists>u v. f u = g v"
    then obtain u v where "f u = g v" by blast
    then show ?thesis using assms by (intro exI[of _ u] exI[of _ v]) auto
  qed
qed

lemma storing_upd:
  assumes "\<not> storing (pc t)"
  shows "(\<exists>u. (pc(t := p)) u = E_Store i) \<longleftrightarrow> p = E_Store i \<or> (\<exists>u. pc u = E_Store i)"
    and "(\<exists>u v. (pc(t := p)) u = P_Store i v) \<longleftrightarrow> (\<exists>v. p = P_Store i v) \<or> (\<exists>u v. pc u = P_Store i v)"
proof -
  have n: "pc t \<noteq> E_Store i" "\<forall>v. pc t \<noteq> P_Store i v" using assms by auto
  show "(\<exists>u. (pc(t := p)) u = E_Store i) \<longleftrightarrow> p = E_Store i \<or> (\<exists>u. pc u = E_Store i)" 
    using ex_upd[of pc t "\<lambda>_. E_Store i" p] n(1) by simp
  show "(\<exists>u v. (pc(t := p)) u = P_Store i v) \<longleftrightarrow> (\<exists>v. p = P_Store i v) \<or> (\<exists>u v. pc u = P_Store i v)" 
    using ex_upd[of pc t "P_Store i" p] n(2) by simp
qed

lemma storing_ticket: "in_ticket p = None \<Longrightarrow> out_ticket p = None \<Longrightarrow> \<not> storing p"
  by (cases p) simp_all

lemma inv_parts:
  assumes "mq_inv s"
  shows "counters_ok s" "pc_ok s (mq_pc s t)" "in_ok s" "out_ok s" "storage_ok s" "outs_ok s" "mq_head s = length (mq_ins s)" "mq_tail s = mq_taken s"
    "pdone s i \<Longrightarrow> i < length (mq_ins s)" "qdone s i \<Longrightarrow> i < mq_taken s"
    "in_ticket (mq_pc s t) = Some i \<Longrightarrow> i < length (mq_ins s)" "out_ticket (mq_pc s t) = Some i \<Longrightarrow> i < mq_taken s"
proof -
  show p: "pc_ok s (mq_pc s t)" and c: "counters_ok s" and i: "in_ok s" and o: "out_ok s" and "storage_ok s" "outs_ok s"
    using assms by (simp_all add: mq_inv_def)
  show "mq_head s = length (mq_ins s)" "mq_tail s = mq_taken s" using c by (simp_all add: counters_ok_def)
  show "pdone s i \<Longrightarrow> i < length (mq_ins s)" "qdone s i \<Longrightarrow> i < mq_taken s" using i o by (simp_all add: in_ok_def out_ok_def)
  show "in_ticket (mq_pc s t) = Some i \<Longrightarrow> i < length (mq_ins s)" "out_ticket (mq_pc s t) = Some i \<Longrightarrow> i < mq_taken s"
    using p by (cases "mq_pc s t"; simp)+
qed

text \<open>A thread moves on without touching the queue.\<close>

lemma inv_move:
  assumes inv: "mq_inv s" and p: "in_ticket p = in_ticket (mq_pc s t)" "out_ticket p = out_ticket (mq_pc s t)" "pc_ok s p"
    and n: "\<not> storing (mq_pc s t)" "\<not> storing p"
  shows "mq_inv (s\<lparr>mq_pc := (mq_pc s)(t := p), mq_ret := r\<rparr>)"
proof -
  let ?s = "s\<lparr>mq_pc := (mq_pc s)(t := p), mq_ret := r\<rparr>"
  have v: "pdone ?s = pdone s" "qdone ?s = qdone s" "at_push ?s = at_push s" "at_pop ?s = at_pop s" by (rule view_cong; simp)+
  have sel: "mq_idx ?s = mq_idx s" "mq_ins ?s = mq_ins s" "mq_taken ?s = mq_taken s" "mq_slots ?s = mq_slots s"
    "mq_pc ?s = (mq_pc s)(t := p)" "mq_outs ?s = mq_outs s" by (simp_all add: mq_idx_def fun_eq_iff)
  note tk = ticket_upd(1)[where pc = "mq_pc s", OF p(1)] ticket_upd(2)[where pc = "mq_pc s", OF p(2)]
  have "\<forall>u. pc_ok ?s (mq_pc ?s u)" using inv p(3) pc_ok_cong[of ?s s] v by (simp add: mq_inv_def)
  moreover have "in_ok ?s" "out_ok ?s" using inv_parts(3,4)[OF inv] unfolding in_ok_def out_ok_def v sel tk by simp_all
  moreover have "storage_ok ?s" using inv_parts(5)[OF inv] unfolding storage_ok_def v sel storing_upd[where pc = "mq_pc s", OF n(1)] using n(2) by auto
  moreover have "outs_ok ?s" "counters_ok ?s" using inv unfolding mq_inv_def outs_ok_def counters_ok_def v by simp_all
  ultimately show ?thesis by (simp add: mq_inv_def)
qed

lemma inv_goto:
  assumes "mq_inv s" and "in_ticket p = in_ticket (mq_pc s t)" and "out_ticket p = out_ticket (mq_pc s t)" and "pc_ok s p"
    and "\<not> storing (mq_pc s t)" and "\<not> storing p"
  shows "mq_inv (goto t p s)"
proof -
  have "goto t p s = s\<lparr>mq_pc := (mq_pc s)(t := p), mq_ret := mq_ret s\<rparr>" by (simp add: goto_def)
  then show ?thesis using inv_move[OF assms, of "mq_ret s"] by simp
qed

text \<open>A producer takes the next ticket.\<close>

lemma inv_take_head:
  assumes inv: "mq_inv s" and p: "in_ticket (mq_pc s t) = None" "out_ticket (mq_pc s t) = None"
    and q: "q = E_Spin (mq_head s) v \<or> q = E_Construct (mq_head s) v \<and> at_push s (mq_head s)"
    and small: "small (take_head v s)"
  shows "mq_inv (goto t q (take_head v s))"
proof -
  let ?s = "goto t q (take_head v s)" and ?n = "length (mq_ins s)"
  note h = inv_parts(7)[OF inv]
  have v: "pdone ?s = pdone s" "qdone ?s = qdone s" "at_push ?s = at_push s" "at_pop ?s = at_pop s" by (rule view_cong; simp add: mq_acts)+
  have sel: "mq_ins ?s = mq_ins s @ [v]" "mq_taken ?s = mq_taken s" "mq_pc ?s = (mq_pc s)(t := q)" "mq_outs ?s = mq_outs s"
    "mq_slots ?s = mq_slots s" "mq_idx ?s = mq_idx s" by (simp_all add: mq_acts mq_idx_def fun_eq_iff)
  have tk: "in_ticket q = Some ?n" "out_ticket q = out_ticket (mq_pc s t)" "\<not> storing q" "\<not> storing (mq_pc s t)"
    using q h p storing_ticket[OF p] by auto
  have pop: "at_pop s i \<Longrightarrow> i < ?n" "qdone s i \<Longrightarrow> i < ?n" for i using view_order(2,4)[of s i] inv_parts(9)[OF inv] by blast+
  have stored: "mq_pc s u = E_Store i \<Longrightarrow> i < ?n" for u i using inv_parts(11)[OF inv, of u i] by simp
  have "counters_ok ?s" using inv_parts(1)[OF inv] small by (simp add: counters_ok_def mq_acts small_def size_max_def)
  moreover have "pc_ok ?s (mq_pc ?s u)" for u
    using q h v(3,4) sel pop inv_parts(2)[OF inv, of u] by (cases "u = t"; cases "mq_pc s u") (auto simp: nth_append)
  moreover have "in_ok ?s"
    using inv_parts(3)[OF inv] inv_parts(9,11)[OF inv] p(1) tk(1) unfolding in_ok_def v sel
    by (auto simp: less_Suc_eq split: if_splits)
  moreover have "out_ok ?s" using inv_parts(4)[OF inv] unfolding out_ok_def v sel ticket_upd(2)[where pc = "mq_pc s", OF tk(2)] by simp
  moreover have "storage_ok ?s"
    using inv_parts(5)[OF inv] pop stored unfolding storage_ok_def v sel storing_upd[where pc = "mq_pc s", OF tk(4)]
    using tk(3) by (auto simp: nth_append)
  moreover have "outs_ok ?s"
    using inv_parts(6)[OF inv] pop unfolding outs_ok_def v sel by (auto simp: nth_append image_iff)
  ultimately show ?thesis by (simp add: mq_inv_def)
qed

text \<open>A consumer takes the next ticket.\<close>

lemma inv_take_tail:
  assumes inv: "mq_inv s" and p: "in_ticket (mq_pc s t) = None" "out_ticket (mq_pc s t) = None"
    and q: "q = P_Spin (mq_tail s) \<or> q = P_Move (mq_tail s) \<and> at_pop s (mq_tail s)" and small: "small (take_tail s)"
  shows "mq_inv (goto t q (take_tail s))"
proof -
  let ?s = "goto t q (take_tail s)" and ?n = "mq_taken s"
  note h = inv_parts(8)[OF inv]
  have v: "pdone ?s = pdone s" "qdone ?s = qdone s" "at_push ?s = at_push s" "at_pop ?s = at_pop s" by (rule view_cong; simp add: mq_acts)+
  have sel: "mq_ins ?s = mq_ins s" "mq_taken ?s = Suc ?n" "mq_pc ?s = (mq_pc s)(t := q)" "mq_outs ?s = mq_outs s"
    "mq_slots ?s = mq_slots s" "mq_idx ?s = mq_idx s" by (simp_all add: mq_acts mq_idx_def fun_eq_iff)
  have tk: "out_ticket q = Some ?n" "in_ticket q = in_ticket (mq_pc s t)" "\<not> storing q" "\<not> storing (mq_pc s t)"
    using q h p storing_ticket[OF p] by auto
  have "counters_ok ?s" using inv_parts(1)[OF inv] small by (simp add: counters_ok_def mq_acts small_def size_max_def)
  moreover have "pc_ok ?s (mq_pc ?s u)" for u
    using q h v(3,4) sel inv_parts(2)[OF inv, of u] by (cases "u = t"; cases "mq_pc s u") auto
  moreover have "out_ok ?s"
    using inv_parts(4)[OF inv] inv_parts(10,12)[OF inv] p(2) tk(1) unfolding out_ok_def v sel
    by (auto simp: less_Suc_eq split: if_splits)
  moreover have "in_ok ?s" using inv_parts(3)[OF inv] unfolding in_ok_def v sel ticket_upd(1)[where pc = "mq_pc s", OF tk(2)] by simp
  moreover have "storage_ok ?s"
    using inv_parts(5)[OF inv] unfolding storage_ok_def v sel storing_upd[where pc = "mq_pc s", OF tk(4)]
    using tk(3) by auto
  moreover have "outs_ok ?s" using inv_parts(6)[OF inv] unfolding outs_ok_def v sel .
  ultimately show ?thesis by (simp add: mq_inv_def)
qed

text \<open>Writing to the storage of a slot concerns only the ticket whose turn it is.\<close>

lemma storage_upd:
  assumes "mq_slots s' = (mq_slots s)(mq_idx s i := (slot_of s i)\<lparr>sl_storage := x\<rparr>)" and "mq_capacity s' = mq_capacity s"
  shows "at_push s i \<Longrightarrow> at_push s k \<Longrightarrow> sl_storage (slot_of s' k) = (if k = i then x else sl_storage (slot_of s k))"
    and "at_push s i \<Longrightarrow> at_pop s k \<Longrightarrow> sl_storage (slot_of s' k) = sl_storage (slot_of s k)"
    and "at_pop s i \<Longrightarrow> at_pop s k \<Longrightarrow> sl_storage (slot_of s' k) = (if k = i then x else sl_storage (slot_of s k))"
    and "at_pop s i \<Longrightarrow> at_push s k \<Longrightarrow> sl_storage (slot_of s' k) = sl_storage (slot_of s k)"
proof -
  have e: "sl_storage (slot_of s' k) = (if mq_idx s k = mq_idx s i then x else sl_storage (slot_of s k))"
    using assms by (simp add: mq_idx_def)
  show "at_push s i \<Longrightarrow> at_push s k \<Longrightarrow> sl_storage (slot_of s' k) = (if k = i then x else sl_storage (slot_of s k))"
    "at_pop s i \<Longrightarrow> at_pop s k \<Longrightarrow> sl_storage (slot_of s' k) = (if k = i then x else sl_storage (slot_of s k))"
    unfolding e using view_unique[of s k i] by auto
  show "at_push s i \<Longrightarrow> at_pop s k \<Longrightarrow> sl_storage (slot_of s' k) = sl_storage (slot_of s k)"
    "at_pop s i \<Longrightarrow> at_push s k \<Longrightarrow> sl_storage (slot_of s' k) = sl_storage (slot_of s k)"
    unfolding e using view_parity[of s i k] view_parity[of s k i] by auto
qed

lemma inv_construct:
  assumes inv: "mq_inv s" and p: "mq_pc s t = E_Construct i v"
  shows "mq_inv (goto t (E_Store i) (sl_construct i v s))"
proof -
  let ?s = "goto t (E_Store i) (sl_construct i v s)"
  have i: "i < length (mq_ins s)" "mq_ins s ! i = v" "at_push s i" using inv_parts(2)[OF inv, of t] p by simp_all
  have v: "pdone ?s = pdone s" "qdone ?s = qdone s" "at_push ?s = at_push s" "at_pop ?s = at_pop s" by (rule view_cong; simp add: mq_acts)+
  have sel: "mq_ins ?s = mq_ins s" "mq_taken ?s = mq_taken s" "mq_pc ?s = (mq_pc s)(t := E_Store i)" "mq_outs ?s = mq_outs s"
    by (simp_all add: mq_acts)
  have sl: "mq_slots ?s = (mq_slots s)(mq_idx s i := (slot_of s i)\<lparr>sl_storage := Some v\<rparr>)" "mq_capacity ?s = mq_capacity s"
    by (simp_all add: mq_acts)
  have tk: "in_ticket (E_Store i) = in_ticket (mq_pc s t)" "out_ticket (E_Store i :: 'a mq_pc) = out_ticket (mq_pc s t)" using p by simp_all
  have ns: "\<not> storing (mq_pc s t)" using p by simp
  have "mq_pc s u \<noteq> E_Store i" for u using inv_parts(3)[OF inv] p unfolding in_ok_def by (metis in_ticket.simps(2,3) mq_pc.distinct(45) mq_pc.simps)
  then have raw: "sl_storage (slot_of s i) = None" using inv_parts(5)[OF inv] i(3) by (simp add: storage_ok_def)
  have "counters_ok ?s" using inv_parts(1)[OF inv] raw by (simp add: counters_ok_def mq_acts)
  moreover have "pc_ok ?s (mq_pc ?s u)" for u
    using inv_parts(2)[OF inv, of u] i pc_ok_cong[of ?s s] v sel by simp
  moreover have "in_ok ?s" "out_ok ?s"
    using inv_parts(3,4)[OF inv] unfolding in_ok_def out_ok_def v sel ticket_upd(1)[where pc = "mq_pc s", OF tk(1)] ticket_upd(2)[where pc = "mq_pc s", OF tk(2)]
    by simp_all
  moreover have "storage_ok ?s"
    using inv_parts(5)[OF inv] storage_upd(1,2)[OF sl i(3)] i unfolding storage_ok_def v sel(1,3) storing_upd[where pc = "mq_pc s", OF ns]
    by auto
  moreover have "outs_ok ?s" using inv_parts(6)[OF inv] unfolding outs_ok_def v sel .
  ultimately show ?thesis by (simp add: mq_inv_def)
qed

lemma inv_destroy:
  assumes inv: "mq_inv s" and p: "mq_pc s t = P_Destroy j v"
  shows "mq_inv (goto t (P_Store j v) (sl_destroy j s))"
proof -
  let ?s = "goto t (P_Store j v) (sl_destroy j s)"
  have j: "j < mq_taken s" "mq_ins s ! j = v" "at_pop s j" using inv_parts(2)[OF inv, of t] p by simp_all
  have v: "pdone ?s = pdone s" "qdone ?s = qdone s" "at_push ?s = at_push s" "at_pop ?s = at_pop s" by (rule view_cong; simp add: mq_acts)+
  have sel: "mq_ins ?s = mq_ins s" "mq_taken ?s = mq_taken s" "mq_pc ?s = (mq_pc s)(t := P_Store j v)" "mq_outs ?s = mq_outs s"
    by (simp_all add: mq_acts)
  have sl: "mq_slots ?s = (mq_slots s)(mq_idx s j := (slot_of s j)\<lparr>sl_storage := None\<rparr>)" "mq_capacity ?s = mq_capacity s"
    by (simp_all add: mq_acts)
  have tk: "in_ticket (P_Store j v) = in_ticket (mq_pc s t)" "out_ticket (P_Store j v) = out_ticket (mq_pc s t)"
    and ns: "\<not> storing (mq_pc s t)" using p by simp_all
  have "mq_pc s u \<noteq> P_Store j w" for u w
    using inv_parts(4)[OF inv] p unfolding out_ok_def by (metis out_ticket.simps(3,4) storing.simps(2) ns)
  then have obj: "sl_storage (slot_of s j) \<noteq> None" using inv_parts(5)[OF inv] j(3) by (simp add: storage_ok_def)
  have "counters_ok ?s" using inv_parts(1)[OF inv] obj by (simp add: counters_ok_def mq_acts)
  moreover have "pc_ok ?s (mq_pc ?s u)" for u
    using inv_parts(2)[OF inv, of u] j pc_ok_cong[of ?s s] v sel by simp
  moreover have "in_ok ?s" "out_ok ?s"
    using inv_parts(3,4)[OF inv] unfolding in_ok_def out_ok_def v sel ticket_upd(1)[where pc = "mq_pc s", OF tk(1)] ticket_upd(2)[where pc = "mq_pc s", OF tk(2)]
    by simp_all
  moreover have "storage_ok ?s"
    using inv_parts(5)[OF inv] storage_upd(3,4)[OF sl j(3)] j unfolding storage_ok_def v sel(1,3) storing_upd[where pc = "mq_pc s", OF ns]
    by auto
  moreover have "outs_ok ?s" using inv_parts(6)[OF inv] unfolding outs_ok_def v sel .
  ultimately show ?thesis by (simp add: mq_inv_def)
qed

text \<open>Storing the turn hands the slot over to the consumer, or back to the producers.\<close>

lemma inv_full:
  assumes inv: "mq_inv s" and p: "mq_pc s t = E_Store i" and small: "small s"
  shows "mq_inv (finish t (Pushed True) (sl_store_turn i (turn_full s i) s))"
proof -
  let ?s = "finish t (Pushed True) (sl_store_turn i (turn_full s i) s)"
  have i: "i < length (mq_ins s)" "at_push s i" using inv_parts(2)[OF inv, of t] p by simp_all
  then have tn: "turn_full s i = 2 * mq_turn s i + 1" using small turn_small(2)[of i s] by (simp add: small_def)
  have sl: "mq_capacity ?s = mq_capacity s" "mq_slots ?s = (mq_slots s)(mq_idx s i := (slot_of s i)\<lparr>sl_turn := 2 * mq_turn s i + 1\<rparr>)"
    by (simp_all add: mq_acts tn)
  note v = view_full[OF i(2) sl]
  have sel: "mq_ins ?s = mq_ins s" "mq_taken ?s = mq_taken s" "mq_pc ?s = (mq_pc s)(t := Idle)" "mq_outs ?s = mq_outs s" "mq_idx ?s = mq_idx s"
    "sl_storage (mq_slots ?s k) = sl_storage (mq_slots s k)" for k by (simp_all add: mq_acts mq_idx_def fun_eq_iff)
  have uniq: "u \<noteq> t \<Longrightarrow> in_ticket (mq_pc s u) \<noteq> Some i" for u using inv_parts(3)[OF inv] p unfolding in_ok_def by (metis in_ticket.simps(3))
  have "counters_ok ?s" using inv_parts(1)[OF inv] by (simp add: counters_ok_def mq_acts)
  moreover have "pc_ok ?s (mq_pc ?s u)" for u
    using inv_parts(2)[OF inv, of u] i(1) uniq[of u] sel v by (cases "u = t"; cases "mq_pc s u") auto
  moreover have "in_ok ?s"
    using inv_parts(3)[OF inv] p i(1) uniq unfolding in_ok_def v sel by (auto split: if_splits) (metis in_ticket.simps(3) option.inject)
  moreover have "out_ok ?s"
    using inv_parts(4)[OF inv] p ticket_upd(2)[of Idle "mq_pc s" t] unfolding out_ok_def v sel by simp
  moreover have "storage_ok ?s"
  proof -
    have nP: "mq_pc s u \<noteq> P_Store i w" for u w using inv_parts(2)[OF inv, of u] view_order(1)[OF i(2)] view_order(2)[of s i] by auto
    have E: "k \<noteq> i \<Longrightarrow> (\<exists>u. ((mq_pc s)(t := Idle)) u = E_Store k) \<longleftrightarrow> (\<exists>u. mq_pc s u = E_Store k)" for k
      using ex_upd[of "mq_pc s" t "\<lambda>_. E_Store k" Idle] p by simp
    have P: "(\<exists>u w. ((mq_pc s)(t := Idle)) u = P_Store k w) \<longleftrightarrow> (\<exists>u w. mq_pc s u = P_Store k w)" for k
      using ex_upd[of "mq_pc s" t "P_Store k" Idle] p by simp
    have "sl_storage (slot_of s i) = Some (mq_ins s ! i)" using inv_parts(5)[OF inv] i(2) p by (auto simp: storage_ok_def)
    then show ?thesis using inv_parts(5)[OF inv] nP E unfolding storage_ok_def v sel P by auto
  qed
  moreover have "outs_ok ?s" using inv_parts(6)[OF inv] unfolding outs_ok_def v sel .
  ultimately show ?thesis by (simp add: mq_inv_def)
qed

lemma inv_free:
  assumes inv: "mq_inv s" and p: "mq_pc s t = P_Store j v" and small: "small s"
  shows "mq_inv (finish t (Popped (Some v)) (sl_store_turn j (turn_free s j) (s\<lparr>mq_outs := mq_outs s @ [(j, v)]\<rparr>)))"
proof -
  let ?s = "finish t (Popped (Some v)) (sl_store_turn j (turn_free s j) (s\<lparr>mq_outs := mq_outs s @ [(j, v)]\<rparr>))"
  have j: "j < mq_taken s" "at_pop s j" "mq_ins s ! j = v" using inv_parts(2)[OF inv, of t] p by simp_all
  then have tn: "turn_free s j = 2 * mq_turn s j + 2" using small turn_small(3)[of j s] by (simp add: small_def)
  have sl: "mq_capacity ?s = mq_capacity s" "mq_slots ?s = (mq_slots s)(mq_idx s j := (slot_of s j)\<lparr>sl_turn := 2 * mq_turn s j + 2\<rparr>)"
    by (simp_all add: mq_acts tn mq_idx_def)
  note v = view_free[OF j(2) sl]
  have sel: "mq_ins ?s = mq_ins s" "mq_taken ?s = mq_taken s" "mq_pc ?s = (mq_pc s)(t := Idle)" "mq_outs ?s = mq_outs s @ [(j, v)]"
    "mq_idx ?s = mq_idx s" "sl_storage (mq_slots ?s k) = sl_storage (mq_slots s k)" for k by (simp_all add: mq_acts mq_idx_def fun_eq_iff)
  have uniq: "u \<noteq> t \<Longrightarrow> out_ticket (mq_pc s u) \<noteq> Some j" for u using inv_parts(4)[OF inv] p unfolding out_ok_def by (metis out_ticket.simps(4))
  have "counters_ok ?s" using inv_parts(1)[OF inv] by (simp add: counters_ok_def mq_acts)
  moreover have "pc_ok ?s (mq_pc ?s u)" for u
    using inv_parts(2)[OF inv, of u] j(1) uniq[of u] sel v by (cases "u = t"; cases "mq_pc s u") auto
  moreover have "out_ok ?s"
    using inv_parts(4)[OF inv] p j(1) uniq unfolding out_ok_def v sel by (auto split: if_splits) (metis out_ticket.simps(4) option.inject)
  moreover have "in_ok ?s"
    using inv_parts(3)[OF inv] p ticket_upd(1)[of Idle "mq_pc s" t] unfolding in_ok_def v sel by simp
  moreover have "storage_ok ?s"
  proof -
    have nE: "mq_idx s x = mq_idx s j \<Longrightarrow> mq_pc s u \<noteq> E_Store x" for u x
      using inv_parts(2)[OF inv, of u] view_parity[OF _ j(2), of x] by auto
    have P: "k \<noteq> j \<Longrightarrow> (\<exists>u w. ((mq_pc s)(t := Idle)) u = P_Store k w) \<longleftrightarrow> (\<exists>u w. mq_pc s u = P_Store k w)" for k
      using ex_upd[of "mq_pc s" t "P_Store k" Idle] p by simp
    have E: "(\<exists>u. ((mq_pc s)(t := Idle)) u = E_Store k) \<longleftrightarrow> (\<exists>u. mq_pc s u = E_Store k)" for k
      using ex_upd[of "mq_pc s" t "\<lambda>_. E_Store k" Idle] p by simp
    have "sl_storage (slot_of s j) = None" using inv_parts(5)[OF inv] j(2) p by (auto simp: storage_ok_def)
    then show ?thesis using inv_parts(5)[OF inv] nE P unfolding storage_ok_def v sel E by auto
  qed
  moreover have "outs_ok ?s"
  proof -
    have "j \<notin> fst ` set (mq_outs s)" using inv_parts(6)[OF inv] view_order(3)[OF j(2)] by (auto simp: outs_ok_def)
    then show ?thesis using inv_parts(6)[OF inv] j(3) unfolding outs_ok_def v sel by auto
  qed
  ultimately show ?thesis by (simp add: mq_inv_def)
qed

section \<open>Runs\<close>

lemma small_goto [simp]: "small (goto t p s) \<longleftrightarrow> small s"
  by (simp add: small_def goto_def)

lemma step_small: "mq_step s s' \<Longrightarrow> small s' \<Longrightarrow> small s"
proof (induction rule: mq_step.induct)
  case (proceed s t)
  then show ?case
    by (cases "mq_pc s t") (auto simp: mq_next_def emplace_def try_emplace_def pop_def try_pop_def small_def mq_acts split: if_splits option.splits)
qed (auto simp: small_def mq_push_def mq_try_push_def mq_pop_def mq_try_pop_def mq_acts)

lemma inv_next:
  assumes inv: "mq_inv s" and small: "small (mq_next t s)"
  shows "mq_inv (mq_next t s)"
proof -
  have sm: "small s" using step_small[OF proceed small] .
  note ok = inv_parts(2)[OF inv, of t] and hd = inv_parts(7,8)[OF inv]
  have tp: "i \<le> length (mq_ins s) \<Longrightarrow> turn_push s i = 2 * mq_turn s i" "i \<le> mq_taken s \<Longrightarrow> turn_full s i = 2 * mq_turn s i + 1" for i
    using sm turn_small[of i s] by (auto simp: small_def)
  then have at: "i \<le> length (mq_ins s) \<Longrightarrow> turn_push s i = sl_turn (slot_of s i) \<longleftrightarrow> at_push s i"
    "i \<le> mq_taken s \<Longrightarrow> turn_full s i = sl_turn (slot_of s i) \<longleftrightarrow> at_pop s i" for i
    by (auto simp: at_push_def at_pop_def)
  note defs = mq_next_def emplace_def try_emplace_def pop_def try_pop_def
  show ?thesis
  proof (cases "mq_pc s t")
    case (E_Spin i v)
    then show ?thesis using inv ok at(1)[of i] inv_goto[OF inv, of "E_Construct i v" t] by (auto simp: defs)
  next
    case (E_Construct i v)
    then show ?thesis using inv_construct[OF inv E_Construct] by (simp add: defs)
  next
    case (E_Store i)
    then show ?thesis using inv_full[OF inv E_Store sm] by (simp add: defs)
  next
    case (TE_Load v)
    then show ?thesis using inv_goto[OF inv, of "TE_Turn (mq_head s) v" t] hd by (simp add: defs)
  next
    case (TE_Turn i v)
    then show ?thesis
      using ok at(1)[of i] inv_goto[OF inv, of "TE_Cas i v" t] inv_goto[OF inv, of "TE_Reload i v" t]
      by (cases "at_push s i") (auto simp: defs)
  next
    case (TE_Cas i v)
    then show ?thesis using ok small inv_goto[OF inv, of "TE_Turn (mq_head s) v" t] inv_take_head[OF inv, of t "E_Construct (mq_head s) v" v] hd
      by (auto simp: defs)
  next
    case (TE_Reload i v)
    then show ?thesis using inv_goto[OF inv, of "TE_Turn (mq_head s) v" t] inv_move[OF inv, of Idle t] hd by (auto simp: defs finish_def)
  next
    case (P_Spin j)
    then show ?thesis using inv ok at(2)[of j] inv_goto[OF inv, of "P_Move j" t] by (auto simp: defs)
  next
    case (P_Move j)
    have j: "j < mq_taken s" "at_pop s j" using ok P_Move by simp_all
    have "mq_pc s u \<noteq> P_Store j w" for u w
      using inv_parts(4)[OF inv] P_Move unfolding out_ok_def by (metis out_ticket.simps(2,4) storing.simps(2) storing.simps(11))
    then have "sl_storage (slot_of s j) = Some (mq_ins s ! j)" using inv_parts(5)[OF inv] j by (simp add: storage_ok_def)
    then show ?thesis using P_Move j inv_goto[OF inv, of "P_Destroy j (mq_ins s ! j)" t] by (simp add: defs)
  next
    case (P_Destroy j v)
    then show ?thesis using inv_destroy[OF inv P_Destroy] by (simp add: defs)
  next
    case (P_Store j v)
    then show ?thesis using inv_free[OF inv P_Store sm] by (simp add: defs)
  next
    case TP_Load
    then show ?thesis using inv_goto[OF inv, of "TP_Turn (mq_tail s)" t] hd by (simp add: defs)
  next
    case (TP_Turn j)
    then show ?thesis
      using ok at(2)[of j] inv_goto[OF inv, of "TP_Cas j" t] inv_goto[OF inv, of "TP_Reload j" t]
      by (cases "at_pop s j") (auto simp: defs)
  next
    case (TP_Cas j)
    then show ?thesis using ok small inv_goto[OF inv, of "TP_Turn (mq_tail s)" t] inv_take_tail[OF inv, of t "P_Move (mq_tail s)"] hd
      by (auto simp: defs)
  next
    case (TP_Reload j)
    then show ?thesis using inv_goto[OF inv, of "TP_Turn (mq_tail s)" t] inv_move[OF inv, of Idle t] hd by (auto simp: defs finish_def)
  qed (simp add: defs inv)
qed

lemma inv_step: "mq_step s s' \<Longrightarrow> mq_inv s \<Longrightarrow> small s' \<Longrightarrow> mq_inv s'"
proof (induction rule: mq_step.induct)
  case (start_push s t v)
  then show ?case using inv_take_head[of s t "E_Spin (mq_head s) v" v] by (simp add: mq_push_def)
next
  case (start_try_push s t v)
  then show ?case using inv_goto[of s "TE_Load v" t] by (simp add: mq_try_push_def)
next
  case (start_pop s t)
  then show ?case using inv_take_tail[of s t "P_Spin (mq_tail s)"] by (simp add: mq_pop_def)
next
  case (start_try_pop s t)
  then show ?case using inv_goto[of s TP_Load t] by (simp add: mq_try_pop_def)
qed (rule inv_next)

lemma inv_new: "newQueue c = Some s \<Longrightarrow> mq_inv s"
  by (auto simp: newQueue_def mq_inv_def counters_ok_def in_ok_def out_ok_def storage_ok_def outs_ok_def pdone_def qdone_def at_push_def at_pop_def
      split: if_splits)

lemma inv_run:
  assumes "mq_step\<^sup>*\<^sup>* s s'" and "mq_inv s" and "small s'"
  shows "mq_inv s'"
  using assms by (induction rule: rtranclp_induct) (auto intro: inv_step step_small)

section \<open>Exclusive access\<close>

fun accessing :: "'a mq_pc \<Rightarrow> nat option" where
  "accessing (E_Construct i v) = Some i"
| "accessing (E_Store i) = Some i"
| "accessing (P_Move j) = Some j"
| "accessing (P_Destroy j v) = Some j"
| "accessing (P_Store j v) = Some j"
| "accessing _ = None"

lemma accessing_exclusive:
  assumes inv: "mq_inv s" and "accessing (mq_pc s t) = Some i" and "accessing (mq_pc s u) = Some j" and "mq_idx s i = mq_idx s j"
  shows "t = u"
proof -
  have a: "at_push s i \<and> in_ticket (mq_pc s t) = Some i \<or> at_pop s i \<and> out_ticket (mq_pc s t) = Some i"
    using assms(2) inv_parts(2)[OF inv, of t] by (cases "mq_pc s t") auto
  have b: "at_push s j \<and> in_ticket (mq_pc s u) = Some j \<or> at_pop s j \<and> out_ticket (mq_pc s u) = Some j"
    using assms(3) inv_parts(2)[OF inv, of u] by (cases "mq_pc s u") auto
  have "at_push s i \<and> at_push s j \<or> at_pop s i \<and> at_pop s j"
    using a b view_parity[of s i j] view_parity[of s j i] assms(4) by auto
  then have "i = j" using view_unique[OF assms(4)] by auto
  then show ?thesis using a b view_order[of s i] inv_parts(3,4)[OF inv] unfolding in_ok_def out_ok_def by blast
qed

text \<open>When no operation is under way, the turns tell exactly which tickets have been pushed and popped.\<close>

definition quiet :: "'a mpmc \<Rightarrow> bool" where
  "quiet s \<longleftrightarrow> (\<forall>t. mq_pc s t = Idle)"

lemma quiet_done:
  assumes "mq_inv s" and "quiet s"
  shows "pdone s i \<longleftrightarrow> i < length (mq_ins s)" and "qdone s i \<longleftrightarrow> i < mq_taken s"
  using inv_parts(3,4)[OF assms(1)] assms(2) by (simp_all add: in_ok_def out_ok_def quiet_def)

lemma next_round:
  assumes "0 < mq_capacity s"
  shows "mq_idx s (i + mq_capacity s) = mq_idx s i" and "mq_turn s (i + mq_capacity s) = mq_turn s i + 1"
  using assms by (simp_all add: mq_idx_def mq_turn_def div_add_self2)

lemma round_done:
  assumes "0 < mq_capacity s"
  shows "pdone s (i + mq_capacity s) \<Longrightarrow> qdone s i" and "\<not> pdone s (i + mq_capacity s) \<Longrightarrow> qdone s i \<Longrightarrow> at_push s (i + mq_capacity s)"
    and "at_push s (i + mq_capacity s) \<Longrightarrow> qdone s i" and "\<not> pdone s (i + mq_capacity s) \<Longrightarrow> \<not> at_push s (i + mq_capacity s) \<Longrightarrow> pdone s i \<Longrightarrow> at_pop s i"
  using next_round[OF assms, of i] by (simp_all add: pdone_def qdone_def at_push_def at_pop_def)

lemma between_done: "pdone s i \<Longrightarrow> \<not> qdone s i \<Longrightarrow> at_pop s i"
  by (simp add: pdone_def qdone_def at_pop_def)

lemma quiet_state:
  assumes inv: "mq_inv s" and q: "quiet s"
  shows "mq_taken s \<le> length (mq_ins s)" and "length (mq_ins s) \<le> mq_taken s + mq_capacity s"
    and "at_push s (length (mq_ins s)) \<longleftrightarrow> length (mq_ins s) < mq_taken s + mq_capacity s"
    and "at_pop s (mq_taken s) \<longleftrightarrow> mq_taken s < length (mq_ins s)"
    and "mq_taken s \<le> j \<Longrightarrow> j < length (mq_ins s) \<Longrightarrow> sl_storage (slot_of s j) = Some (mq_ins s ! j)"
proof -
  let ?n = "length (mq_ins s)" and ?m = "mq_taken s" and ?c = "mq_capacity s"
  note d = quiet_done[OF inv q]
  have c: "0 < ?c" using inv_parts(1)[OF inv] by (simp add: counters_ok_def)
  show le: "?m \<le> ?n" using d view_order(4)[of s] by (metis leI nat_less_le)
  show le2: "?n \<le> ?m + ?c" using round_done(1)[OF c, of ?m] d by (metis leI nat_less_le)
  show "at_push s ?n \<longleftrightarrow> ?n < ?m + ?c"
  proof (cases "?c \<le> ?n")
    case True
    then have n: "?n - ?c + ?c = ?n" by simp
    show ?thesis using round_done(2,3)[OF c, of "?n - ?c"] d le2 True unfolding n by (metis le_add_diff_inverse2 less_diff_conv2 less_irrefl)
  next
    case False
    then have "mq_turn s ?n = 0" by (simp add: mq_turn_def)
    then show ?thesis using d(1)[of ?n] False by (simp add: at_push_def pdone_def)
  qed
  show "at_pop s ?m \<longleftrightarrow> ?m < ?n" using d view_order(2,3)[of s ?m] between_done[of s ?m] by auto
  show "sl_storage (slot_of s j) = Some (mq_ins s ! j)" if "?m \<le> j" "j < ?n"
  proof -
    have "at_pop s j" using that d between_done[of s j] by simp
    then show ?thesis using inv_parts(5)[OF inv] q by (simp add: storage_ok_def quiet_def)
  qed
qed

section \<open>The destructor\<close>

lemma slot_delete_sel:
  assumes "k < mq_capacity s"
  shows "mq_capacity (slot_delete k s) = mq_capacity s" and "sl_turn (mq_slots (slot_delete k s) x) = sl_turn (mq_slots s x)"
    and "sl_storage (mq_slots (slot_delete k s) x) = (if x = k \<and> odd (sl_turn (mq_slots s k)) then None else sl_storage (mq_slots s x))"
    and "mq_bad (slot_delete k s) \<longleftrightarrow> mq_bad s \<or> odd (sl_turn (mq_slots s k)) \<and> sl_storage (mq_slots s k) = None"
  using assms by (auto simp: slot_delete_def sl_destroy_def mq_idx_def)

lemma delete_all:
  assumes "distinct ks" and "set ks \<subseteq> {..<mq_capacity s}"
  shows "sl_storage (mq_slots (fold slot_delete ks s) x) =
      (if x \<in> set ks \<and> odd (sl_turn (mq_slots s x)) then None else sl_storage (mq_slots s x)) \<and>
    (mq_bad (fold slot_delete ks s) \<longleftrightarrow> mq_bad s \<or> (\<exists>k \<in> set ks. odd (sl_turn (mq_slots s k)) \<and> sl_storage (mq_slots s k) = None))"
  using assms
proof (induction ks arbitrary: s)
  case (Cons k ks)
  then have k: "k < mq_capacity s" by simp
  show ?case using Cons.IH[of "slot_delete k s"] Cons.prems by (auto simp: slot_delete_sel[OF k])
qed simp

lemma quiet_slots:
  assumes inv: "mq_inv s" and q: "quiet s" and k: "k < mq_capacity s"
  shows "sl_storage (mq_slots s k) = None \<longleftrightarrow> even (sl_turn (mq_slots s k))"
proof -
  define i where "i = k + (sl_turn (mq_slots s k) div 2) * mq_capacity s"
  have i: "mq_idx s i = k" "mq_turn s i = sl_turn (mq_slots s k) div 2" using k by (simp_all add: i_def mq_idx_def mq_turn_def)
  have st: "at_push s i \<Longrightarrow> sl_storage (mq_slots s k) = None" "at_pop s i \<Longrightarrow> sl_storage (mq_slots s k) = Some (mq_ins s ! i)"
    using inv_parts(5)[OF inv] q i by (auto simp: storage_ok_def quiet_def)
  show ?thesis
  proof (cases "even (sl_turn (mq_slots s k))")
    case True
    then have "at_push s i" using i by (simp add: at_push_def)
    then show ?thesis using st True by simp
  next
    case False
    then have "at_pop s i" using i by (simp add: at_pop_def)
    then show ?thesis using st False by simp
  qed
qed

lemma quiet_delete:
  assumes inv: "mq_inv s" and q: "quiet s"
  shows "\<not> mq_bad (queue_delete s)" and "k < mq_capacity s \<Longrightarrow> sl_storage (mq_slots (queue_delete s) k) = None"
  using delete_all[of "[0..<mq_capacity s]" s] quiet_slots[OF inv q] inv_parts(1)[OF inv]
  by (auto simp: queue_delete_def counters_ok_def atLeast0LessThan)

section \<open>Waiting\<close>

lemma held_not_done:
  assumes "mq_inv s"
  shows "in_ticket (mq_pc s t) = Some i \<Longrightarrow> \<not> pdone s i" and "out_ticket (mq_pc s t) = Some i \<Longrightarrow> \<not> qdone s i"
  using inv_parts(3,4)[OF assms] unfolding in_ok_def out_ok_def by blast+

text \<open>A thread can move when its next access changes anything.\<close>

definition stuck :: "'a mpmc \<Rightarrow> bool" where
  "stuck s \<longleftrightarrow> (\<forall>t. mq_next t s = s)"

lemma stuck_pc:
  assumes inv: "mq_inv s" and "small s" and "stuck s"
  shows "mq_pc s t = Idle \<or> (\<exists>i v. mq_pc s t = E_Spin i v \<and> \<not> at_push s i) \<or> (\<exists>j. mq_pc s t = P_Spin j \<and> \<not> at_pop s j)"
proof -
  have "mq_pc (mq_next t s) t = mq_pc s t" "mq_bad (mq_next t s) = mq_bad s" using assms(3) by (simp_all add: stuck_def)
  moreover have "\<not> mq_bad s" using inv_parts(1)[OF inv] by (simp add: counters_ok_def)
  moreover have "pc_ok s (mq_pc s t)" by (rule inv_parts(2)[OF inv])
  moreover have "i < length (mq_ins s) \<Longrightarrow> turn_push s i = 2 * mq_turn s i" "i < mq_taken s \<Longrightarrow> turn_full s i = 2 * mq_turn s i + 1" for i
    using turn_small[of i s] assms(2) by (simp_all add: small_def)
  ultimately show ?thesis
    by (cases "mq_pc s t")
      (auto simp: mq_next_def emplace_def try_emplace_def pop_def try_pop_def mq_acts at_push_def at_pop_def split: if_splits option.splits)
qed

lemma stuck_push:
  assumes inv: "mq_inv s" and sm: "small s" and st: "stuck s" and t: "mq_pc s t = E_Spin i v"
  obtains i where "mq_taken s + mq_capacity s \<le> i" and "i < length (mq_ins s)" and "\<forall>x < i. pdone s x"
proof -
  define i0 where "i0 = (LEAST i. \<exists>u w. mq_pc s u = E_Spin i w)"
  have ex: "\<exists>u w. mq_pc s u = E_Spin i0 w" unfolding i0_def by (rule LeastI[of _ i]) (use t in blast)
  then obtain u w where u: "mq_pc s u = E_Spin i0 w" by blast
  have least: "mq_pc s x = E_Spin k y \<Longrightarrow> i0 \<le> k" for x k y unfolding i0_def by (rule Least_le) blast
  have lt: "i0 < length (mq_ins s)" using inv_parts(2)[OF inv, of u] u by simp
  have "in_ticket (mq_pc s x) \<noteq> Some k" if "k < i0" for x k
    using stuck_pc[OF inv sm st, of x] least[of x k] that by (auto dest: least)
  then have before: "\<forall>x < i0. pdone s x" using inv_parts(3)[OF inv] lt by (simp add: in_ok_def)
  have c: "0 < mq_capacity s" using inv_parts(1)[OF inv] by (simp add: counters_ok_def)
  have i0: "\<not> at_push s i0" "\<not> pdone s i0" using stuck_pc[OF inv sm st, of u] u held_not_done(1)[OF inv, of u] by auto
  have ge: "mq_capacity s \<le> i0"
  proof (rule ccontr)
    assume "\<not> mq_capacity s \<le> i0"
    then have "mq_turn s i0 = 0" by (simp add: mq_turn_def)
    then show False using i0 by (simp add: at_push_def pdone_def)
  qed
  define k where "k = i0 - mq_capacity s"
  have k: "k + mq_capacity s = i0" using ge by (simp add: k_def)
  have "at_pop s k" using round_done(4)[OF c, of k] i0 before c k by simp
  moreover have "out_ticket (mq_pc s x) \<noteq> Some k" for x using stuck_pc[OF inv sm st, of x] \<open>at_pop s k\<close> by auto
  ultimately have "mq_taken s \<le> k" using inv_parts(4)[OF inv] view_order(3)[of s k] unfolding out_ok_def by (meson leI)
  then show thesis using that[of i0] k lt before by simp
qed

lemma stuck_pop:
  assumes inv: "mq_inv s" and sm: "small s" and st: "stuck s" and t: "mq_pc s t = P_Spin j"
  shows "j < mq_taken s" and "length (mq_ins s) \<le> j \<or> (\<exists>u v. mq_pc s u = E_Spin j v)"
proof -
  show "j < mq_taken s" using inv_parts(2)[OF inv, of t] t by simp
  have "\<not> at_pop s j" "\<not> qdone s j" using stuck_pc[OF inv sm st, of t] t held_not_done(2)[OF inv, of t] by auto
  then have "\<not> pdone s j" using between_done[of s j] by blast
  then have "length (mq_ins s) \<le> j \<or> (\<exists>u. in_ticket (mq_pc s u) = Some j)" using inv_parts(3)[OF inv] unfolding in_ok_def by (meson leI)
  then show "length (mq_ins s) \<le> j \<or> (\<exists>u v. mq_pc s u = E_Spin j v)" using stuck_pc[OF inv sm st] by (metis in_ticket.simps option.distinct(1) option.inject)
qed

section \<open>Properties\<close>

lemma queue_reachable:
  assumes "newQueue c = Some s0" and "mq_step\<^sup>*\<^sup>* s0 s" and "small s"
  shows "mq_inv s" and "mq_capacity s = c"
proof -
  show "mq_inv s" by (rule inv_run[OF assms(2) inv_new[OF assms(1)] assms(3)])
  have step: "mq_step a b \<Longrightarrow> mq_capacity b = mq_capacity a" for a b :: "'a mpmc"
  proof (induction rule: mq_step.induct)
    case (proceed s t)
    then show ?case
      by (cases "mq_pc s t") (auto simp: mq_next_def emplace_def try_emplace_def pop_def try_pop_def mq_acts split: option.splits)
  qed (simp_all add: mq_push_def mq_try_push_def mq_pop_def mq_try_pop_def mq_acts)
  have "mq_capacity s0 = c" using assms(1) by (auto simp: newQueue_def split: if_splits)
  with assms(2) show "mq_capacity s = c" by (induction rule: rtranclp_induct) (auto dest: step)
qed

text \<open>C12. First in, first out, whatever the interleaving. The pop with ticket \<open>j\<close> returns the value of the push with ticket \<open>j\<close>; no ticket is
  popped twice; no thread moves or destroys an object that is not there or constructs one over another; and no two threads
  are between the turn check and the turn store of the same slot.\<close>

theorem mpmc_fifo:
  assumes "newQueue c = Some s0" and "mq_step\<^sup>*\<^sup>* s0 s" and "small s"
  shows "distinct (map fst (mq_outs s)) \<and> (\<forall>j v. (j, v) \<in> set (mq_outs s) \<longrightarrow> j < length (mq_ins s) \<and> v = mq_ins s ! j) \<and> \<not> mq_bad s \<and>
    (\<forall>t u i j. accessing (mq_pc s t) = Some i \<longrightarrow> accessing (mq_pc s u) = Some j \<longrightarrow> mq_idx s i = mq_idx s j \<longrightarrow> t = u)"
proof -
  note inv = queue_reachable(1)[OF assms]
  have "(j, v) \<in> set (mq_outs s) \<Longrightarrow> j < length (mq_ins s) \<and> v = mq_ins s ! j" for j v
    using inv_parts(6)[OF inv] view_order(4)[of s j] inv_parts(9)[OF inv, of j] by (auto simp: outs_ok_def)
  moreover have "distinct (map fst (mq_outs s))" "\<not> mq_bad s" using inv_parts(1,6)[OF inv] by (simp_all add: counters_ok_def outs_ok_def)
  ultimately show ?thesis using accessing_exclusive[OF inv] by (intro conjI allI impI) blast+
qed

text \<open>Between operations the ring is a bounded list. When no operation is under way, with \<open>n\<close> values pushed and \<open>m\<close> popped, the popped
  values are the first \<open>m\<close>, the slots of the tickets from \<open>m\<close> on hold the other ones in order, there are at most as many as the
  capacity, and the destructor destroys exactly the objects that are left.\<close>

theorem mpmc_quiet_contents:
  assumes "newQueue c = Some s0" and "mq_step\<^sup>*\<^sup>* s0 s" and "small s" and "quiet s"
  shows "mq_taken s \<le> length (mq_ins s) \<and> length (mq_ins s) \<le> mq_taken s + c \<and>
    mset (map snd (mq_outs s)) = mset (take (mq_taken s) (mq_ins s)) \<and>
    map (\<lambda>j. sl_storage (slot_of s j)) [mq_tail s..<mq_head s] = map Some (drop (mq_taken s) (mq_ins s)) \<and>
    \<not> mq_bad (queue_delete s) \<and> (\<forall>k < c. sl_storage (mq_slots (queue_delete s) k) = None)"
proof -
  note inv = queue_reachable(1)[OF assms(1-3)] and cap = queue_reachable(2)[OF assms(1-3)]
  let ?m = "mq_taken s" and ?n = "length (mq_ins s)"
  note q = quiet_state[OF inv assms(4)]
  have f: "mset (mq_outs s) = mset (map (\<lambda>j. (j, mq_ins s ! j)) [0..<?m])"
  proof -
    have "set (mq_outs s) = set (map (\<lambda>j. (j, mq_ins s ! j)) [0..<?m])"
      using inv_parts(6)[OF inv] quiet_done(2)[OF inv assms(4)] by (auto simp: outs_ok_def)
    moreover have "distinct (mq_outs s)" using inv_parts(6)[OF inv] by (simp add: outs_ok_def distinct_map)
    moreover have "distinct (map (\<lambda>j. (j, mq_ins s ! j)) [0..<?m])" by (simp add: distinct_map inj_on_def)
    ultimately show ?thesis using set_eq_iff_mset_eq_distinct by blast
  qed
  have "take ?m (mq_ins s) = map (\<lambda>j. mq_ins s ! j) [0..<?m]" using q(1) by (intro nth_equalityI) simp_all
  then have "mset (map snd (mq_outs s)) = mset (take ?m (mq_ins s))" by (simp add: f multiset.map_comp comp_def)
  moreover have "map (\<lambda>j. sl_storage (slot_of s j)) [mq_tail s..<mq_head s] = map Some (drop ?m (mq_ins s))"
    using q(1,5) inv_parts(7,8)[OF inv] by (intro nth_equalityI) simp_all
  ultimately show ?thesis using q(1,2) quiet_delete[OF inv assms(4)] cap by simp
qed

text \<open>No operation waits without reason. When no thread can move, either all threads that are in an operation are producers
  and more values than the capacity have been pushed beyond those popped, or all are consumers and there are more
  pops than pushes.\<close>

theorem mpmc_waits_only_full_or_empty:
  assumes "newQueue c = Some s0" and "mq_step\<^sup>*\<^sup>* s0 s" and "small s" and "stuck s" and "\<not> quiet s"
  shows "mq_taken s + c < length (mq_ins s) \<and> (\<forall>t. mq_pc s t = Idle \<or> (\<exists>i v. mq_pc s t = E_Spin i v)) \<or>
    length (mq_ins s) < mq_taken s \<and> (\<forall>t. mq_pc s t = Idle \<or> (\<exists>j. mq_pc s t = P_Spin j))"
proof -
  note inv = queue_reachable(1)[OF assms(1-3)] and cap = queue_reachable(2)[OF assms(1-3)]
  note pc = stuck_pc[OF inv assms(3,4)]
  show ?thesis
  proof (cases "\<exists>t i v. mq_pc s t = E_Spin i v")
    case True
    then obtain t i0 v where t: "mq_pc s t = E_Spin i0 v" by blast
    obtain i where i: "mq_taken s + mq_capacity s \<le> i" "i < length (mq_ins s)" "\<forall>x < i. pdone s x"
      by (rule stuck_push[OF inv assms(3,4) t])
    have "mq_pc s t \<noteq> P_Spin j" for t j
    proof
      assume t: "mq_pc s t = P_Spin j"
      have j: "j < i" using stuck_pop(1)[OF inv assms(3,4) t] i(1) by simp
      then have "\<not> length (mq_ins s) \<le> j" using i(2) by simp
      then obtain u v where "mq_pc s u = E_Spin j v" using stuck_pop(2)[OF inv assms(3,4) t] by blast
      then show False using held_not_done(1)[OF inv, of u j] i(3) j by simp
    qed
    then have "mq_pc s t = Idle \<or> (\<exists>i v. mq_pc s t = E_Spin i v)" for t using pc[of t] by blast
    then show ?thesis using i(1,2) cap by simp
  next
    case False
    then obtain t j where t: "mq_pc s t = P_Spin j" using pc assms(5) unfolding quiet_def by blast
    have "length (mq_ins s) < mq_taken s" using stuck_pop[OF inv assms(3,4) t] False by auto
    moreover have "mq_pc s t = Idle \<or> (\<exists>j. mq_pc s t = P_Spin j)" for t using pc[of t] False by blast
    ultimately show ?thesis by simp
  qed
qed

lemma numeral_funpow: "f ^^ numeral k = f \<circ> f ^^ pred_numeral k"
  by (simp add: numeral_eq_Suc)

lemmas alone_defs = numeral_funpow mq_next_def emplace_def try_emplace_def pop_def try_pop_def mq_acts mq_try_push_def mq_try_pop_def
  quiet_def mq_turn_def mq_idx_def turn_push_def turn_full_def Let_def

lemma try_push_alone:
  assumes inv: "mq_inv s" and "small s" and "quiet s"
  shows "let s1 = (mq_next t ^^ 5) (mq_try_push t v s) in quiet s1 \<and> mq_taken s1 = mq_taken s \<and>
    (if at_push s (length (mq_ins s)) then mq_ret s1 t = Some (Pushed True) \<and> mq_ins s1 = mq_ins s @ [v]
     else mq_ret s1 t = Some (Pushed False) \<and> mq_ins s1 = mq_ins s)"
proof -
  have pc: "mq_pc s u = Idle" for u using assms(3) by (simp add: quiet_def)
  have "turn_push s (length (mq_ins s)) = sl_turn (slot_of s (length (mq_ins s))) \<longleftrightarrow> at_push s (length (mq_ins s))"
    using turn_small(1)[of "length (mq_ins s)" s] assms(2) by (auto simp: small_def at_push_def)
  then show ?thesis
    by (cases "at_push s (length (mq_ins s))") (simp_all add: alone_defs pc inv_parts(7)[OF inv])
qed

lemma try_pop_alone:
  assumes inv: "mq_inv s" and "small s" and "quiet s"
  shows "let s1 = (mq_next t ^^ 6) (mq_try_pop t s) in quiet s1 \<and> mq_ins s1 = mq_ins s \<and>
    (if at_pop s (mq_taken s) then mq_ret s1 t = Some (Popped (Some (mq_ins s ! mq_taken s))) \<and> mq_taken s1 = mq_taken s + 1
     else mq_ret s1 t = Some (Popped None) \<and> mq_taken s1 = mq_taken s)"
proof -
  have pc: "mq_pc s u = Idle" for u using assms(3) by (simp add: quiet_def)
  have t: "turn_full s (mq_taken s) = sl_turn (slot_of s (mq_taken s)) \<longleftrightarrow> at_pop s (mq_taken s)"
    using turn_small(2)[of "mq_taken s" s] assms(2) by (auto simp: small_def at_pop_def)
  have "at_pop s (mq_taken s) \<Longrightarrow> sl_storage (slot_of s (mq_taken s)) = Some (mq_ins s ! mq_taken s)"
    using quiet_state(4,5)[OF inv assms(3)] by simp
  with t show ?thesis
    by (cases "at_pop s (mq_taken s)") (simp_all add: alone_defs pc inv_parts(8)[OF inv])
qed

text \<open>C22. An operation that tries ends, and answers like a bounded list. A thread that runs alone on a queue with no other operation under way finishes
  \<open>try_push\<close> after at most five accesses and \<open>try_pop\<close> after at most six; the push succeeds exactly when fewer values than the capacity
  are inside, and the pop returns the oldest one, or nothing exactly when the queue is empty.\<close>

theorem mpmc_try_alone:
  assumes "newQueue c = Some s0" and "mq_step\<^sup>*\<^sup>* s0 s" and "small s" and "quiet s"
  shows "(let s1 = (mq_next t ^^ 5) (mq_try_push t v s) in quiet s1 \<and> mq_taken s1 = mq_taken s \<and>
      (if length (mq_ins s) - mq_taken s < c then mq_ret s1 t = Some (Pushed True) \<and> mq_ins s1 = mq_ins s @ [v]
       else mq_ret s1 t = Some (Pushed False) \<and> mq_ins s1 = mq_ins s)) \<and>
    (let s1 = (mq_next t ^^ 6) (mq_try_pop t s) in quiet s1 \<and> mq_ins s1 = mq_ins s \<and>
      (if mq_taken s < length (mq_ins s) then mq_ret s1 t = Some (Popped (Some (mq_ins s ! mq_taken s))) \<and> mq_taken s1 = mq_taken s + 1
       else mq_ret s1 t = Some (Popped None) \<and> mq_taken s1 = mq_taken s))"
proof -
  note inv = queue_reachable(1)[OF assms(1-3)] and cap = queue_reachable(2)[OF assms(1-3)]
  note q = quiet_state[OF inv assms(4)]
  have full: "length (mq_ins s) - mq_taken s < c \<longleftrightarrow> at_push s (length (mq_ins s))" using q(1-3) cap by auto
  show ?thesis unfolding full q(4)[symmetric] using try_push_alone[OF inv assms(3,4)] try_pop_alone[OF inv assms(3,4)] by blast
qed

section \<open>Examples\<close>

text \<open>A queue with two slots: thread 0 has pushed, and thread 1 popped, one value, and thread 0 has pushed another one.\<close>

definition sample_queue :: "nat mpmc" where
  "sample_queue = (mq_next 0 ^^ 3) (mq_push 0 8 ((mq_next 1 ^^ 4) (mq_pop 1 ((mq_next 0 ^^ 3) (mq_push 0 7 (the (newQueue 2)))))))"

lemma next_reach: "mq_step\<^sup>*\<^sup>* s0 s \<Longrightarrow> mq_step\<^sup>*\<^sup>* s0 ((mq_next t ^^ n) s)"
  by (induction n) (auto intro: proceed rtranclp.rtrancl_into_rtrancl)

lemma start_reach:
  assumes "mq_step\<^sup>*\<^sup>* s0 s" and "mq_pc s t = Idle"
  shows "mq_step\<^sup>*\<^sup>* s0 (mq_push t v s)" and "mq_step\<^sup>*\<^sup>* s0 (mq_pop t s)"
  using assms by (auto intro: mq_step.intros rtranclp.rtrancl_into_rtrancl)

lemmas sample_defs = alone_defs mq_push_def mq_pop_def turn_free_def size_max_def newQueue_def

lemma sample_reach: "mq_step\<^sup>*\<^sup>* (the (newQueue 2)) sample_queue"
  unfolding sample_queue_def
  by (intro next_reach start_reach rtranclp.rtrancl_refl) (simp_all add: sample_defs)

lemma sample_sel: "quiet sample_queue" "small sample_queue" "mq_ins sample_queue = [7, 8]" "mq_taken sample_queue = 1" "mq_outs sample_queue = [(0, 7)]"
  by (simp_all add: sample_queue_def sample_defs small_def)

lemma sample_new: "newQueue 2 = Some (the (newQueue 2) :: nat mpmc)"
  by (simp add: newQueue_def)

theorem mpmc_fifo_witness:
  "distinct (map fst (mq_outs sample_queue)) \<and> (0, 7) \<in> set (mq_outs sample_queue) \<and> (7 :: nat) = mq_ins sample_queue ! 0 \<and> \<not> mq_bad sample_queue"
proof -
  have o: "(0, 7) \<in> set (mq_outs sample_queue)" by (simp add: sample_sel(5))
  from mpmc_fifo[OF sample_new sample_reach sample_sel(2)] o show ?thesis by blast
qed

theorem mpmc_quiet_contents_witness:
  "map (\<lambda>j. sl_storage (slot_of sample_queue j)) [mq_tail sample_queue..<mq_head sample_queue] = [Some 8] \<and> \<not> mq_bad (queue_delete sample_queue)"
  using mpmc_quiet_contents[OF sample_new sample_reach sample_sel(2,1)] sample_sel(3,4) by simp

theorem mpmc_try_alone_witness:
  "mq_ret ((mq_next 5 ^^ 5) (mq_try_push 5 9 sample_queue)) 5 = Some (Pushed True) \<and>
   mq_ret ((mq_next 5 ^^ 6) (mq_try_pop 5 sample_queue)) 5 = Some (Popped (Some 8))"
  using mpmc_try_alone[OF sample_new sample_reach sample_sel(2,1), of 5 9] sample_sel(3,4) by (simp add: Let_def)

text \<open>A consumer that waits on an empty queue.\<close>

lemma waiting_consumer: "mq_step\<^sup>*\<^sup>* (the (newQueue 2)) (mq_pop 1 (the (newQueue 2) :: nat mpmc))"
  "small (mq_pop 1 (the (newQueue 2) :: nat mpmc))" "stuck (mq_pop 1 (the (newQueue 2) :: nat mpmc))" "\<not> quiet (mq_pop 1 (the (newQueue 2) :: nat mpmc))"
proof -
  show "mq_step\<^sup>*\<^sup>* (the (newQueue 2)) (mq_pop 1 (the (newQueue 2) :: nat mpmc))" by (intro start_reach(2)) (simp_all add: newQueue_def)
qed (auto simp: sample_defs small_def stuck_def)

theorem mpmc_waits_only_full_or_empty_witness:
  "length (mq_ins (mq_pop 1 (the (newQueue 2) :: nat mpmc))) < mq_taken (mq_pop 1 (the (newQueue 2) :: nat mpmc))"
  using mpmc_waits_only_full_or_empty[OF sample_new waiting_consumer] by (auto simp: mq_pop_def mq_acts newQueue_def)

end
