(* ===== verification/Light_Semaphore.thy ===== *)
theory Light_Semaphore
  imports Neu_Prelude
begin

text \<open>
  The semaphore of \<open>common/concurrent_queue/light_weight_semaphore.hpp\<close>: a counter that is changed by atomic operations, and a semaphore of the
  operating system on which a thread sleeps only when the counter says that nothing is left. A negative counter is the number of threads
  that have announced to sleep.

  Every step is one access to the counter or to the semaphore of the system, interleaved freely for the threads \<open>0, \<dots>, ls_threads - 1\<close>. The argument
  \<open>luck\<close> of a step stands for what the code cannot foresee: whether a weak compare-and-exchange fails without reason, and whether a wait with a time limit
  runs out. A call of the system that is interrupted is repeated by the wrapper and is not a step. The counter is an integer here; the bounds proved for
  it show that it does not overflow.

  \<open>ls_signalled\<close> and \<open>ls_acquired\<close> count the permits given and taken, \<open>ls_ret\<close> is what the last operation of each thread returned; no operation reads them.
  \<open>wait()\<close> and \<open>tryWait()\<close> return 1 for true and 0 for false.
\<close>

section \<open>State\<close>

datatype ls_op = Wait | WaitMany int

datatype ls_pc =
    S_Idle
  | Try_Load ls_op "int option" int | Try_Cas ls_op "int option" int int
  | Spin_Load ls_op int nat | Spin_Cas ls_op int nat int
  | Fetch_Sub ls_op int | Sema_Wait ls_op int
  | Undo_Load ls_op | Undo_Try ls_op | Undo_Cas ls_op int
  | Post nat

record light_sema =
  ls_threads :: nat
  m_count :: int
  m_sema :: nat
  m_maxSpins :: nat
  ls_initial :: nat
  ls_pc :: "nat \<Rightarrow> ls_pc"
  ls_ret :: "nat \<Rightarrow> int option"
  ls_signalled :: nat
  ls_acquired :: int

definition newLightweightSemaphore :: "nat \<Rightarrow> nat \<Rightarrow> nat \<Rightarrow> light_sema" where
  "newLightweightSemaphore n initialCount maxSpins =
     \<lparr>ls_threads = n, m_count = int initialCount, m_sema = 0, m_maxSpins = maxSpins, ls_initial = initialCount, ls_pc = (\<lambda>_. S_Idle),
      ls_ret = (\<lambda>_. None), ls_signalled = 0, ls_acquired = 0\<rparr>"

definition ls_goto :: "nat \<Rightarrow> ls_pc \<Rightarrow> light_sema \<Rightarrow> light_sema" where
  "ls_goto t p s = s\<lparr>ls_pc := (ls_pc s)(t := p)\<rparr>"

definition ls_return :: "nat \<Rightarrow> int \<Rightarrow> light_sema \<Rightarrow> light_sema" where
  "ls_return t r s = s\<lparr>ls_pc := (ls_pc s)(t := S_Idle), ls_ret := (ls_ret s)(t \<mapsto> r)\<rparr>"

text \<open>What a successful compare-and-exchange leaves in the counter: \<open>wait\<close> takes one, \<open>waitMany\<close> as many as it may.\<close>

fun newCount :: "ls_op \<Rightarrow> int \<Rightarrow> int" where
  "newCount Wait oldCount = oldCount - 1"
| "newCount (WaitMany most) oldCount = (if oldCount > most then oldCount - most else 0)"

definition take_permits :: "int \<Rightarrow> light_sema \<Rightarrow> light_sema" where
  "take_permits k s = s\<lparr>ls_acquired := ls_acquired s + k\<rparr>"

section \<open>Operations\<close>

text \<open>\<open>tryWait\<close> and \<open>tryWaitMany\<close>. The second argument of the program counter is the time limit with which to go on when nothing is left, or \<open>None\<close>
  when the call returns then; the third is the number of permits the caller already has.\<close>

definition try_fails :: "nat \<Rightarrow> ls_op \<Rightarrow> int option \<Rightarrow> int \<Rightarrow> light_sema \<Rightarrow> light_sema" where
  "try_fails t op limit got s =
     (case limit of None \<Rightarrow> ls_return t got s | Some timeout_usecs \<Rightarrow> ls_goto t (Spin_Load op timeout_usecs (m_maxSpins s)) s)"

definition tryWaitMany :: "bool \<Rightarrow> nat \<Rightarrow> light_sema \<Rightarrow> light_sema" where
  "tryWaitMany luck t s =
     (case ls_pc s t of
        Try_Load op limit got \<Rightarrow>
          if m_count s > 0 then ls_goto t (Try_Cas op limit got (m_count s)) s else try_fails t op limit got s
      | Try_Cas op limit got oldCount \<Rightarrow>
          if luck \<and> m_count s = oldCount
          then ls_return t (got + (oldCount - newCount op oldCount))
            (take_permits (oldCount - newCount op oldCount) (s\<lparr>m_count := newCount op oldCount\<rparr>))
          else if m_count s > 0 then ls_goto t (Try_Cas op limit got (m_count s)) s else try_fails t op limit got s
      | _ \<Rightarrow> s)"

text \<open>A thread that got a permit from the semaphore of the system; \<open>waitMany\<close> then takes what else is there.\<close>

fun got_one :: "nat \<Rightarrow> ls_op \<Rightarrow> light_sema \<Rightarrow> light_sema" where
  "got_one t Wait s = ls_return t 1 (take_permits 1 s)"
| "got_one t (WaitMany most) s =
     (if most > 1 then ls_goto t (Try_Load (WaitMany (most - 1)) None 1) (take_permits 1 s) else ls_return t 1 (take_permits 1 s))"

definition waitWithPartialSpinning :: "bool \<Rightarrow> nat \<Rightarrow> light_sema \<Rightarrow> light_sema" where
  "waitWithPartialSpinning luck t s =
     (case ls_pc s t of
        Spin_Load op timeout_usecs spin \<Rightarrow>
          if spin = 0 then ls_goto t (Fetch_Sub op timeout_usecs) s
          else if m_count s > 0 then ls_goto t (Spin_Cas op timeout_usecs (spin - 1) (m_count s)) s
          else ls_goto t (Spin_Load op timeout_usecs (spin - 1)) s
      | Spin_Cas op timeout_usecs spin oldCount \<Rightarrow>
          if m_count s = oldCount
          then ls_return t (oldCount - newCount op oldCount)
            (take_permits (oldCount - newCount op oldCount) (s\<lparr>m_count := newCount op oldCount\<rparr>))
          else ls_goto t (Spin_Load op timeout_usecs spin) s
      | Fetch_Sub op timeout_usecs \<Rightarrow>
          let s1 = s\<lparr>m_count := m_count s - 1\<rparr> in
          if m_count s > 0 then got_one t op s1 else ls_goto t (Sema_Wait op timeout_usecs) s1
      | Sema_Wait op timeout_usecs \<Rightarrow>
          if timeout_usecs \<noteq> 0 \<and> m_sema s > 0 \<and> (timeout_usecs < 0 \<or> luck) then got_one t op (s\<lparr>m_sema := m_sema s - 1\<rparr>)
          else if timeout_usecs < 0 then s
          else ls_goto t (Undo_Load op) s
      | Undo_Load op \<Rightarrow> if m_count s \<ge> 0 then ls_goto t (Undo_Try op) s else ls_goto t (Undo_Cas op (m_count s)) s
      | Undo_Try op \<Rightarrow> if m_sema s > 0 then got_one t op (s\<lparr>m_sema := m_sema s - 1\<rparr>) else ls_goto t (Undo_Load op) s
      | Undo_Cas op oldCount \<Rightarrow>
          if m_count s = oldCount then ls_return t 0 (s\<lparr>m_count := oldCount + 1\<rparr>) else ls_goto t (Undo_Load op) s
      | _ \<Rightarrow> s)"

text \<open>The calls: \<open>wait()\<close> passes the time limit \<open>-1\<close>.\<close>

definition ls_tryWait :: "nat \<Rightarrow> light_sema \<Rightarrow> light_sema" where
  "ls_tryWait t s = ls_goto t (Try_Load Wait None 0) s"

definition ls_wait :: "nat \<Rightarrow> int \<Rightarrow> light_sema \<Rightarrow> light_sema" where
  "ls_wait t timeout_usecs s = ls_goto t (Try_Load Wait (Some timeout_usecs) 0) s"

definition ls_tryWaitMany :: "nat \<Rightarrow> int \<Rightarrow> light_sema \<Rightarrow> light_sema" where
  "ls_tryWaitMany t most s = ls_goto t (Try_Load (WaitMany most) None 0) s"

definition ls_waitMany :: "nat \<Rightarrow> int \<Rightarrow> int \<Rightarrow> light_sema \<Rightarrow> light_sema" where
  "ls_waitMany t most timeout_usecs s = ls_goto t (Try_Load (WaitMany most) (if most > 0 then Some timeout_usecs else None) 0) s"

definition ls_signal :: "nat \<Rightarrow> nat \<Rightarrow> light_sema \<Rightarrow> light_sema" where
  "ls_signal t n s =
     (let oldCount = m_count s; toRelease = if - oldCount < int n then - oldCount else int n
      in ls_goto t (if toRelease > 0 then Post (nat toRelease) else S_Idle)
           (s\<lparr>m_count := oldCount + int n, ls_signalled := ls_signalled s + n\<rparr>))"

definition sema_signal :: "nat \<Rightarrow> light_sema \<Rightarrow> light_sema" where
  "sema_signal t s =
     (case ls_pc s t of
        Post k \<Rightarrow> if k = 0 then ls_goto t S_Idle s else ls_goto t (Post (k - 1)) (s\<lparr>m_sema := m_sema s + 1\<rparr>)
      | _ \<Rightarrow> s)"

definition ls_next :: "bool \<Rightarrow> nat \<Rightarrow> light_sema \<Rightarrow> light_sema" where
  "ls_next luck t s =
     (case ls_pc s t of
        S_Idle \<Rightarrow> s
      | Try_Load _ _ _ \<Rightarrow> tryWaitMany luck t s | Try_Cas _ _ _ _ \<Rightarrow> tryWaitMany luck t s
      | Post _ \<Rightarrow> sema_signal t s
      | _ \<Rightarrow> waitWithPartialSpinning luck t s)"

inductive ls_step :: "light_sema \<Rightarrow> light_sema \<Rightarrow> bool" where
  call_tryWait: "t < ls_threads s \<Longrightarrow> ls_pc s t = S_Idle \<Longrightarrow> ls_step s (ls_tryWait t s)"
| call_wait: "t < ls_threads s \<Longrightarrow> ls_pc s t = S_Idle \<Longrightarrow> ls_step s (ls_wait t timeout_usecs s)"
| call_tryWaitMany: "t < ls_threads s \<Longrightarrow> ls_pc s t = S_Idle \<Longrightarrow> 0 \<le> most \<Longrightarrow> ls_step s (ls_tryWaitMany t most s)"
| call_waitMany: "t < ls_threads s \<Longrightarrow> ls_pc s t = S_Idle \<Longrightarrow> 0 \<le> most \<Longrightarrow> ls_step s (ls_waitMany t most timeout_usecs s)"
| call_signal: "t < ls_threads s \<Longrightarrow> ls_pc s t = S_Idle \<Longrightarrow> ls_step s (ls_signal t n s)"
| ls_proceed: "t < ls_threads s \<Longrightarrow> ls_step s (ls_next luck t s)"

section \<open>The invariant\<close>

text \<open>A thread that has announced to sleep and neither got its permit nor taken the announcement back, and the wake-ups a thread still has to send.\<close>

fun announced :: "ls_pc \<Rightarrow> int" where
  "announced (Sema_Wait _ _) = 1"
| "announced (Undo_Load _) = 1"
| "announced (Undo_Try _) = 1"
| "announced (Undo_Cas _ _) = 1"
| "announced _ = 0"

fun posts :: "ls_pc \<Rightarrow> int" where
  "posts (Post k) = int k"
| "posts _ = 0"

definition total :: "(ls_pc \<Rightarrow> int) \<Rightarrow> light_sema \<Rightarrow> int" where
  "total f s = (\<Sum>t < ls_threads s. f (ls_pc s t))"

fun op_ok :: "ls_op \<Rightarrow> bool" where
  "op_ok Wait \<longleftrightarrow> True"
| "op_ok (WaitMany most) \<longleftrightarrow> 0 \<le> most"

fun lpc_ok :: "ls_pc \<Rightarrow> bool" where
  "lpc_ok (Try_Load op _ got) \<longleftrightarrow> op_ok op \<and> 0 \<le> got"
| "lpc_ok (Try_Cas op _ got oldCount) \<longleftrightarrow> op_ok op \<and> 0 \<le> got \<and> 0 < oldCount"
| "lpc_ok (Spin_Load op _ _) \<longleftrightarrow> op_ok op"
| "lpc_ok (Spin_Cas op _ _ oldCount) \<longleftrightarrow> op_ok op \<and> 0 < oldCount"
| "lpc_ok (Fetch_Sub op _) \<longleftrightarrow> op_ok op"
| "lpc_ok (Sema_Wait op _) \<longleftrightarrow> op_ok op"
| "lpc_ok (Undo_Load op) \<longleftrightarrow> op_ok op"
| "lpc_ok (Undo_Try op) \<longleftrightarrow> op_ok op"
| "lpc_ok (Undo_Cas op oldCount) \<longleftrightarrow> op_ok op \<and> oldCount < 0"
| "lpc_ok _ \<longleftrightarrow> True"

definition ls_inv :: "light_sema \<Rightarrow> bool" where
  "ls_inv s \<longleftrightarrow>
     m_count s = int (ls_initial s) + int (ls_signalled s) - ls_acquired s - total announced s \<and>
     total announced s = max 0 (- m_count s) + int (m_sema s) + total posts s \<and>
     (\<forall>t. lpc_ok (ls_pc s t))"

lemma total_upd:
  assumes "t < ls_threads s" and "ls_threads s' = ls_threads s" and "ls_pc s' = (ls_pc s)(t := p)"
  shows "total f s' = total f s - f (ls_pc s t) + f p"
proof -
  have "(\<Sum>u < ls_threads s. f (((ls_pc s)(t := p)) u)) = f p + (\<Sum>u \<in> {..<ls_threads s} - {t}. f (((ls_pc s)(t := p)) u))"
    using assms(1) by (subst sum.remove[of _ t]) auto
  also have "\<dots> = f p + (\<Sum>u \<in> {..<ls_threads s} - {t}. f (ls_pc s u))" by (intro arg_cong2[where f = "(+)"] sum.cong) auto
  also have "\<dots> = f p + ((\<Sum>u < ls_threads s. f (ls_pc s u)) - f (ls_pc s t))" using assms(1) by (simp add: sum_diff1)
  finally show ?thesis using assms(2,3) by (simp add: total_def)
qed

lemma newCount_range: "op_ok op \<Longrightarrow> 0 < c \<Longrightarrow> 0 \<le> newCount op c \<and> newCount op c \<le> c"
  by (cases op) auto

text \<open>One rule for every access: what the thread, the counter, the semaphore and the permits change to.\<close>

lemma inv_access:
  assumes inv: "ls_inv s" and t: "t < ls_threads s" and pc: "ls_pc s' = (ls_pc s)(t := p)" "lpc_ok p"
    and same: "ls_threads s' = ls_threads s" "ls_initial s' = ls_initial s"
    and count: "m_count s' - m_count s = (int (ls_signalled s') - int (ls_signalled s)) - (ls_acquired s' - ls_acquired s) - (announced p - announced (ls_pc s t))"
    and wake: "announced p - announced (ls_pc s t) =
      (max 0 (- m_count s') - max 0 (- m_count s)) + (int (m_sema s') - int (m_sema s)) + (posts p - posts (ls_pc s t))"
  shows "ls_inv s'"
proof -
  have a: "total announced s' = total announced s - announced (ls_pc s t) + announced p"
    and b: "total posts s' = total posts s - posts (ls_pc s t) + posts p"
    using total_upd[OF t same(1) pc(1)] by simp_all
  define x x' where "x = max 0 (- m_count s)" and "x' = max 0 (- m_count s')"
  have i: "m_count s = int (ls_initial s) + int (ls_signalled s) - ls_acquired s - total announced s"
    "total announced s = x + int (m_sema s) + total posts s" using inv unfolding ls_inv_def x_def by blast+
  have w: "announced p - announced (ls_pc s t) = x' - x + (int (m_sema s') - int (m_sema s)) + (posts p - posts (ls_pc s t))"
    using wake unfolding x_def x'_def .
  have "m_count s' = int (ls_initial s') + int (ls_signalled s') - ls_acquired s' - total announced s'"
    unfolding a same(2) using i(1) count by linarith
  moreover have "total announced s' = x' + int (m_sema s') + total posts s'" unfolding a b using i(2) w by linarith
  moreover have "\<forall>u. lpc_ok (ls_pc s' u)" using inv pc by (simp add: ls_inv_def)
  ultimately show ?thesis unfolding ls_inv_def x'_def by blast
qed

lemma ls_invE:
  assumes "ls_inv s"
  obtains x where "m_count s = int (ls_initial s) + int (ls_signalled s) - ls_acquired s - total announced s"
    and "total announced s = x + int (m_sema s) + total posts s" and "0 \<le> x" and "- m_count s \<le> x" and "x = 0 \<or> x = - m_count s"
  using assms that[of "max 0 (- m_count s)"] unfolding ls_inv_def by (metis max.cobounded1 max.cobounded2 max_def)

lemmas ls_acts = ls_goto_def ls_return_def take_permits_def

lemma inv_ls_next:
  assumes inv: "ls_inv s" and t: "t < ls_threads s"
  shows "ls_inv (ls_next luck t s)"
proof -
  have ok: "lpc_ok (ls_pc s t)" using inv by (simp add: ls_inv_def)
  note rule = inv_access[OF inv t]
  show ?thesis
  proof (cases "ls_pc s t")
    case (Try_Load op limit got)
    then show ?thesis using ok by (intro rule[where p = "ls_pc (ls_next luck t s) t"])
        (auto simp: ls_next_def tryWaitMany_def try_fails_def ls_acts split: option.splits)
  next
    case (Try_Cas op limit got old)
    then show ?thesis using ok newCount_range[of op old] by (intro rule[where p = "ls_pc (ls_next luck t s) t"])
        (auto simp: ls_next_def tryWaitMany_def try_fails_def ls_acts split: option.splits)
  next
    case (Spin_Cas op limit n old)
    then show ?thesis using ok newCount_range[of op old] by (intro rule[where p = "ls_pc (ls_next luck t s) t"])
        (auto simp: ls_next_def waitWithPartialSpinning_def ls_acts Let_def)
  next
    case (Fetch_Sub op limit)
    then show ?thesis using ok by (cases op) (intro rule[where p = "ls_pc (ls_next luck t s) t"];
        auto simp: ls_next_def waitWithPartialSpinning_def ls_acts Let_def)+
  next
    case (Sema_Wait op limit)
    then show ?thesis using ok by (cases op) (intro rule[where p = "ls_pc (ls_next luck t s) t"];
        auto simp: ls_next_def waitWithPartialSpinning_def ls_acts Let_def)+
  next
    case (Undo_Try op)
    then show ?thesis using ok by (cases op) (intro rule[where p = "ls_pc (ls_next luck t s) t"];
        auto simp: ls_next_def waitWithPartialSpinning_def ls_acts Let_def)+
  next
    case (Post k)
    then show ?thesis using ok by (intro rule[where p = "ls_pc (ls_next luck t s) t"]) (auto simp: ls_next_def sema_signal_def ls_acts)
  qed (use ok in \<open>intro rule[where p = "ls_pc (ls_next luck t s) t"]; auto simp: ls_next_def waitWithPartialSpinning_def ls_acts Let_def\<close>)+
qed

lemma inv_ls_step: "ls_step s s' \<Longrightarrow> ls_inv s \<Longrightarrow> ls_inv s'"
proof (induction rule: ls_step.induct)
  case (call_signal t s n)
  let ?p = "if 0 < (if - m_count s < int n then - m_count s else int n) then Post (nat (if - m_count s < int n then - m_count s else int n)) else S_Idle"
  show ?case using call_signal
    by (intro inv_access[OF call_signal(3,1), where p = ?p]) (auto simp: ls_signal_def ls_acts Let_def)
next
  case (call_tryWait t s)
  then show ?case by (intro inv_access[OF call_tryWait(3,1), where p = "Try_Load Wait None 0"]) (auto simp: ls_tryWait_def ls_acts)
next
  case (call_wait t s limit)
  then show ?case by (intro inv_access[OF call_wait(3,1), where p = "Try_Load Wait (Some limit) 0"]) (auto simp: ls_wait_def ls_acts)
next
  case (call_tryWaitMany t s most)
  then show ?case by (intro inv_access[OF call_tryWaitMany(4,1), where p = "Try_Load (WaitMany most) None 0"]) (auto simp: ls_tryWaitMany_def ls_acts)
next
  case (call_waitMany t s most limit)
  then show ?case
    by (intro inv_access[OF call_waitMany(4,1), where p = "Try_Load (WaitMany most) (if most > 0 then Some limit else None) 0"])
      (auto simp: ls_waitMany_def ls_acts)
next
  case (ls_proceed t s luck)
  then show ?case by (simp add: inv_ls_next)
qed

lemma step_same: "ls_step s s' \<Longrightarrow> ls_threads s' = ls_threads s \<and> ls_initial s' = ls_initial s"
proof (induction rule: ls_step.induct)
  case (ls_proceed t s luck)
  have "ls_threads (got_one t op s) = ls_threads s \<and> ls_initial (got_one t op s) = ls_initial s" for op s by (cases op) (simp_all add: ls_acts)
  then show ?case
    by (cases "ls_pc s t") (auto simp: ls_next_def tryWaitMany_def try_fails_def waitWithPartialSpinning_def sema_signal_def ls_acts Let_def split: option.splits)
qed (simp_all add: ls_tryWait_def ls_wait_def ls_tryWaitMany_def ls_waitMany_def ls_signal_def ls_acts Let_def)

lemma sema_reachable:
  assumes "ls_step\<^sup>*\<^sup>* (newLightweightSemaphore n k spins) s"
  shows "ls_inv s" and "ls_threads s = n" and "ls_initial s = k"
proof -
  have new: "ls_inv (newLightweightSemaphore n k spins)" by (simp add: ls_inv_def newLightweightSemaphore_def total_def)
  from assms show "ls_inv s" by (induction rule: rtranclp_induct) (auto intro: new inv_ls_step)
  from assms show "ls_threads s = n" "ls_initial s = k"
    by (induction rule: rtranclp_induct) (auto simp: newLightweightSemaphore_def dest: step_same)
qed

lemma total_bounds: "0 \<le> total announced s \<and> total announced s \<le> int (ls_threads s) \<and> 0 \<le> total posts s"
proof -
  have "0 \<le> announced p" "announced p \<le> 1" "0 \<le> posts p" for p by (cases p; simp)+
  then show ?thesis using sum_mono[of "{..<ls_threads s}" "\<lambda>t. announced (ls_pc s t)" "\<lambda>_. 1"] by (simp add: total_def sum_nonneg)
qed

section \<open>Properties\<close>

text \<open>Permits are conserved. In every interleaving, with time-outs and failing exchanges, no more permits are taken than the
  initial ones and those signalled; the counter stays between minus the number of threads and that sum; and when no operation is under way
  the counter is exactly what is left, and no wake-up is pending in the system.\<close>

theorem semaphore_conserves_permits:
  assumes "ls_step\<^sup>*\<^sup>* (newLightweightSemaphore n k spins) s"
  shows "ls_acquired s \<le> int k + int (ls_signalled s) \<and> - int n \<le> m_count s \<and> m_count s \<le> int k + int (ls_signalled s) - ls_acquired s \<and>
    ((\<forall>t < n. ls_pc s t = S_Idle) \<longrightarrow> m_count s = int k + int (ls_signalled s) - ls_acquired s \<and> m_sema s = 0)"
proof -
  note r = sema_reachable[OF assms]
  obtain x where i: "m_count s = int k + int (ls_signalled s) - ls_acquired s - total announced s"
    "total announced s = x + int (m_sema s) + total posts s" "0 \<le> x" "- m_count s \<le> x" "x = 0 \<or> x = - m_count s"
    by (rule ls_invE[OF r(1), unfolded r(3)])
  note b = total_bounds[of s, unfolded r(2)]
  have quiet: "(\<forall>t < n. ls_pc s t = S_Idle) \<Longrightarrow> total announced s = 0 \<and> total posts s = 0" using r(2) by (simp add: total_def)
  have "ls_acquired s \<le> int k + int (ls_signalled s)" "- int n \<le> m_count s" "m_count s \<le> int k + int (ls_signalled s) - ls_acquired s"
    using i b by linarith+
  moreover have "m_count s = int k + int (ls_signalled s) - ls_acquired s \<and> m_sema s = 0" if "\<forall>t < n. ls_pc s t = S_Idle"
    using i(1-3) quiet[OF that] by linarith
  ultimately show ?thesis by blast
qed

definition asleep :: "light_sema \<Rightarrow> bool" where
  "asleep s \<longleftrightarrow> (\<forall>t < ls_threads s. \<forall>luck. ls_next luck t s = s)"

lemma asleep_pc:
  assumes "ls_inv s" and "asleep s" and "t < ls_threads s"
  shows "ls_pc s t = S_Idle \<or> (\<exists>op limit. ls_pc s t = Sema_Wait op limit \<and> limit < 0 \<and> m_sema s = 0)"
proof -
  have n: "ls_pc (ls_next luck t s) t = ls_pc s t" for luck using assms(2,3) by (simp add: asleep_def)
  have g: "ls_pc (got_one t op s1) t \<noteq> Sema_Wait op l" "ls_pc (got_one t op s1) t \<noteq> Fetch_Sub op l" "ls_pc (got_one t op s1) t \<noteq> Undo_Try op" for op s1 l
    by (cases op; simp add: ls_acts)+
  show ?thesis
    using n[of True] g
    by (cases "ls_pc s t") (auto simp: ls_next_def tryWaitMany_def try_fails_def waitWithPartialSpinning_def sema_signal_def ls_acts Let_def
        split: option.splits if_splits)
qed

lemma asleep_acquired:
  assumes inv: "ls_inv s" and as: "asleep s" and t: "t < ls_threads s" and busy: "ls_pc s t \<noteq> S_Idle"
  shows "ls_acquired s = int (ls_initial s) + int (ls_signalled s)"
proof -
  note pc = asleep_pc[OF inv as]
  obtain x where i: "m_count s = int (ls_initial s) + int (ls_signalled s) - ls_acquired s - total announced s"
    "total announced s = x + int (m_sema s) + total posts s" "0 \<le> x" "- m_count s \<le> x" "x = 0 \<or> x = - m_count s"
    by (rule ls_invE[OF inv])
  have "posts (ls_pc s u) = 0" if "u < ls_threads s" for u using pc[OF that] by auto
  then have p: "total posts s = 0" by (simp add: total_def)
  have m: "m_sema s = 0" using pc[OF t] busy by auto
  have "announced (ls_pc s t) = 1" using pc[OF t] busy by auto
  moreover have "0 \<le> announced p" for p by (cases p) simp_all
  ultimately have "0 < total announced s" using sum_pos2[of "{..<ls_threads s}" t "\<lambda>t. announced (ls_pc s t)"] t by (simp add: total_def)
  then show ?thesis using i p m by linarith
qed

text \<open>C21. No wake-up is lost. When no thread can move and some thread is in an operation, then all these threads sleep in a wait without time
  limit, and every permit that was ever signalled has been taken.\<close>

theorem semaphore_no_lost_wakeup:
  assumes "ls_step\<^sup>*\<^sup>* (newLightweightSemaphore n k spins) s" and "asleep s" and "t < n" and "ls_pc s t \<noteq> S_Idle"
  shows "ls_acquired s = int k + int (ls_signalled s) \<and> (\<forall>u < n. ls_pc s u = S_Idle \<or> (\<exists>op limit. ls_pc s u = Sema_Wait op limit \<and> limit < 0))"
proof -
  note r = sema_reachable[OF assms(1)]
  show ?thesis
    using asleep_acquired[OF r(1) assms(2), unfolded r(2,3), OF assms(3,4)] asleep_pc[OF r(1) assms(2), unfolded r(2)] by blast
qed

section \<open>Examples\<close>

text \<open>Two threads: thread 0 waits for a permit and sleeps; thread 1 signals.\<close>

definition sample_sleep :: light_sema where
  "sample_sleep = (ls_next True 0 ^^ 3) (ls_wait 0 (- 1) (newLightweightSemaphore 2 0 0))"

lemma ls_next_reach: "ls_step\<^sup>*\<^sup>* s0 s \<Longrightarrow> t < ls_threads s0 \<Longrightarrow> ls_step\<^sup>*\<^sup>* s0 ((ls_next luck t ^^ n) s)"
proof (induction n)
  case (Suc n)
  let ?s = "(ls_next luck t ^^ n) s"
  have r: "ls_step\<^sup>*\<^sup>* s0 ?s" using Suc by simp
  then have "ls_threads ?s = ls_threads s0" by (induction rule: rtranclp_induct) (auto dest: step_same)
  then have "ls_step ?s (ls_next luck t ?s)" using Suc.prems(2) by (simp add: ls_proceed)
  with r show ?case by simp
qed simp

lemmas sleep_defs = numeral_eq_Suc ls_next_def tryWaitMany_def try_fails_def waitWithPartialSpinning_def ls_acts Let_def ls_wait_def
  newLightweightSemaphore_def

lemma sample_sleep_pc: "ls_pc sample_sleep = (\<lambda>_. S_Idle)(0 := Sema_Wait Wait (- 1))" "m_sema sample_sleep = 0" "ls_threads sample_sleep = 2"
  by (simp_all add: sample_sleep_def sleep_defs)

lemma sample_sleep_reach: "ls_step\<^sup>*\<^sup>* (newLightweightSemaphore 2 0 0) sample_sleep"
proof -
  let ?s = "newLightweightSemaphore 2 0 0"
  have "ls_step ?s (ls_wait 0 (- 1) ?s)" by (rule call_wait) (simp_all add: newLightweightSemaphore_def)
  then have "ls_step\<^sup>*\<^sup>* ?s (ls_wait 0 (- 1) ?s)" by simp
  then show ?thesis unfolding sample_sleep_def by (rule ls_next_reach) (simp add: newLightweightSemaphore_def)
qed

theorem semaphore_conserves_permits_witness: "ls_acquired sample_sleep \<le> int (ls_signalled sample_sleep) \<and> - 2 \<le> m_count sample_sleep"
  using semaphore_conserves_permits[OF sample_sleep_reach] by simp

theorem semaphore_no_lost_wakeup_witness: "ls_acquired sample_sleep = int (ls_signalled sample_sleep)"
proof -
  have "asleep sample_sleep"
    unfolding asleep_def sample_sleep_pc by (auto simp: ls_next_def waitWithPartialSpinning_def sample_sleep_pc)
  then show ?thesis using semaphore_no_lost_wakeup[OF sample_sleep_reach, of 0] by (simp add: sample_sleep_pc)
qed

end
