(* ===== verification/Blocking_Queue.thy ===== *)
theory Blocking_Queue
  imports Mpmc_Queue Light_Semaphore
begin

text \<open>
  \<open>BlockingMPMCQueue\<close> (\<open>common/concurrent_queue/blocking_mpmc_queue.h\<close>): the ring of \<open>Mpmc_Queue\<close> with the semaphore of \<open>Light_Semaphore\<close>, which counts
  the values that have been pushed. A step is a step of one of the two for one thread; when one of them has returned, the thread starts the next
  call with the same step.

  A bulk dequeue writes its items through an iterator; \<open>bq_items\<close> has the position and the value of each write.
\<close>

section \<open>State and operations\<close>

datatype bq_pc =
    B_Idle | B_Push | B_Signal | B_Wait | B_Pop | B_TryWait | B_TryPop
  | B_BulkWait | B_Bulk nat nat nat | B_BulkPop nat nat nat

datatype 'a bq_result = BQ_Value 'a | BQ_None | BQ_Count nat

record 'a blocking_queue =
  bq_queue :: "'a mpmc"
  bq_sema :: light_sema
  bq_pc :: "nat \<Rightarrow> bq_pc"
  bq_items :: "nat \<Rightarrow> (nat \<times> 'a) list"
  bq_ret :: "nat \<Rightarrow> 'a bq_result option"

definition newBlockingMPMCQueue :: "nat \<Rightarrow> nat \<Rightarrow> nat \<Rightarrow> 'a blocking_queue option" where
  "newBlockingMPMCQueue n spins cap =
     map_option (\<lambda>q. \<lparr>bq_queue = q, bq_sema = newLightweightSemaphore n 0 spins, bq_pc = (\<lambda>_. B_Idle), bq_items = (\<lambda>_. []), bq_ret = (\<lambda>_. None)\<rparr>)
       (newQueue cap)"

definition bq_goto :: "nat \<Rightarrow> bq_pc \<Rightarrow> 'a blocking_queue \<Rightarrow> 'a blocking_queue" where
  "bq_goto t p s = s\<lparr>bq_pc := (bq_pc s)(t := p)\<rparr>"

definition bq_return :: "nat \<Rightarrow> 'a bq_result \<Rightarrow> 'a blocking_queue \<Rightarrow> 'a blocking_queue" where
  "bq_return t r s = s\<lparr>bq_pc := (bq_pc s)(t := B_Idle), bq_ret := (bq_ret s)(t \<mapsto> r)\<rparr>"

definition bq_push :: "nat \<Rightarrow> 'a \<Rightarrow> 'a blocking_queue \<Rightarrow> 'a blocking_queue" where
  "bq_push t v s = bq_goto t B_Push (s\<lparr>bq_queue := mq_push t v (bq_queue s)\<rparr>)"

definition bq_pop :: "nat \<Rightarrow> 'a blocking_queue \<Rightarrow> 'a blocking_queue" where
  "bq_pop t s = bq_goto t B_Wait (s\<lparr>bq_sema := ls_wait t (- 1) (bq_sema s)\<rparr>)"

definition bq_try_pop :: "nat \<Rightarrow> 'a blocking_queue \<Rightarrow> 'a blocking_queue" where
  "bq_try_pop t s = bq_goto t B_TryWait (s\<lparr>bq_sema := ls_tryWait t (bq_sema s)\<rparr>)"

definition wait_dequeue_bulk_timed :: "nat \<Rightarrow> nat \<Rightarrow> int \<Rightarrow> 'a blocking_queue \<Rightarrow> 'a blocking_queue" where
  "wait_dequeue_bulk_timed t most timeout_usecs s =
     bq_goto t B_BulkWait (s\<lparr>bq_sema := ls_waitMany t (int most) timeout_usecs (bq_sema s), bq_items := (bq_items s)(t := [])\<rparr>)"

text \<open>The value a pop of the ring has returned to a thread, if any.\<close>

definition popped_value :: "nat \<Rightarrow> 'a mpmc \<Rightarrow> 'a option" where
  "popped_value t q = (case mq_ret q t of Some (Popped r) \<Rightarrow> r | _ \<Rightarrow> None)"

definition q_step :: "nat \<Rightarrow> 'a blocking_queue \<Rightarrow> 'a blocking_queue" where
  "q_step t s = s\<lparr>bq_queue := mq_next t (bq_queue s)\<rparr>"

definition s_step :: "bool \<Rightarrow> nat \<Rightarrow> 'a blocking_queue \<Rightarrow> 'a blocking_queue" where
  "s_step luck t s = s\<lparr>bq_sema := ls_next luck t (bq_sema s)\<rparr>"

text \<open>What a thread does when the call it has made has returned: \<open>push\<close> signals, \<open>pop\<close> and \<open>try_pop\<close> go to the ring once they have a permit,
  and the loops over \<open>try_pop\<close> go round. The iterator moves on with every attempt.\<close>

definition after_push :: "nat \<Rightarrow> 'a blocking_queue \<Rightarrow> 'a blocking_queue" where
  "after_push t s = bq_goto t B_Signal (s\<lparr>bq_sema := ls_signal t 1 (bq_sema s)\<rparr>)"

definition after_wait :: "nat \<Rightarrow> 'a blocking_queue \<Rightarrow> 'a blocking_queue" where
  "after_wait t s =
     (if ls_ret (bq_sema s) t = Some 0 then s\<lparr>bq_sema := ls_wait t (- 1) (bq_sema s)\<rparr>
      else bq_goto t B_Pop (s\<lparr>bq_queue := mq_pop t (bq_queue s)\<rparr>))"

definition after_pop :: "nat \<Rightarrow> 'a blocking_queue \<Rightarrow> 'a blocking_queue" where
  "after_pop t s = bq_return t (case popped_value t (bq_queue s) of Some v \<Rightarrow> BQ_Value v | None \<Rightarrow> BQ_None) s"

definition after_tryWait :: "nat \<Rightarrow> 'a blocking_queue \<Rightarrow> 'a blocking_queue" where
  "after_tryWait t s =
     (if ls_ret (bq_sema s) t = Some 0 then bq_return t BQ_None s
      else bq_goto t B_TryPop (s\<lparr>bq_queue := mq_try_pop t (bq_queue s)\<rparr>))"

definition after_try_pop :: "nat \<Rightarrow> 'a blocking_queue \<Rightarrow> 'a blocking_queue" where
  "after_try_pop t s =
     (case popped_value t (bq_queue s) of
        Some v \<Rightarrow> bq_return t (BQ_Value v) s
      | None \<Rightarrow> s\<lparr>bq_queue := mq_try_pop t (bq_queue s)\<rparr>)"

definition bulk_loop :: "nat \<Rightarrow> nat \<Rightarrow> nat \<Rightarrow> nat \<Rightarrow> 'a blocking_queue \<Rightarrow> 'a blocking_queue" where
  "bulk_loop t n most item s =
     (if n = most then bq_return t (BQ_Count n) s
      else bq_goto t (B_BulkPop n most item) (s\<lparr>bq_queue := mq_try_pop t (bq_queue s)\<rparr>))"

definition after_bulk_pop :: "nat \<Rightarrow> nat \<Rightarrow> nat \<Rightarrow> nat \<Rightarrow> 'a blocking_queue \<Rightarrow> 'a blocking_queue" where
  "after_bulk_pop t n most item s =
     (case popped_value t (bq_queue s) of
        Some v \<Rightarrow> bq_goto t (B_Bulk (n + 1) most (item + 1)) (s\<lparr>bq_items := (bq_items s)(t := bq_items s t @ [(item, v)])\<rparr>)
      | None \<Rightarrow> bq_goto t (B_Bulk n most (item + 1)) s)"

definition bq_next :: "bool \<Rightarrow> nat \<Rightarrow> 'a blocking_queue \<Rightarrow> 'a blocking_queue" where
  "bq_next luck t s =
     (let q_idle = (mq_pc (bq_queue s) t = Idle); s_idle = (ls_pc (bq_sema s) t = S_Idle) in
      case bq_pc s t of
        B_Idle \<Rightarrow> s
      | B_Push \<Rightarrow> if q_idle then after_push t s else q_step t s
      | B_Signal \<Rightarrow> if s_idle then bq_goto t B_Idle s else s_step luck t s
      | B_Wait \<Rightarrow> if s_idle then after_wait t s else s_step luck t s
      | B_Pop \<Rightarrow> if q_idle then after_pop t s else q_step t s
      | B_TryWait \<Rightarrow> if s_idle then after_tryWait t s else s_step luck t s
      | B_TryPop \<Rightarrow> if q_idle then after_try_pop t s else q_step t s
      | B_BulkWait \<Rightarrow> if s_idle then bq_goto t (B_Bulk 0 (case ls_ret (bq_sema s) t of Some r \<Rightarrow> nat r | None \<Rightarrow> 0) 0) s else s_step luck t s
      | B_Bulk n most item \<Rightarrow> bulk_loop t n most item s
      | B_BulkPop n most item \<Rightarrow> if q_idle then after_bulk_pop t n most item s else q_step t s)"

inductive bq_step :: "'a blocking_queue \<Rightarrow> 'a blocking_queue \<Rightarrow> bool" where
  call_push: "t < ls_threads (bq_sema s) \<Longrightarrow> bq_pc s t = B_Idle \<Longrightarrow> bq_step s (bq_push t v s)"
| call_pop: "t < ls_threads (bq_sema s) \<Longrightarrow> bq_pc s t = B_Idle \<Longrightarrow> bq_step s (bq_pop t s)"
| call_try_pop: "t < ls_threads (bq_sema s) \<Longrightarrow> bq_pc s t = B_Idle \<Longrightarrow> bq_step s (bq_try_pop t s)"
| call_bulk: "t < ls_threads (bq_sema s) \<Longrightarrow> bq_pc s t = B_Idle \<Longrightarrow> bq_step s (wait_dequeue_bulk_timed t most timeout_usecs s)"
| bq_proceed: "t < ls_threads (bq_sema s) \<Longrightarrow> bq_step s (bq_next luck t s)"

section \<open>What a step of a component changes\<close>

lemmas mq_next_defs = mq_next_def emplace_def try_emplace_def pop_def try_pop_def mq_acts
lemmas mq_call_defs = mq_push_def mq_pop_def mq_try_pop_def mq_acts
lemmas ls_next_defs = ls_next_def tryWaitMany_def try_fails_def waitWithPartialSpinning_def sema_signal_def ls_acts Let_def
lemmas ls_call_defs = ls_wait_def ls_tryWait_def ls_waitMany_def ls_signal_def ls_acts Let_def

lemma mq_next_local: "u \<noteq> t \<Longrightarrow> mq_pc (mq_next t q) u = mq_pc q u \<and> mq_ret (mq_next t q) u = mq_ret q u"
  by (cases "mq_pc q t") (auto simp: mq_next_defs split: option.splits)

lemma got_one_local: "u \<noteq> t \<Longrightarrow> ls_pc (got_one t op l) u = ls_pc l u \<and> ls_ret (got_one t op l) u = ls_ret l u"
  by (cases op) (auto simp: ls_acts)

lemma ls_next_local: "u \<noteq> t \<Longrightarrow> ls_pc (ls_next luck t l) u = ls_pc l u \<and> ls_ret (ls_next luck t l) u = ls_ret l u"
  by (cases "ls_pc l t") (auto simp: ls_next_defs got_one_local split: option.splits)

text \<open>Programs of producers and of consumers on the ring, and of waiters on the semaphore.\<close>

fun push_pc :: "'a mq_pc \<Rightarrow> bool" where
  "push_pc Idle = True"
| "push_pc (E_Spin i v) = True"
| "push_pc (E_Construct i v) = True"
| "push_pc (E_Store i) = True"
| "push_pc _ = False"

fun pop_pc :: "'a mq_pc \<Rightarrow> bool" where
  "pop_pc Idle = True"
| "pop_pc (P_Spin j) = True"
| "pop_pc (P_Move j) = True"
| "pop_pc (P_Destroy j v) = True"
| "pop_pc (P_Store j v) = True"
| "pop_pc TP_Load = True"
| "pop_pc (TP_Turn j) = True"
| "pop_pc (TP_Cas j) = True"
| "pop_pc (TP_Reload j) = True"
| "pop_pc _ = False"

text \<open>Whether the attempt under way has its ticket.\<close>

definition has_ticket :: "nat \<Rightarrow> 'a mpmc \<Rightarrow> bool" where
  "has_ticket t q \<longleftrightarrow> out_ticket (mq_pc q t) \<noteq> None \<or> mq_pc q t = Idle \<and> popped_value t q \<noteq> None"

lemma push_next:
  assumes "push_pc (mq_pc q t)"
  shows "push_pc (mq_pc (mq_next t q) t)" and "mq_ins (mq_next t q) = mq_ins q" and "mq_taken (mq_next t q) = mq_taken q"
  using assms by (cases "mq_pc q t"; auto simp: mq_next_defs)+

lemma pop_next:
  assumes "pop_pc (mq_pc q t)" and "mq_pc q t \<noteq> Idle"
  shows "pop_pc (mq_pc (mq_next t q) t)" and "mq_ins (mq_next t q) = mq_ins q"
    and "mq_taken (mq_next t q) + of_bool (\<not> has_ticket t (mq_next t q)) = mq_taken q + of_bool (\<not> has_ticket t q)"
  using assms by (cases "mq_pc q t"; auto simp: mq_next_defs has_ticket_def popped_value_def split: option.splits)+

fun wait_pc :: "ls_pc \<Rightarrow> bool" where
  "wait_pc (Try_Load op limit got) \<longleftrightarrow> limit = None \<or> got = 0"
| "wait_pc (Try_Cas op limit got oldCount) \<longleftrightarrow> limit = None \<or> got = 0"
| "wait_pc (Post k) \<longleftrightarrow> False"
| "wait_pc _ \<longleftrightarrow> True"

fun single_pc :: "ls_pc \<Rightarrow> bool" where
  "single_pc S_Idle \<longleftrightarrow> True"
| "single_pc (Try_Load op limit got) \<longleftrightarrow> op = Wait \<and> got = 0"
| "single_pc (Try_Cas op limit got oldCount) \<longleftrightarrow> op = Wait \<and> got = 0"
| "single_pc (Spin_Load op limit n) \<longleftrightarrow> op = Wait"
| "single_pc (Spin_Cas op limit n oldCount) \<longleftrightarrow> op = Wait"
| "single_pc (Fetch_Sub op limit) \<longleftrightarrow> op = Wait"
| "single_pc (Sema_Wait op limit) \<longleftrightarrow> op = Wait"
| "single_pc (Undo_Load op) \<longleftrightarrow> op = Wait"
| "single_pc (Undo_Try op) \<longleftrightarrow> op = Wait"
| "single_pc (Undo_Cas op oldCount) \<longleftrightarrow> op = Wait"
| "single_pc (Post k) \<longleftrightarrow> False"

text \<open>The permits a waiter has.\<close>

definition permits :: "nat \<Rightarrow> light_sema \<Rightarrow> int" where
  "permits t l =
     (case ls_pc l t of
        S_Idle \<Rightarrow> (case ls_ret l t of Some r \<Rightarrow> r | None \<Rightarrow> 0)
      | Try_Load _ _ got \<Rightarrow> got
      | Try_Cas _ _ got _ \<Rightarrow> got
      | _ \<Rightarrow> 0)"

fun pc_permits :: "ls_pc \<Rightarrow> int" where
  "pc_permits (Try_Load _ _ got) = got"
| "pc_permits (Try_Cas _ _ got _) = got"
| "pc_permits _ = 0"

lemma permits_pc: "ls_pc l t \<noteq> S_Idle \<Longrightarrow> permits t l = pc_permits (ls_pc l t)"
  by (cases "ls_pc l t") (simp_all add: permits_def)

lemma act_sel:
  "ls_pc (ls_goto t p l) t = p" "ls_acquired (ls_goto t p l) = ls_acquired l" "ls_signalled (ls_goto t p l) = ls_signalled l"
  "p \<noteq> S_Idle \<Longrightarrow> permits t (ls_goto t p l) = pc_permits p"
  "ls_pc (ls_return t r l) t = S_Idle" "ls_acquired (ls_return t r l) = ls_acquired l" "ls_signalled (ls_return t r l) = ls_signalled l"
  "permits t (ls_return t r l) = r" "ls_ret (ls_return t r l) t = Some r"
  "ls_acquired (take_permits k l) = ls_acquired l + k" "ls_signalled (take_permits k l) = ls_signalled l"
  by (simp_all add: ls_acts permits_pc) (simp add: permits_def)

lemma got_one_sel:
  "wait_pc (ls_pc (got_one t op l) t)" "permits t (got_one t op l) = 1" "ls_acquired (got_one t op l) = ls_acquired l + 1"
  "ls_signalled (got_one t op l) = ls_signalled l" "got_one t Wait l = ls_return t 1 (take_permits 1 l)"
  by (cases op; simp add: act_sel)+

lemmas wait_defs = ls_next_def tryWaitMany_def try_fails_def waitWithPartialSpinning_def Let_def act_sel got_one_sel

lemma wait_next:
  assumes "wait_pc (ls_pc l t)" and "ls_pc l t \<noteq> S_Idle" and "lpc_ok (ls_pc l t)"
  shows "wait_pc (ls_pc (ls_next luck t l) t) \<and> ls_signalled (ls_next luck t l) = ls_signalled l \<and>
    ls_acquired (ls_next luck t l) - permits t (ls_next luck t l) = ls_acquired l - permits t l \<and> 0 \<le> permits t (ls_next luck t l)"
proof -
  have "op_ok op \<Longrightarrow> 0 < c \<Longrightarrow> 0 \<le> c - newCount op c" for op c using newCount_range[of op c] by simp
  then show ?thesis
    using assms permits_pc[OF assms(2)] by (cases "ls_pc l t") (auto simp: wait_defs split: option.splits)
qed

lemma single_next:
  assumes "single_pc (ls_pc l t)" and "ls_pc l t \<noteq> S_Idle"
  shows "single_pc (ls_pc (ls_next luck t l) t) \<and>
    (ls_pc (ls_next luck t l) t = S_Idle \<longrightarrow> ls_ret (ls_next luck t l) t = Some 0 \<or> ls_ret (ls_next luck t l) t = Some 1)"
  using assms by (cases "ls_pc l t") (auto simp: wait_defs split: option.splits)

lemma single_wait: "single_pc p \<Longrightarrow> wait_pc p"
  by (cases p) simp_all

lemma post_next:
  assumes "ls_pc l t = Post k"
  shows "ls_acquired (ls_next luck t l) = ls_acquired l" and "ls_signalled (ls_next luck t l) = ls_signalled l"
    and "ls_pc (ls_next luck t l) t = S_Idle \<or> (\<exists>k. ls_pc (ls_next luck t l) t = Post k)"
  using assms by (auto simp: ls_next_defs)

lemma taken_mono: "mq_taken q \<le> mq_taken (mq_next t q)"
  by (cases "mq_pc q t") (auto simp: mq_next_defs split: option.splits)

section \<open>The invariant\<close>

text \<open>Where the calls of a thread can be, and the permits it has taken from the semaphore without having a ticket of the ring yet.\<close>

fun stage_ok :: "bq_pc \<Rightarrow> nat \<Rightarrow> 'a mpmc \<Rightarrow> light_sema \<Rightarrow> bool" where
  "stage_ok B_Idle t q l \<longleftrightarrow> mq_pc q t = Idle \<and> ls_pc l t = S_Idle"
| "stage_ok B_Push t q l \<longleftrightarrow> push_pc (mq_pc q t) \<and> ls_pc l t = S_Idle"
| "stage_ok B_Signal t q l \<longleftrightarrow> mq_pc q t = Idle \<and> (ls_pc l t = S_Idle \<or> (\<exists>k. ls_pc l t = Post k))"
| "stage_ok B_Wait t q l \<longleftrightarrow>
     mq_pc q t = Idle \<and> single_pc (ls_pc l t) \<and> 0 \<le> permits t l \<and> (ls_pc l t = S_Idle \<longrightarrow> ls_ret l t = Some 0 \<or> ls_ret l t = Some 1)"
| "stage_ok B_TryWait t q l \<longleftrightarrow>
     mq_pc q t = Idle \<and> single_pc (ls_pc l t) \<and> 0 \<le> permits t l \<and> (ls_pc l t = S_Idle \<longrightarrow> ls_ret l t = Some 0 \<or> ls_ret l t = Some 1)"
| "stage_ok B_Pop t q l \<longleftrightarrow> ls_pc l t = S_Idle \<and> pop_pc (mq_pc q t) \<and> has_ticket t q"
| "stage_ok B_TryPop t q l \<longleftrightarrow> ls_pc l t = S_Idle \<and> pop_pc (mq_pc q t)"
| "stage_ok B_BulkWait t q l \<longleftrightarrow> mq_pc q t = Idle \<and> wait_pc (ls_pc l t) \<and> 0 \<le> permits t l"
| "stage_ok (B_Bulk n most item) t q l \<longleftrightarrow> mq_pc q t = Idle \<and> ls_pc l t = S_Idle \<and> n \<le> most"
| "stage_ok (B_BulkPop n most item) t q l \<longleftrightarrow> ls_pc l t = S_Idle \<and> pop_pc (mq_pc q t) \<and> n < most"

fun held :: "bq_pc \<Rightarrow> nat \<Rightarrow> 'a mpmc \<Rightarrow> light_sema \<Rightarrow> int" where
  "held B_Wait t q l = permits t l"
| "held B_TryWait t q l = permits t l"
| "held B_BulkWait t q l = permits t l"
| "held B_TryPop t q l = of_bool (\<not> has_ticket t q)"
| "held (B_Bulk n most item) t q l = int most - int n"
| "held (B_BulkPop n most item) t q l = int most - int n - of_bool (has_ticket t q)"
| "held _ t q l = 0"

definition all_held :: "'a blocking_queue \<Rightarrow> int" where
  "all_held s = (\<Sum>t < ls_threads (bq_sema s). held (bq_pc s t) t (bq_queue s) (bq_sema s))"

definition all_pushing :: "'a blocking_queue \<Rightarrow> int" where
  "all_pushing s = (\<Sum>t < ls_threads (bq_sema s). of_bool (bq_pc s t = B_Push))"

definition bq_inv :: "'a blocking_queue \<Rightarrow> bool" where
  "bq_inv s \<longleftrightarrow>
     mq_inv (bq_queue s) \<and> ls_inv (bq_sema s) \<and> ls_initial (bq_sema s) = 0 \<and>
     (\<forall>t. stage_ok (bq_pc s t) t (bq_queue s) (bq_sema s)) \<and> (\<forall>t \<ge> ls_threads (bq_sema s). bq_pc s t = B_Idle) \<and>
     int (length (mq_ins (bq_queue s))) = int (ls_signalled (bq_sema s)) + all_pushing s \<and>
     ls_acquired (bq_sema s) = int (mq_taken (bq_queue s)) + all_held s"

definition others_same :: "nat \<Rightarrow> 'a blocking_queue \<Rightarrow> 'a blocking_queue \<Rightarrow> bool" where
  "others_same t s s' \<longleftrightarrow>
     (\<forall>u. u \<noteq> t \<longrightarrow> bq_pc s' u = bq_pc s u \<and> mq_pc (bq_queue s') u = mq_pc (bq_queue s) u \<and> mq_ret (bq_queue s') u = mq_ret (bq_queue s) u \<and>
       ls_pc (bq_sema s') u = ls_pc (bq_sema s) u \<and> ls_ret (bq_sema s') u = ls_ret (bq_sema s) u)"

lemma thread_cong:
  assumes "mq_pc q' t = mq_pc q t" and "mq_ret q' t = mq_ret q t" and "ls_pc l' t = ls_pc l t" and "ls_ret l' t = ls_ret l t"
  shows "stage_ok p t q' l' = stage_ok p t q l \<and> held p t q' l' = held p t q l"
proof -
  have "permits t l' = permits t l" unfolding permits_def assms ..
  moreover have "has_ticket t q' = has_ticket t q" unfolding has_ticket_def popped_value_def assms ..
  ultimately show ?thesis by (cases p) (simp_all only: stage_ok.simps held.simps assms)
qed

lemma sum_thread:
  fixes f g :: "nat \<Rightarrow> int"
  assumes "t < n" and "\<And>u. u \<noteq> t \<Longrightarrow> f u = g u"
  shows "(\<Sum>u < n. f u) = (\<Sum>u < n. g u) - g t + f t"
proof -
  have "(\<Sum>u < n. f u) = f t + (\<Sum>u \<in> {..<n} - {t}. f u)" using assms(1) by (subst sum.remove[of _ t]) auto
  moreover have "(\<Sum>u < n. g u) = g t + (\<Sum>u \<in> {..<n} - {t}. g u)" using assms(1) by (subst sum.remove[of _ t]) auto
  moreover have "(\<Sum>u \<in> {..<n} - {t}. f u) = (\<Sum>u \<in> {..<n} - {t}. g u)" by (rule sum.cong) (use assms(2) in auto)
  ultimately show ?thesis by simp
qed

lemma inv_thread:
  assumes inv: "bq_inv s" and t: "t < ls_threads (bq_sema s)" and o: "others_same t s s'"
    and c: "mq_inv (bq_queue s')" "ls_inv (bq_sema s')" "ls_threads (bq_sema s') = ls_threads (bq_sema s)" "ls_initial (bq_sema s') = ls_initial (bq_sema s)"
    and ok: "stage_ok (bq_pc s' t) t (bq_queue s') (bq_sema s')"
    and push: "int (length (mq_ins (bq_queue s'))) - int (ls_signalled (bq_sema s')) - of_bool (bq_pc s' t = B_Push) =
      int (length (mq_ins (bq_queue s))) - int (ls_signalled (bq_sema s)) - of_bool (bq_pc s t = B_Push)"
    and pop: "ls_acquired (bq_sema s') - int (mq_taken (bq_queue s')) - held (bq_pc s' t) t (bq_queue s') (bq_sema s') =
      ls_acquired (bq_sema s) - int (mq_taken (bq_queue s)) - held (bq_pc s t) t (bq_queue s) (bq_sema s)"
  shows "bq_inv s'"
proof -
  have u: "stage_ok (bq_pc s' u) u (bq_queue s') (bq_sema s') = stage_ok (bq_pc s u) u (bq_queue s) (bq_sema s)"
    "held (bq_pc s' u) u (bq_queue s') (bq_sema s') = held (bq_pc s u) u (bq_queue s) (bq_sema s)" "bq_pc s' u = bq_pc s u" if "u \<noteq> t" for u
    using o that thread_cong[of "bq_queue s'" u "bq_queue s" "bq_sema s'" "bq_sema s"] unfolding others_same_def by metis+
  have "stage_ok (bq_pc s' v) v (bq_queue s') (bq_sema s')" for v using inv ok u(1)[of v] by (cases "v = t") (simp_all add: bq_inv_def)
  moreover have "bq_pc s' v = B_Idle" if "ls_threads (bq_sema s') \<le> v" for v using inv that t c(3) u(3)[of v] by (cases "v = t") (auto simp: bq_inv_def)
  moreover have "ls_acquired (bq_sema s') = int (mq_taken (bq_queue s')) + all_held s'"
  proof -
    have "all_held s' = all_held s - held (bq_pc s t) t (bq_queue s) (bq_sema s) + held (bq_pc s' t) t (bq_queue s') (bq_sema s')"
      unfolding all_held_def c(3) by (rule sum_thread[OF t]) (rule u(2))
    moreover have "ls_acquired (bq_sema s) = int (mq_taken (bq_queue s)) + all_held s" using inv unfolding bq_inv_def by blast
    ultimately show ?thesis using pop by linarith
  qed
  moreover have "int (length (mq_ins (bq_queue s'))) = int (ls_signalled (bq_sema s')) + all_pushing s'"
  proof -
    have "all_pushing s' = all_pushing s - of_bool (bq_pc s t = B_Push) + of_bool (bq_pc s' t = B_Push)"
      unfolding all_pushing_def c(3) by (rule sum_thread[OF t]) (simp add: u(3))
    moreover have "int (length (mq_ins (bq_queue s))) = int (ls_signalled (bq_sema s)) + all_pushing s" using inv unfolding bq_inv_def by blast
    ultimately show ?thesis using push by linarith
  qed
  moreover have "ls_initial (bq_sema s') = 0" using inv c(4) unfolding bq_inv_def by argo
  ultimately show ?thesis using c(1,2) unfolding bq_inv_def by blast
qed

section \<open>Every step keeps it\<close>

lemma bq_parts:
  assumes "bq_inv s"
  shows "mq_inv (bq_queue s)" "ls_inv (bq_sema s)" "stage_ok (bq_pc s t) t (bq_queue s) (bq_sema s)" "lpc_ok (ls_pc (bq_sema s) t)"
  using assms unfolding bq_inv_def ls_inv_def by blast+

lemma ls_step_parts: "ls_step l l' \<Longrightarrow> ls_inv l \<Longrightarrow> ls_inv l' \<and> ls_threads l' = ls_threads l \<and> ls_initial l' = ls_initial l"
  using inv_ls_step step_same by blast

lemma q_others: "others_same t s (q_step t s)"
  by (simp add: others_same_def q_step_def mq_next_local)

lemma s_others: "others_same t s (s_step luck t s)"
  by (simp add: others_same_def s_step_def ls_next_local)

lemma inv_q_push:
  assumes inv: "bq_inv s" and t: "t < ls_threads (bq_sema s)" and p: "bq_pc s t = B_Push" and small: "small (mq_next t (bq_queue s))"
  shows "bq_inv (q_step t s)"
proof -
  have ok: "push_pc (mq_pc (bq_queue s) t)" "ls_pc (bq_sema s) t = S_Idle" using bq_parts(3)[OF inv, of t] p by simp_all
  note n = push_next[OF ok(1)]
  show ?thesis
    using inv_next[OF bq_parts(1)[OF inv] small] bq_parts(2)[OF inv] n ok p
    by (intro inv_thread[OF inv t q_others]) (simp_all add: q_step_def)
qed

lemma inv_q_pop:
  assumes inv: "bq_inv s" and t: "t < ls_threads (bq_sema s)" and p: "bq_pc s t = B_Pop \<or> bq_pc s t = B_TryPop \<or> bq_pc s t = B_BulkPop n most item"
    and i: "mq_pc (bq_queue s) t \<noteq> Idle" and small: "small (mq_next t (bq_queue s))"
  shows "bq_inv (q_step t s)"
proof -
  let ?q = "bq_queue s" and ?q' = "mq_next t (bq_queue s)"
  have ok: "pop_pc (mq_pc ?q t)" "ls_pc (bq_sema s) t = S_Idle" "bq_pc s t = B_Pop \<longrightarrow> has_ticket t ?q" "bq_pc s t = B_BulkPop n most item \<longrightarrow> n < most"
    using bq_parts(3)[OF inv, of t] p by auto
  note n = pop_next[OF ok(1) i]
  have m: "mq_taken ?q \<le> mq_taken ?q'" by (rule taken_mono)
  consider (got) "has_ticket t ?q" "has_ticket t ?q'" "mq_taken ?q' = mq_taken ?q"
    | (without) "\<not> has_ticket t ?q" "\<not> has_ticket t ?q'" "mq_taken ?q' = mq_taken ?q"
    | (gets) "\<not> has_ticket t ?q" "has_ticket t ?q'" "mq_taken ?q' = mq_taken ?q + 1"
    using n(3) m by (cases "has_ticket t ?q"; cases "has_ticket t ?q'") auto
  then show ?thesis
    using inv_next[OF bq_parts(1)[OF inv] small] bq_parts(2)[OF inv] n(1,2) ok p
    by cases (intro inv_thread[OF inv t q_others]; auto simp: q_step_def)+
qed

lemma inv_s_wait:
  assumes inv: "bq_inv s" and t: "t < ls_threads (bq_sema s)" and p: "bq_pc s t = B_Wait \<or> bq_pc s t = B_TryWait \<or> bq_pc s t = B_BulkWait"
    and i: "ls_pc (bq_sema s) t \<noteq> S_Idle"
  shows "bq_inv (s_step luck t s)"
proof -
  let ?l = "bq_sema s" and ?l' = "ls_next luck t (bq_sema s)"
  have ok: "mq_pc (bq_queue s) t = Idle" "wait_pc (ls_pc ?l t)" "bq_pc s t = B_Wait \<or> bq_pc s t = B_TryWait \<longrightarrow> single_pc (ls_pc ?l t)"
    using bq_parts(3)[OF inv, of t] p single_wait by auto
  have w: "wait_pc (ls_pc ?l' t)" "ls_signalled ?l' = ls_signalled ?l" "ls_acquired ?l' - permits t ?l' = ls_acquired ?l - permits t ?l" "0 \<le> permits t ?l'"
    using wait_next[OF ok(2) i bq_parts(4)[OF inv], of luck] by blast+
  have sg: "bq_pc s t = B_Wait \<or> bq_pc s t = B_TryWait \<longrightarrow>
      single_pc (ls_pc ?l' t) \<and> (ls_pc ?l' t = S_Idle \<longrightarrow> ls_ret ?l' t = Some 0 \<or> ls_ret ?l' t = Some 1)"
    using single_next[OF _ i, of luck] ok(3) by blast
  have c: "ls_inv ?l'" "ls_threads ?l' = ls_threads ?l" "ls_initial ?l' = ls_initial ?l"
    using ls_step_parts[OF ls_proceed[OF t] bq_parts(2)[OF inv], of luck] by blast+
  have ok': "stage_ok (bq_pc s t) t (bq_queue s) ?l'" using p sg w(1,4) ok(1) by (elim disjE) simp_all
  have pop: "held (bq_pc s t) t (bq_queue s) ?l' = permits t ?l'" "held (bq_pc s t) t (bq_queue s) ?l = permits t ?l" using p by (elim disjE; simp)+
  show ?thesis
  proof (rule inv_thread[OF inv t s_others])
    show "ls_acquired (bq_sema (s_step luck t s)) - int (mq_taken (bq_queue (s_step luck t s))) - held (bq_pc (s_step luck t s) t) t (bq_queue (s_step luck t s)) (bq_sema (s_step luck t s)) =
        ls_acquired ?l - int (mq_taken (bq_queue s)) - held (bq_pc s t) t (bq_queue s) ?l"
      using w(3) pop by (simp add: s_step_def)
  qed (use bq_parts(1)[OF inv] c w(2) ok' in \<open>simp_all add: s_step_def\<close>)
qed

lemma inv_s_signal:
  assumes inv: "bq_inv s" and t: "t < ls_threads (bq_sema s)" and p: "bq_pc s t = B_Signal" and i: "ls_pc (bq_sema s) t \<noteq> S_Idle"
  shows "bq_inv (s_step luck t s)"
proof -
  let ?l = "bq_sema s" and ?l' = "ls_next luck t (bq_sema s)"
  obtain k where k: "ls_pc ?l t = Post k" using bq_parts(3)[OF inv, of t] p i by auto
  have c: "ls_inv ?l'" "ls_threads ?l' = ls_threads ?l" "ls_initial ?l' = ls_initial ?l"
    using ls_step_parts[OF ls_proceed[OF t] bq_parts(2)[OF inv], of luck] by blast+
  show ?thesis
    using bq_parts(1)[OF inv] bq_parts(3)[OF inv, of t] c post_next[OF k, of luck] p
    by (intro inv_thread[OF inv t s_others]) (simp_all add: s_step_def)
qed

text \<open>A thread calls the ring, or the semaphore, or only moves on.\<close>

lemma inv_call_queue:
  assumes inv: "bq_inv s" and t: "t < ls_threads (bq_sema s)" and i: "mq_pc (bq_queue s) t = Idle" "ls_pc (bq_sema s) t = S_Idle"
    and q: "mq_step (bq_queue s) q'" "small q'" "\<forall>u. u \<noteq> t \<longrightarrow> mq_pc q' u = mq_pc (bq_queue s) u \<and> mq_ret q' u = mq_ret (bq_queue s) u"
    and ok: "stage_ok p t q' (bq_sema s)"
    and push: "int (length (mq_ins q')) - of_bool (p = B_Push) = int (length (mq_ins (bq_queue s))) - of_bool (bq_pc s t = B_Push)"
    and pop: "int (mq_taken q') + held p t q' (bq_sema s) = int (mq_taken (bq_queue s)) + held (bq_pc s t) t (bq_queue s) (bq_sema s)"
  shows "bq_inv (bq_goto t p (s\<lparr>bq_queue := q'\<rparr>))"
proof (rule inv_thread[OF inv t])
  let ?s = "bq_goto t p (s\<lparr>bq_queue := q'\<rparr>)"
  show "others_same t s ?s" using q(3) by (simp add: others_same_def bq_goto_def)
  show "mq_inv (bq_queue ?s)" using inv_step[OF q(1) bq_parts(1)[OF inv] q(2)] by (simp add: bq_goto_def)
  show "ls_inv (bq_sema ?s)" using bq_parts(2)[OF inv] by (simp add: bq_goto_def)
qed (use ok push pop in \<open>simp_all add: bq_goto_def\<close>)

lemma inv_call_sema:
  assumes inv: "bq_inv s" and t: "t < ls_threads (bq_sema s)"
    and l: "ls_step (bq_sema s) l'" "\<forall>u. u \<noteq> t \<longrightarrow> ls_pc l' u = ls_pc (bq_sema s) u \<and> ls_ret l' u = ls_ret (bq_sema s) u" "ls_acquired l' = ls_acquired (bq_sema s)"
    and ok: "stage_ok p t (bq_queue s) l'"
    and push: "int (ls_signalled l') + of_bool (p = B_Push) = int (ls_signalled (bq_sema s)) + of_bool (bq_pc s t = B_Push)"
    and pop: "held p t (bq_queue s) l' = held (bq_pc s t) t (bq_queue s) (bq_sema s)"
  shows "bq_inv (bq_goto t p (s\<lparr>bq_sema := l', bq_items := items\<rparr>))"
proof (rule inv_thread[OF inv t])
  let ?s = "bq_goto t p (s\<lparr>bq_sema := l', bq_items := items\<rparr>)"
  have c: "ls_inv l'" "ls_threads l' = ls_threads (bq_sema s)" "ls_initial l' = ls_initial (bq_sema s)"
    using ls_step_parts[OF l(1) bq_parts(2)[OF inv]] by blast+
  show "others_same t s ?s" using l(2) by (simp add: others_same_def bq_goto_def)
  show "ls_inv (bq_sema ?s)" "ls_threads (bq_sema ?s) = ls_threads (bq_sema s)" "ls_initial (bq_sema ?s) = ls_initial (bq_sema s)"
    using c by (simp_all add: bq_goto_def)
  show "mq_inv (bq_queue ?s)" using bq_parts(1)[OF inv] by (simp add: bq_goto_def)
  show "int (length (mq_ins (bq_queue ?s))) - int (ls_signalled (bq_sema ?s)) - of_bool (bq_pc ?s t = B_Push) =
      int (length (mq_ins (bq_queue s))) - int (ls_signalled (bq_sema s)) - of_bool (bq_pc s t = B_Push)"
    using push by (simp add: bq_goto_def)
qed (use ok pop l(3) in \<open>simp_all add: bq_goto_def\<close>)

lemma inv_only_pc:
  assumes inv: "bq_inv s" and t: "t < ls_threads (bq_sema s)" and ok: "stage_ok p t (bq_queue s) (bq_sema s)"
    and push: "p \<noteq> B_Push" "bq_pc s t \<noteq> B_Push" and pop: "held p t (bq_queue s) (bq_sema s) = held (bq_pc s t) t (bq_queue s) (bq_sema s)"
  shows "bq_inv (s\<lparr>bq_pc := (bq_pc s)(t := p), bq_items := items, bq_ret := ret\<rparr>)"
  by (rule inv_thread[OF inv t]) (use ok push pop bq_parts(1,2)[OF inv] in \<open>simp_all add: others_same_def\<close>)

lemma goto_items:
  "bq_goto t p (s\<lparr>bq_sema := l'\<rparr>) = bq_goto t p (s\<lparr>bq_sema := l', bq_items := bq_items s\<rparr>)"
  by (simp add: bq_goto_def)

lemma inv_moves_on:
  assumes "bq_inv s" and "t < ls_threads (bq_sema s)" and "stage_ok p t (bq_queue s) (bq_sema s)"
    and "p \<noteq> B_Push" "bq_pc s t \<noteq> B_Push" and "held p t (bq_queue s) (bq_sema s) = held (bq_pc s t) t (bq_queue s) (bq_sema s)"
  shows "bq_inv (bq_goto t p s)" and "bq_inv (bq_goto t p (s\<lparr>bq_items := items\<rparr>))" and "p = B_Idle \<Longrightarrow> bq_inv (bq_return t r s)"
proof -
  have "bq_goto t p s = s\<lparr>bq_pc := (bq_pc s)(t := p), bq_items := bq_items s, bq_ret := bq_ret s\<rparr>"
    "bq_goto t p (s\<lparr>bq_items := items\<rparr>) = s\<lparr>bq_pc := (bq_pc s)(t := p), bq_items := items, bq_ret := bq_ret s\<rparr>"
    "bq_return t r s = s\<lparr>bq_pc := (bq_pc s)(t := B_Idle), bq_items := bq_items s, bq_ret := (bq_ret s)(t \<mapsto> r)\<rparr>"
    by (simp_all add: bq_goto_def bq_return_def)
  then show "bq_inv (bq_goto t p s)" "bq_inv (bq_goto t p (s\<lparr>bq_items := items\<rparr>))" "p = B_Idle \<Longrightarrow> bq_inv (bq_return t r s)"
    using inv_only_pc[OF assms] by (simp_all only:)
qed

lemma signal_sel:
  "ls_acquired (ls_signal t n l) = ls_acquired l" "ls_signalled (ls_signal t n l) = ls_signalled l + n"
  "ls_pc (ls_signal t n l) t = S_Idle \<or> (\<exists>k. ls_pc (ls_signal t n l) t = Post k)"
  "\<forall>u. u \<noteq> t \<longrightarrow> ls_pc (ls_signal t n l) u = ls_pc l u \<and> ls_ret (ls_signal t n l) u = ls_ret l u"
  by (simp_all add: ls_signal_def ls_acts Let_def)

lemma inv_after_push:
  assumes inv: "bq_inv s" and t: "t < ls_threads (bq_sema s)" and p: "bq_pc s t = B_Push" and i: "mq_pc (bq_queue s) t = Idle"
  shows "bq_inv (after_push t s)"
proof -
  have l: "ls_pc (bq_sema s) t = S_Idle" using bq_parts(3)[OF inv, of t] p by simp
  show ?thesis
    unfolding after_push_def goto_items
    by (rule inv_call_sema[OF inv t call_signal[OF t l] signal_sel(4,1)]) (use p i signal_sel[of t 1 "bq_sema s"] in simp_all)
qed

lemma inv_after_wait:
  assumes inv: "bq_inv s" and t: "t < ls_threads (bq_sema s)" and p: "bq_pc s t = B_Wait" and i: "ls_pc (bq_sema s) t = S_Idle"
    and small: "small (bq_queue (after_wait t s))"
  shows "bq_inv (after_wait t s)"
proof -
  have q: "mq_pc (bq_queue s) t = Idle" "ls_ret (bq_sema s) t = Some 0 \<or> ls_ret (bq_sema s) t = Some 1"
    using bq_parts(3)[OF inv, of t] p i by auto
  show ?thesis
  proof (cases "ls_ret (bq_sema s) t = Some 0")
    case True
    have "bq_inv (bq_goto t (bq_pc s t) (s\<lparr>bq_sema := ls_wait t (- 1) (bq_sema s), bq_items := bq_items s\<rparr>))"
      by (rule inv_call_sema[OF inv t call_wait[OF t i]]) (use p q True i in \<open>simp_all add: ls_wait_def ls_acts permits_def\<close>)
    then show ?thesis using True by (simp add: after_wait_def bq_goto_def)
  next
    case False
    then have r: "ls_ret (bq_sema s) t = Some 1" using q(2) by simp
    have "bq_inv (bq_goto t B_Pop (s\<lparr>bq_queue := mq_pop t (bq_queue s)\<rparr>))"
      by (rule inv_call_queue[OF inv t q(1) i start_pop[OF q(1)]])
        (use small r i p False in \<open>simp_all add: after_wait_def bq_goto_def mq_pop_def mq_acts has_ticket_def permits_def\<close>)
    then show ?thesis using False by (simp add: after_wait_def)
  qed
qed

lemma try_pop_sel:
  "mq_taken (mq_try_pop t q) = mq_taken q" "mq_ins (mq_try_pop t q) = mq_ins q" "\<not> has_ticket t (mq_try_pop t q)" "pop_pc (mq_pc (mq_try_pop t q) t)"
  "\<forall>u. u \<noteq> t \<longrightarrow> mq_pc (mq_try_pop t q) u = mq_pc q u \<and> mq_ret (mq_try_pop t q) u = mq_ret q u" "small (mq_try_pop t q) = small q"
  by (simp_all add: mq_try_pop_def mq_acts has_ticket_def small_def)

lemma inv_after_tryWait:
  assumes inv: "bq_inv s" and t: "t < ls_threads (bq_sema s)" and p: "bq_pc s t = B_TryWait" and i: "ls_pc (bq_sema s) t = S_Idle"
    and small: "small (bq_queue s)"
  shows "bq_inv (after_tryWait t s)"
proof -
  have q: "mq_pc (bq_queue s) t = Idle" "ls_ret (bq_sema s) t = Some 0 \<or> ls_ret (bq_sema s) t = Some 1"
    using bq_parts(3)[OF inv, of t] p i by auto
  show ?thesis
  proof (cases "ls_ret (bq_sema s) t = Some 0")
    case True
    then show ?thesis using inv_moves_on(3)[OF inv t, of B_Idle] q i p by (simp add: after_tryWait_def permits_def)
  next
    case False
    then have r: "ls_ret (bq_sema s) t = Some 1" using q(2) by simp
    have "bq_inv (bq_goto t B_TryPop (s\<lparr>bq_queue := mq_try_pop t (bq_queue s)\<rparr>))"
      by (rule inv_call_queue[OF inv t q(1) i start_try_pop[OF q(1)]]) (use small r i p in \<open>simp_all add: try_pop_sel permits_def\<close>)
    then show ?thesis using False by (simp add: after_tryWait_def)
  qed
qed

lemma inv_after_try_pop:
  assumes inv: "bq_inv s" and t: "t < ls_threads (bq_sema s)" and p: "bq_pc s t = B_TryPop" and i: "mq_pc (bq_queue s) t = Idle"
    and small: "small (bq_queue s)"
  shows "bq_inv (after_try_pop t s)"
proof -
  have l: "ls_pc (bq_sema s) t = S_Idle" using bq_parts(3)[OF inv, of t] p by simp
  show ?thesis
  proof (cases "popped_value t (bq_queue s)")
    case None
    then have h: "\<not> has_ticket t (bq_queue s)" using i by (simp add: has_ticket_def)
    have "bq_inv (bq_goto t (bq_pc s t) (s\<lparr>bq_queue := mq_try_pop t (bq_queue s)\<rparr>))"
      by (rule inv_call_queue[OF inv t i l start_try_pop[OF i]]) (use small l p h in \<open>simp_all add: try_pop_sel\<close>)
    then show ?thesis using None by (simp add: after_try_pop_def bq_goto_def)
  next
    case (Some v)
    then show ?thesis using inv_moves_on(3)[OF inv t, of B_Idle] i l p by (simp add: after_try_pop_def has_ticket_def)
  qed
qed

lemma inv_bulk_loop:
  assumes inv: "bq_inv s" and t: "t < ls_threads (bq_sema s)" and p: "bq_pc s t = B_Bulk n most item" and small: "small (bq_queue s)"
  shows "bq_inv (bulk_loop t n most item s)"
proof -
  have ok: "mq_pc (bq_queue s) t = Idle" "ls_pc (bq_sema s) t = S_Idle" "n \<le> most" using bq_parts(3)[OF inv, of t] p by simp_all
  show ?thesis
  proof (cases "n = most")
    case True
    then show ?thesis using inv_moves_on(3)[OF inv t, of B_Idle] ok p by (simp add: bulk_loop_def)
  next
    case False
    have "bq_inv (bq_goto t (B_BulkPop n most item) (s\<lparr>bq_queue := mq_try_pop t (bq_queue s)\<rparr>))"
      by (rule inv_call_queue[OF inv t ok(1,2) start_try_pop[OF ok(1)]]) (use small ok p False in \<open>simp_all add: try_pop_sel\<close>)
    then show ?thesis using False by (simp add: bulk_loop_def)
  qed
qed

lemma inv_after_bulk_pop:
  assumes inv: "bq_inv s" and t: "t < ls_threads (bq_sema s)" and p: "bq_pc s t = B_BulkPop n most item" and i: "mq_pc (bq_queue s) t = Idle"
  shows "bq_inv (after_bulk_pop t n most item s)"
proof -
  have ok: "ls_pc (bq_sema s) t = S_Idle" "n < most" using bq_parts(3)[OF inv, of t] p by simp_all
  show ?thesis
  proof (cases "popped_value t (bq_queue s)")
    case None
    then show ?thesis using inv_moves_on(1)[OF inv t, of "B_Bulk n most (item + 1)"] ok p i by (simp add: after_bulk_pop_def has_ticket_def)
  next
    case (Some v)
    then show ?thesis using inv_moves_on(2)[OF inv t, of "B_Bulk (n + 1) most (item + 1)"] ok p i by (simp add: after_bulk_pop_def has_ticket_def)
  qed
qed

lemma inv_bq_next:
  assumes inv: "bq_inv s" and t: "t < ls_threads (bq_sema s)" and small: "small (bq_queue s)" "small (bq_queue (bq_next luck t s))"
  shows "bq_inv (bq_next luck t s)"
proof (cases "bq_pc s t")
  case B_Push
  then show ?thesis using small inv_after_push[OF inv t B_Push] inv_q_push[OF inv t B_Push] by (auto simp: bq_next_def q_step_def)
next
  case B_Signal
  then show ?thesis
    using inv_s_signal[OF inv t B_Signal, of luck] inv_moves_on(1)[OF inv t, of B_Idle] bq_parts(3)[OF inv, of t] by (auto simp: bq_next_def)
next
  case B_Wait
  then show ?thesis using small inv_after_wait[OF inv t B_Wait] inv_s_wait[OF inv t, of luck] by (auto simp: bq_next_def)
next
  case B_Pop
  then show ?thesis
    using small inv_q_pop[OF inv t] inv_moves_on(3)[OF inv t, of B_Idle] bq_parts(3)[OF inv, of t] by (auto simp: bq_next_def after_pop_def q_step_def)
next
  case B_TryWait
  then show ?thesis using inv_after_tryWait[OF inv t B_TryWait _ small(1)] inv_s_wait[OF inv t, of luck] by (auto simp: bq_next_def)
next
  case B_TryPop
  then show ?thesis using small inv_after_try_pop[OF inv t B_TryPop _ small(1)] inv_q_pop[OF inv t] by (auto simp: bq_next_def q_step_def)
next
  case B_BulkWait
  let ?r = "case ls_ret (bq_sema s) t of Some r \<Rightarrow> nat r | None \<Rightarrow> 0"
  have ok: "mq_pc (bq_queue s) t = Idle" "0 \<le> permits t (bq_sema s)" using bq_parts(3)[OF inv, of t] B_BulkWait by simp_all
  show ?thesis
  proof (cases "ls_pc (bq_sema s) t = S_Idle")
    case True
    have "bq_inv (bq_goto t (B_Bulk 0 ?r 0) s)"
      by (rule inv_moves_on(1)[OF inv t]) (use ok True B_BulkWait in \<open>auto simp: permits_def split: option.splits\<close>)
    then show ?thesis using True B_BulkWait by (simp add: bq_next_def)
  qed (use inv_s_wait[OF inv t, of luck] B_BulkWait in \<open>simp add: bq_next_def\<close>)
next
  case (B_Bulk n most item)
  then show ?thesis using inv_bulk_loop[OF inv t B_Bulk small(1)] by (simp add: bq_next_def)
next
  case (B_BulkPop n most item)
  then show ?thesis using small inv_after_bulk_pop[OF inv t B_BulkPop] inv_q_pop[OF inv t] by (auto simp: bq_next_def q_step_def)
qed (use inv in \<open>simp add: bq_next_def\<close>)

lemma call_small: "small (mq_pop t q) \<Longrightarrow> small q" "small (mq_push t v q) \<Longrightarrow> small q" "small (mq_next t q) \<Longrightarrow> small q"
  using step_small[OF proceed, of t q] by (auto simp: small_def mq_pop_def mq_push_def mq_acts)

lemma bq_small: "bq_step s s' \<Longrightarrow> small (bq_queue s') \<Longrightarrow> small (bq_queue s)"
proof (induction rule: bq_step.induct)
  case (bq_proceed t s luck)
  then show ?case using call_small[of t "bq_queue s"]
    by (cases "bq_pc s t") (auto simp: bq_next_def q_step_def s_step_def after_push_def after_wait_def after_pop_def after_tryWait_def after_try_pop_def
        bulk_loop_def after_bulk_pop_def bq_goto_def bq_return_def try_pop_sel split: option.splits if_splits)
qed (use call_small in \<open>auto simp: bq_push_def bq_pop_def bq_try_pop_def wait_dequeue_bulk_timed_def bq_goto_def\<close>)

lemma inv_bq_step:
  assumes step: "bq_step s s'" and inv: "bq_inv s" and small: "small (bq_queue s')"
  shows "bq_inv s'"
proof -
  have sm: "small (bq_queue s)" by (rule bq_small[OF step small])
  show ?thesis using step
  proof cases
    case (call_push t v)
    have ok: "mq_pc (bq_queue s) t = Idle" "ls_pc (bq_sema s) t = S_Idle" using bq_parts(3)[OF inv, of t] call_push by simp_all
    have "bq_inv (bq_goto t B_Push (s\<lparr>bq_queue := mq_push t v (bq_queue s)\<rparr>))"
      by (rule inv_call_queue[OF inv call_push(2) ok start_push[OF ok(1)]])
        (use small call_push ok in \<open>simp_all add: bq_push_def bq_goto_def mq_push_def mq_acts\<close>)
    then show ?thesis using call_push by (simp add: bq_push_def)
  next
    case (call_pop t)
    have ok: "mq_pc (bq_queue s) t = Idle" "ls_pc (bq_sema s) t = S_Idle" using bq_parts(3)[OF inv, of t] call_pop by simp_all
    have "bq_inv (bq_goto t B_Wait (s\<lparr>bq_sema := ls_wait t (- 1) (bq_sema s), bq_items := bq_items s\<rparr>))"
      by (rule inv_call_sema[OF inv call_pop(2) call_wait[OF call_pop(2) ok(2)]]) (use call_pop ok in \<open>simp_all add: ls_wait_def ls_acts permits_def\<close>)
    then show ?thesis using call_pop by (simp add: bq_pop_def bq_goto_def)
  next
    case (call_try_pop t)
    have ok: "mq_pc (bq_queue s) t = Idle" "ls_pc (bq_sema s) t = S_Idle" using bq_parts(3)[OF inv, of t] call_try_pop by simp_all
    have "bq_inv (bq_goto t B_TryWait (s\<lparr>bq_sema := ls_tryWait t (bq_sema s), bq_items := bq_items s\<rparr>))"
      by (rule inv_call_sema[OF inv call_try_pop(2) call_tryWait[OF call_try_pop(2) ok(2)]]) (use call_try_pop ok in \<open>simp_all add: ls_tryWait_def ls_acts permits_def\<close>)
    then show ?thesis using call_try_pop by (simp add: bq_try_pop_def bq_goto_def)
  next
    case (call_bulk t most limit)
    have ok: "mq_pc (bq_queue s) t = Idle" "ls_pc (bq_sema s) t = S_Idle" using bq_parts(3)[OF inv, of t] call_bulk by simp_all
    have "bq_inv (bq_goto t B_BulkWait (s\<lparr>bq_sema := ls_waitMany t (int most) limit (bq_sema s), bq_items := (bq_items s)(t := [])\<rparr>))"
      by (rule inv_call_sema[OF inv call_bulk(2) call_waitMany[OF call_bulk(2) ok(2)]]) (use call_bulk ok in \<open>simp_all add: ls_waitMany_def ls_acts permits_def\<close>)
    then show ?thesis using call_bulk by (simp add: wait_dequeue_bulk_timed_def)
  next
    case (bq_proceed t luck)
    then show ?thesis using inv_bq_next[OF inv _ sm] small by simp
  qed
qed

lemma inv_bq_new: "newBlockingMPMCQueue n spins c = Some s \<Longrightarrow> bq_inv s"
proof -
  assume new: "newBlockingMPMCQueue n spins c = Some s"
  then obtain q where q: "newQueue c = Some q" and s: "bq_queue s = q" "bq_sema s = newLightweightSemaphore n 0 spins" "bq_pc s = (\<lambda>_. B_Idle)"
    by (auto simp: newBlockingMPMCQueue_def)
  have "mq_ins q = []" "mq_taken q = 0" "mq_pc q = (\<lambda>_. Idle)" using q by (auto simp: newQueue_def split: if_splits)
  moreover have "ls_inv (newLightweightSemaphore n 0 spins)" by (rule sema_reachable(1)[OF rtranclp.rtrancl_refl])
  ultimately show ?thesis using inv_new[OF q] s by (simp add: bq_inv_def all_held_def all_pushing_def newLightweightSemaphore_def)
qed

lemma bq_reachable:
  assumes "newBlockingMPMCQueue n spins c = Some s0" and "bq_step\<^sup>*\<^sup>* s0 s" and "small (bq_queue s)"
  shows "bq_inv s"
  using assms(2,3) by (induction rule: rtranclp_induct) (auto intro: inv_bq_new[OF assms(1)] inv_bq_step bq_small)

lemma bq_same: "bq_step s s' \<Longrightarrow> mq_capacity (bq_queue s') = mq_capacity (bq_queue s) \<and> ls_threads (bq_sema s') = ls_threads (bq_sema s)"
proof (induction rule: bq_step.induct)
  case (bq_proceed t s luck)
  have q: "mq_capacity (mq_next t (bq_queue s)) = mq_capacity (bq_queue s)"
    by (cases "mq_pc (bq_queue s) t") (auto simp: mq_next_defs split: option.splits)
  have l: "ls_threads (ls_next luck t (bq_sema s)) = ls_threads (bq_sema s)" using step_same[OF ls_proceed[OF bq_proceed]] by simp
  show ?case
    by (cases "bq_pc s t") (auto simp: bq_next_def q_step_def s_step_def after_push_def after_wait_def after_pop_def after_tryWait_def after_try_pop_def
        bulk_loop_def after_bulk_pop_def bq_goto_def bq_return_def q l mq_call_defs ls_call_defs split: option.splits)
qed (simp_all add: bq_push_def bq_pop_def bq_try_pop_def wait_dequeue_bulk_timed_def bq_goto_def mq_call_defs ls_call_defs)

lemma bq_sizes:
  assumes "newBlockingMPMCQueue n spins c = Some s0" and "bq_step\<^sup>*\<^sup>* s0 s"
  shows "mq_capacity (bq_queue s) = c" and "ls_threads (bq_sema s) = n"
proof -
  have "mq_capacity (bq_queue s0) = c" "ls_threads (bq_sema s0) = n"
    using assms(1) by (auto simp: newBlockingMPMCQueue_def newQueue_def newLightweightSemaphore_def split: if_splits)
  with assms(2) have "mq_capacity (bq_queue s) = c \<and> ls_threads (bq_sema s) = n" by (induction rule: rtranclp_induct) (auto dest: bq_same)
  then show "mq_capacity (bq_queue s) = c" "ls_threads (bq_sema s) = n" by simp_all
qed

section \<open>Waiting\<close>

lemma held_nonneg: "stage_ok p t q l \<Longrightarrow> 0 \<le> held p t q l"
  by (cases p) auto

lemma pops_within_pushes:
  assumes inv: "bq_inv s"
  shows "int (mq_taken (bq_queue s)) + all_held s \<le> int (ls_signalled (bq_sema s))" and "0 \<le> all_held s"
    and "int (length (mq_ins (bq_queue s))) = int (ls_signalled (bq_sema s)) + all_pushing s" and "0 \<le> all_pushing s"
proof -
  show h: "0 \<le> all_held s" "0 \<le> all_pushing s"
    unfolding all_held_def all_pushing_def using held_nonneg[OF bq_parts(3)[OF inv]] by (auto intro!: sum_nonneg)
  show "int (length (mq_ins (bq_queue s))) = int (ls_signalled (bq_sema s)) + all_pushing s" using inv unfolding bq_inv_def by blast
  have a: "ls_acquired (bq_sema s) = int (mq_taken (bq_queue s)) + all_held s" "ls_initial (bq_sema s) = 0" using inv unfolding bq_inv_def by blast+
  obtain x where x: "m_count (bq_sema s) = int 0 + int (ls_signalled (bq_sema s)) - ls_acquired (bq_sema s) - total announced (bq_sema s)"
    "total announced (bq_sema s) = x + int (m_sema (bq_sema s)) + total posts (bq_sema s)" "0 \<le> x" "- m_count (bq_sema s) \<le> x"
    by (rule ls_invE[OF bq_parts(2)[OF inv], unfolded a(2)])
  show "int (mq_taken (bq_queue s)) + all_held s \<le> int (ls_signalled (bq_sema s))"
    using x a(1) total_bounds[of "bq_sema s"] by linarith
qed

definition bq_stuck :: "'a blocking_queue \<Rightarrow> bool" where
  "bq_stuck s \<longleftrightarrow> (\<forall>t < ls_threads (bq_sema s). \<forall>luck. bq_next luck t s = s)"

text \<open>When nothing moves, neither component moves, and every thread is inside a call.\<close>

lemma bq_stuck_thread:
  assumes st: "bq_stuck s" and t: "t < ls_threads (bq_sema s)"
  shows "bq_pc s t = B_Idle \<or>
    (bq_pc s t = B_Push \<or> bq_pc s t = B_Pop \<or> bq_pc s t = B_TryPop \<or> (\<exists>n most item. bq_pc s t = B_BulkPop n most item)) \<and>
      mq_pc (bq_queue s) t \<noteq> Idle \<and> mq_next t (bq_queue s) = bq_queue s \<or>
    (bq_pc s t = B_Signal \<or> bq_pc s t = B_Wait \<or> bq_pc s t = B_TryWait \<or> bq_pc s t = B_BulkWait) \<and>
      ls_pc (bq_sema s) t \<noteq> S_Idle \<and> (\<forall>luck. ls_next luck t (bq_sema s) = bq_sema s)"
proof -
  have n: "bq_next luck t s = s" for luck using assms by (simp add: bq_stuck_def)
  have p: "bq_pc (bq_next luck t s) t = bq_pc s t" "mq_pc (bq_queue (bq_next luck t s)) t = mq_pc (bq_queue s) t"
    "ls_pc (bq_sema (bq_next luck t s)) t = ls_pc (bq_sema s) t" "bq_queue (bq_next luck t s) = bq_queue s" "bq_sema (bq_next luck t s) = bq_sema s" for luck
    by (simp_all add: n)
  have sema: "ls_next luck t (bq_sema s) = bq_sema s"
    if "ls_pc (bq_sema s) t \<noteq> S_Idle" "bq_pc s t = B_Signal \<or> bq_pc s t = B_Wait \<or> bq_pc s t = B_TryWait \<or> bq_pc s t = B_BulkWait" for luck
    using p(5)[of luck] that by (elim disjE) (simp_all add: bq_next_def s_step_def)
  have queue: "mq_next t (bq_queue s) = bq_queue s"
    if "mq_pc (bq_queue s) t \<noteq> Idle" "bq_pc s t = B_Push \<or> bq_pc s t = B_Pop \<or> bq_pc s t = B_TryPop \<or> (\<exists>n most item. bq_pc s t = B_BulkPop n most item)"
    using p(4)[of True] that by (elim disjE exE) (simp_all add: bq_next_def q_step_def)
  have "mq_pc (bq_queue s) t \<noteq> Idle" if "bq_pc s t = B_Push \<or> bq_pc s t = B_Pop \<or> bq_pc s t = B_TryPop \<or> (\<exists>n most item. bq_pc s t = B_BulkPop n most item)"
  proof
    assume i: "mq_pc (bq_queue s) t = Idle"
    show False using that p(1)[of True] p(2)[of True] i
      by (elim disjE exE) (simp_all add: bq_next_def after_push_def after_pop_def after_try_pop_def after_bulk_pop_def bq_goto_def bq_return_def mq_call_defs split: if_splits option.splits)
  qed
  moreover have "ls_pc (bq_sema s) t \<noteq> S_Idle" if "bq_pc s t = B_Signal \<or> bq_pc s t = B_Wait \<or> bq_pc s t = B_TryWait \<or> bq_pc s t = B_BulkWait"
  proof
    assume i: "ls_pc (bq_sema s) t = S_Idle"
    show False using that p(1)[of True] p(3)[of True] i
      by (elim disjE exE) (simp_all add: bq_next_def after_wait_def after_tryWait_def bq_goto_def bq_return_def ls_call_defs split: if_splits option.splits)
  qed
  moreover have "bq_pc s t \<noteq> B_Bulk n most item" for n most item
    using p(1)[of True] p(2)[of True] by (auto simp: bq_next_def bulk_loop_def bq_goto_def bq_return_def split: if_splits)
  ultimately show ?thesis using sema queue by (cases "bq_pc s t") (simp_all, blast?)
qed

lemma bq_stuck_parts:
  assumes inv: "bq_inv s" and st: "bq_stuck s"
  shows "stuck (bq_queue s)" and "asleep (bq_sema s)"
proof -
  have q: "mq_next t (bq_queue s) = bq_queue s" for t
  proof (cases "t < ls_threads (bq_sema s)")
    case True
    show ?thesis using bq_stuck_thread[OF st True] bq_parts(3)[OF inv, of t] by (auto simp: mq_next_def)
  next
    case False
    then show ?thesis using bq_parts(3)[OF inv, of t] inv unfolding bq_inv_def by (auto simp: mq_next_def)
  qed
  then show "stuck (bq_queue s)" by (simp add: stuck_def)
  have "ls_next luck t (bq_sema s) = bq_sema s" if "t < ls_threads (bq_sema s)" for t luck
    using bq_stuck_thread[OF st that] bq_parts(3)[OF inv, of t] by (auto simp: ls_next_def)
  then show "asleep (bq_sema s)" by (simp add: asleep_def)
qed

lemma stuck_no_pop:
  assumes inv: "bq_inv s" and sm: "small (bq_queue s)" and st: "stuck (bq_queue s)"
  shows "mq_pc (bq_queue s) t \<noteq> P_Spin j"
proof
  let ?q = "bq_queue s"
  note qi = bq_parts(1)[OF inv]
  assume p: "mq_pc ?q t = P_Spin j"
  have "mq_taken ?q \<le> length (mq_ins ?q)" using pops_within_pushes[OF inv] by linarith
  then obtain u v where u: "mq_pc ?q u = E_Spin j v" using stuck_pop[OF qi sm st p] by fastforce
  obtain i where i: "mq_taken ?q + mq_capacity ?q \<le> i" "\<forall>x < i. pdone ?q x" by (rule stuck_push[OF qi sm st u])
  then show False using stuck_pop(1)[OF qi sm st p] held_not_done(1)[OF qi, of u j] u by auto
qed

text \<open>A thread that cannot move is a producer at the ring or sleeps in the semaphore, and it has no permit.\<close>

lemma bq_stuck_pc:
  assumes inv: "bq_inv s" and sm: "small (bq_queue s)" and st: "bq_stuck s" and t: "t < ls_threads (bq_sema s)"
  shows "bq_pc s t = B_Idle \<or> bq_pc s t = B_Push \<and> (\<exists>i v. mq_pc (bq_queue s) t = E_Spin i v) \<or>
    bq_pc s t \<noteq> B_Push \<and> (\<exists>op limit. ls_pc (bq_sema s) t = Sema_Wait op limit \<and> limit < 0)"
    and "held (bq_pc s t) t (bq_queue s) (bq_sema s) = 0"
proof -
  note parts = bq_stuck_parts[OF inv st]
  have q: "mq_pc (bq_queue s) t = Idle \<or> (\<exists>i v. mq_pc (bq_queue s) t = E_Spin i v)"
    using stuck_pc[OF bq_parts(1)[OF inv] sm parts(1), of t] stuck_no_pop[OF inv sm parts(1), of t] by blast
  have l: "ls_pc (bq_sema s) t = S_Idle \<or> (\<exists>op limit. ls_pc (bq_sema s) t = Sema_Wait op limit \<and> limit < 0)"
    using asleep_pc[OF bq_parts(2)[OF inv] parts(2) t] by blast
  note thr = bq_stuck_thread[OF st t] and ok = bq_parts(3)[OF inv, of t]
  show pc: "bq_pc s t = B_Idle \<or> bq_pc s t = B_Push \<and> (\<exists>i v. mq_pc (bq_queue s) t = E_Spin i v) \<or>
    bq_pc s t \<noteq> B_Push \<and> (\<exists>op limit. ls_pc (bq_sema s) t = Sema_Wait op limit \<and> limit < 0)"
    using q l thr ok by (elim disjE conjE exE) auto
  have "permits t (bq_sema s) = 0" if "ls_pc (bq_sema s) t = Sema_Wait op limit" for op limit using that by (simp add: permits_def)
  then show "held (bq_pc s t) t (bq_queue s) (bq_sema s) = 0"
    using q l thr ok by (elim disjE conjE exE) auto
qed

text \<open>While a producer waits, the tickets up to the first open one are done, and the producers have tickets of their own after it.\<close>

lemma producers_after:
  assumes inv: "mq_inv q" and P: "finite P" and spin: "\<And>u. u \<in> P \<Longrightarrow> \<exists>k v. mq_pc q u = E_Spin k v" and d: "\<forall>x < i. pdone q x"
  shows "card P + i \<le> length (mq_ins q)"
proof -
  let ?k = "\<lambda>u. the (in_ticket (mq_pc q u))"
  have k: "in_ticket (mq_pc q u) = Some (?k u) \<and> i \<le> ?k u \<and> ?k u < length (mq_ins q)" if u: "u \<in> P" for u
  proof -
    obtain k v where "mq_pc q u = E_Spin k v" using spin[OF u] by blast
    then show ?thesis using inv_parts(2)[OF inv, of u] held_not_done(1)[OF inv, of u k] d by (auto simp: not_le[symmetric])
  qed
  have "inj_on ?k P" using k inv_parts(3)[OF inv] unfolding inj_on_def in_ok_def by metis
  then have "card P = card (?k ` P)" by (simp add: card_image)
  also have "\<dots> \<le> card {i..<length (mq_ins q)}" using k by (intro card_mono) auto
  finally have "card P \<le> length (mq_ins q) - i" by simp
  moreover have "i \<le> length (mq_ins q)"
    using d inv_parts(9)[OF inv, of "length (mq_ins q)"] by (meson leI less_irrefl)
  ultimately show ?thesis by simp
qed

lemma all_idle_counts:
  assumes inv: "bq_inv s" and sm: "small (bq_queue s)" and st: "bq_stuck s"
    and t: "t < ls_threads (bq_sema s)" and w: "ls_pc (bq_sema s) t \<noteq> S_Idle"
  shows "int (length (mq_ins (bq_queue s))) = int (mq_taken (bq_queue s)) + all_pushing s"
proof -
  have "all_held s = 0" using bq_stuck_pc(2)[OF inv sm st] by (simp add: all_held_def)
  moreover have "ls_acquired (bq_sema s) = int (ls_initial (bq_sema s)) + int (ls_signalled (bq_sema s))"
    by (rule asleep_acquired[OF bq_parts(2)[OF inv] bq_stuck_parts(2)[OF inv st] t w])
  moreover have "ls_acquired (bq_sema s) = int (mq_taken (bq_queue s)) + all_held s" "ls_initial (bq_sema s) = 0" using inv unfolding bq_inv_def by blast+
  ultimately show ?thesis using pops_within_pushes(3)[OF inv] by linarith
qed

lemma all_pushing_card: "all_pushing s = int (card {u. u < ls_threads (bq_sema s) \<and> bq_pc s u = B_Push})"
proof -
  have "{..<ls_threads (bq_sema s)} \<inter> {u. bq_pc s u = B_Push} = {u. u < ls_threads (bq_sema s) \<and> bq_pc s u = B_Push}" by auto
  then show ?thesis by (simp add: all_pushing_def sum_of_bool_eq)
qed

section \<open>Properties\<close>

text \<open>C13. The blocking queue does not deadlock. Let any number of producers and consumers run in any interleaving, with time-outs and spurious failures of
  the exchanges, until no thread can take a step. Then either the threads that are still in an operation are all producers and the ring is
  over-full (more than its capacity of values wait to be popped), or they all sleep in the semaphore and every pushed value has been popped. So
  a producer and a consumer never wait for each other.\<close>

theorem blocking_queue_no_deadlock:
  assumes "newBlockingMPMCQueue n spins c = Some s0" and "bq_step\<^sup>*\<^sup>* s0 s" and "small (bq_queue s)" and "bq_stuck s"
    and "t < n" and "bq_pc s t \<noteq> B_Idle"
  shows "mq_taken (bq_queue s) + c < length (mq_ins (bq_queue s)) \<and> (\<forall>u < n. bq_pc s u = B_Idle \<or> bq_pc s u = B_Push) \<or>
    mq_taken (bq_queue s) = length (mq_ins (bq_queue s)) \<and>
      (\<forall>u < n. bq_pc s u = B_Idle \<or> (\<exists>op limit. ls_pc (bq_sema s) u = Sema_Wait op limit \<and> limit < 0))"
proof -
  note inv = bq_reachable[OF assms(1-3)] and sz = bq_sizes[OF assms(1,2)]
  note pc = bq_stuck_pc(1)[OF inv assms(3,4), unfolded sz] and counts = all_idle_counts[OF inv assms(3,4), unfolded sz]
  let ?q = "bq_queue s" and ?P = "{u. u < n \<and> bq_pc s u = B_Push}"
  show ?thesis
  proof (cases "\<exists>u < n. bq_pc s u = B_Push")
    case True
    then obtain u k v where u: "mq_pc ?q u = E_Spin k v" using pc by force
    obtain i where i: "mq_taken ?q + c \<le> i" "i < length (mq_ins ?q)" "\<forall>x < i. pdone ?q x"
      by (rule stuck_push[OF bq_parts(1)[OF inv] assms(3) bq_stuck_parts(1)[OF inv assms(4)] u, unfolded sz])
    have "card ?P + i \<le> length (mq_ins ?q)"
      by (rule producers_after[OF bq_parts(1)[OF inv] _ _ i(3)]) (use pc in force)+
    moreover have "0 < c" using inv_parts(1)[OF bq_parts(1)[OF inv]] sz by (simp add: counters_ok_def)
    ultimately have "ls_pc (bq_sema s) w = S_Idle" if "w < n" for w
      using counts[OF that] all_pushing_card[of s, unfolded sz] i(1) by (cases "ls_pc (bq_sema s) w = S_Idle") simp_all
    then show ?thesis using pc i by fastforce
  next
    case False
    then have "all_pushing s = 0" unfolding all_pushing_card sz by simp
    moreover have "ls_pc (bq_sema s) t \<noteq> S_Idle" using pc[OF assms(5)] assms(6) False assms(5) by auto
    ultimately show ?thesis using counts[OF assms(5)] pc False by auto
  qed
qed

section \<open>Examples\<close>

lemma bq_next_reach: "bq_step\<^sup>*\<^sup>* s0 s \<Longrightarrow> t < ls_threads (bq_sema s0) \<Longrightarrow> bq_step\<^sup>*\<^sup>* s0 ((bq_next luck t ^^ n) s)"
proof (induction n)
  case (Suc n)
  let ?s = "(bq_next luck t ^^ n) s"
  have r: "bq_step\<^sup>*\<^sup>* s0 ?s" using Suc by simp
  then have "ls_threads (bq_sema ?s) = ls_threads (bq_sema s0)" by (induction rule: rtranclp_induct) (auto dest: bq_same)
  then have "bq_step ?s (bq_next luck t ?s)" using Suc.prems(2) by (simp add: bq_proceed)
  with r show ?case by simp
qed simp

definition empty_blocking :: "nat blocking_queue" where
  "empty_blocking = the (newBlockingMPMCQueue 3 0 2)"

definition sample_waiting :: "nat blocking_queue" where
  "sample_waiting = (bq_next True 0 ^^ 3) (bq_pop 0 empty_blocking)"

lemmas blocking_defs = empty_blocking_def newBlockingMPMCQueue_def newQueue_def newLightweightSemaphore_def size_max_def bq_next_def q_step_def s_step_def
  after_push_def after_wait_def after_pop_def after_tryWait_def after_try_pop_def bulk_loop_def after_bulk_pop_def bq_goto_def bq_return_def
  bq_push_def bq_pop_def wait_dequeue_bulk_timed_def popped_value_def

lemma empty_blocking_new: "newBlockingMPMCQueue 3 0 2 = Some empty_blocking"
  by (simp add: empty_blocking_def newBlockingMPMCQueue_def newQueue_def size_max_def)

lemma empty_blocking_sel: "ls_threads (bq_sema empty_blocking) = 3" "bq_pc empty_blocking = (\<lambda>_. B_Idle)"
  by (simp_all add: empty_blocking_def newBlockingMPMCQueue_def newQueue_def newLightweightSemaphore_def size_max_def)

lemma sample_waiting_reach: "bq_step\<^sup>*\<^sup>* empty_blocking sample_waiting"
  unfolding sample_waiting_def by (intro bq_next_reach r_into_rtranclp call_pop) (simp_all add: empty_blocking_sel)

lemma sample_waiting_sel: "bq_pc sample_waiting = (\<lambda>_. B_Idle)(0 := B_Wait)" "ls_pc (bq_sema sample_waiting) = (\<lambda>_. S_Idle)(0 := Sema_Wait Wait (- 1))"
  "m_sema (bq_sema sample_waiting) = 0" "mq_ins (bq_queue sample_waiting) = []" "mq_taken (bq_queue sample_waiting) = 0" "ls_threads (bq_sema sample_waiting) = 3"
  by (simp_all add: sample_waiting_def numeral_eq_Suc blocking_defs mq_call_defs ls_call_defs ls_next_defs)

theorem blocking_queue_no_deadlock_witness: "mq_taken (bq_queue sample_waiting) = length (mq_ins (bq_queue sample_waiting))"
proof -
  have "bq_stuck sample_waiting"
    by (auto simp: bq_stuck_def sample_waiting_sel bq_next_def s_step_def ls_next_def waitWithPartialSpinning_def)
  moreover have "small (bq_queue sample_waiting)" by (simp add: small_def sample_waiting_sel)
  ultimately show ?thesis
    using blocking_queue_no_deadlock[OF empty_blocking_new sample_waiting_reach, of 0] by (simp add: sample_waiting_sel)
qed

text \<open>Producer 0 has taken a ticket and pauses; producer 1 pushes behind it and signals; consumer 2 asks for at most one value, has the permit, and
  finds the slot of producer 0 not ready; then producer 0 finishes, and so does the consumer.\<close>

abbreviation run_threads :: "nat list \<Rightarrow> nat blocking_queue \<Rightarrow> nat blocking_queue" where
  "run_threads ts s \<equiv> fold (bq_next True) ts s"

definition overtaken :: "nat blocking_queue" where
  "overtaken = run_threads [1, 1, 1, 1, 1] (bq_push 1 8 (bq_push 0 7 empty_blocking))"

definition bulk_missed :: "nat blocking_queue" where
  "bulk_missed = run_threads [2, 2, 2, 2, 2, 2, 2, 2] (wait_dequeue_bulk_timed 2 1 0 overtaken)"

definition bulk_done :: "nat blocking_queue" where
  "bulk_done = run_threads [0, 0, 0, 0, 0, 2, 2, 2, 2, 2, 2, 2, 2, 2] bulk_missed"

lemma run_reach: "\<forall>t \<in> set ts. t < ls_threads (bq_sema s) \<Longrightarrow> bq_step\<^sup>*\<^sup>* s (run_threads ts s)"
proof (induction ts arbitrary: s)
  case (Cons t ts)
  have "bq_step s (bq_next True t s)" using Cons.prems by (simp add: bq_proceed)
  then show ?case using Cons.IH[of "bq_next True t s"] Cons.prems bq_same[of s "bq_next True t s"]
    by (simp add: converse_rtranclp_into_rtranclp)
qed simp

lemmas bulk_defs = blocking_defs mq_call_defs ls_call_defs ls_next_defs mq_next_defs mq_idx_def mq_turn_def turn_push_def turn_full_def turn_free_def

lemma overtaken_reach: "bq_step\<^sup>*\<^sup>* empty_blocking overtaken"
proof -
  let ?s = "bq_push 1 8 (bq_push 0 7 empty_blocking)"
  have "bq_step empty_blocking (bq_push 0 7 empty_blocking)" by (rule call_push) (simp_all add: empty_blocking_sel)
  moreover have "bq_step (bq_push 0 7 empty_blocking) ?s" by (rule call_push) (simp_all add: empty_blocking_sel bq_push_def bq_goto_def)
  moreover have "bq_step\<^sup>*\<^sup>* ?s overtaken" unfolding overtaken_def by (rule run_reach) (simp add: empty_blocking_sel bq_push_def bq_goto_def)
  ultimately show ?thesis by (meson converse_rtranclp_into_rtranclp)
qed

lemma overtaken_sel: "ls_threads (bq_sema overtaken) = 3" "bq_pc overtaken 2 = B_Idle"
  by (simp_all add: overtaken_def bulk_defs)

lemma bulk_reach: "bq_step\<^sup>*\<^sup>* (wait_dequeue_bulk_timed 2 1 0 overtaken) bulk_done"
proof -
  let ?s = "wait_dequeue_bulk_timed 2 1 0 overtaken"
  have "bulk_done = run_threads ([2, 2, 2, 2, 2, 2, 2, 2] @ [0, 0, 0, 0, 0, 2, 2, 2, 2, 2, 2, 2, 2, 2]) ?s" by (simp add: bulk_done_def bulk_missed_def)
  moreover have "ls_threads (bq_sema ?s) = 3" using overtaken_sel bq_same[OF call_bulk[of 2 overtaken 1 0]] by simp
  ultimately show ?thesis using run_reach[of "[2, 2, 2, 2, 2, 2, 2, 2] @ [0, 0, 0, 0, 0, 2, 2, 2, 2, 2, 2, 2, 2, 2]" ?s] by simp
qed

lemma bulk_missed_sel: "bq_pc bulk_missed 2 = B_Bulk 0 1 1" "bq_pc bulk_missed 0 = B_Push"
  by (simp_all add: bulk_missed_def overtaken_def bulk_defs)

lemma bulk_done_sel: "bq_ret bulk_done 2 = Some (BQ_Count 1)" "bq_items bulk_done 2 = [(1, 7)]"
  by (simp_all add: bulk_done_def bulk_missed_def overtaken_def bulk_defs)

text \<open>C36. A bulk dequeue can write past the end of the caller's buffer. The iterator moves on with every attempt, the failed ones included. In the
  run above the consumer asks for at most one item, is told that it got one, and the one item has been written to position 1 of a buffer that
  needs to have position 0 only; position 0 is not written at all.\<close>

theorem bulk_dequeue_writes_past_end:
  "\<exists>s0 s1 s2. newBlockingMPMCQueue 3 0 2 = Some s0 \<and> bq_step\<^sup>*\<^sup>* s0 s1 \<and> bq_pc s1 2 = B_Idle \<and>
     bq_step\<^sup>*\<^sup>* (wait_dequeue_bulk_timed 2 1 0 s1) s2 \<and> bq_ret s2 2 = Some (BQ_Count 1) \<and> bq_items s2 2 = [(1, 7::nat)]"
  using empty_blocking_new overtaken_reach overtaken_sel(2) bulk_reach bulk_done_sel by blast

end
