(* ===== verification/Spec2Isabelle.thy ===== *)
theory Spec2Isabelle
  imports
    Aria_Node Worker_Protocol Workload_Queue Reserve_Cas Mvcc_Hash_Map
    User_Collector Transaction_Flow Consensus_Control
    Block_Chain Merkle_Tree Base64 Lru_Cache Blocking_Queue
begin

text \<open>
  NeuChain is a replicated ledger. Users send signed requests to their block server; the servers agree on epochs, execute the
  transactions of an epoch in parallel under the Aria protocol, and store one block for each epoch. This library models the servers
  and proves what each part promises and how the parts fit together. Paths below are relative to \<^verbatim>\<open>src/\<close>.

  \<^bold>\<open>The way of a transaction.\<close> The collector checks the signatures of a batch of requests and asks an epoch server for an epoch. The client proxy gives
  the transactions their ids, broadcasts the batch and puts it into its epoch buffer; the proxies of the other servers check it and do the same. When all
  proxies have closed an epoch, its transactions reach one queue. The communication controller and the transaction manager hand them, epoch by
  epoch, to the coordinator, which cuts them into workloads. The workers execute them on the state of the last epoch, reserve what they
  read and wrote, and commit those without conflict. The block generator makes a block of the results, links it to the chain, stores it, and
  exchanges signatures with the other servers.

  \<^bold>\<open>Shared vocabulary.\<close>
  \<^item> \<open>Neu_Prelude\<close>: types of \<^verbatim>\<open>include/common/aria_types.h\<close>, collections of rewrite rules, generic lemmas, and the conventions: \<open>None\<close> is an abort of the
    process, undefined behaviour or waiting for ever.
  \<^item> \<open>Transaction_Model\<close>: transactions, payloads and read-write sets. \<open>C_Strings\<close>: \<^verbatim>\<open>std::to_string\<close>, \<^verbatim>\<open>strtol\<close> and \<^verbatim>\<open>int\<close> arithmetic.
  \<^item> \<open>Sample_Codec\<close>: a concrete encoding for the examples.

  \<^bold>\<open>Execution\<close> (\<^verbatim>\<open>src/block_server/worker\<close>, \<^verbatim>\<open>reserve_table\<close>, \<^verbatim>\<open>database\<close>).
  \<^item> \<open>Hash_Map\<close>, \<open>Mvcc_Hash_Map\<close>: the sharded maps of \<^verbatim>\<open>include/common\<close>; they interpret the locale \<open>finite_map\<close>.
  \<^item> \<open>Reserve_Table\<close>: registers with the smallest reserving id, and the dependency analysis, shown exact against the read-write sets. \<open>Reserve_Cas\<close>: the
    compare-exchange loop behind a reservation, interleaved, gives what the sequential reservation gives.
  \<^item> \<open>Storage_Layer\<close>, \<open>Orm_Layer\<close>: the key-value storages behind the locales \<open>db_store\<close> and \<open>db_storage\<close>, and the object mapper. LevelDB is the record
    \<open>leveldb\<close> with the laws \<open>leveldb_ok\<close>; an in-memory instance shows that they can hold.
  \<^item> \<open>Aria_Spec\<close>: the verdict on the transactions of an epoch and a serial order, on the level of sets. \<open>Executor\<close>: the loops of the executors and the locale
    \<open>aria_node\<close>. \<open>Aria_Protocol\<close>: the loops compute the verdict in every order of execution and commit. \<open>Aria_Node\<close>: the results over the classes
    the server runs: an epoch leaves the rows of a serial execution, and all servers leave the same rows.
  \<^item> \<open>Chaincodes\<close>, \<open>Small_Bank\<close>, \<open>Random_Gen\<close>, \<open>Quick_Sort\<close>: the built-in chaincodes, their contract, and what SmallBank does to the accounts.
  \<^item> \<open>Worker_Protocol\<close>: the hand-shake of coordinator and workers as a step relation: phases never overlap, and nobody waits for ever. \<open>Workload_Queue\<close>: the
    cutting into workloads loses and repeats nothing; the adapter of the workload size.

  \<^bold>\<open>Communication\<close> (\<^verbatim>\<open>src/block_server/comm\<close>, \<^verbatim>\<open>src/epoch_server\<close>).
  \<^item> \<open>Epoch_Server\<close>: \<^verbatim>\<open>ev_consensus_manager.cpp\<close>, one server and a group around a raft log: epochs advance one by one, servers agree, answers are ordered; the
    signed string is ambiguous.
  \<^item> \<open>User_Collector\<close>: \<^verbatim>\<open>user_collector.cpp\<close> together with an epoch server and the client proxies: what is collected is accepted everywhere, provided the
    users sign what their payloads serialize to, and what happens otherwise.
  \<^item> \<open>Client_Proxy\<close>: \<^verbatim>\<open>client_proxy.cpp\<close>, both loops: a receiver follows an honest sender; ids depend on signatures only; the events of the loops are steps of
    the epoch buffers.
  \<^item> \<open>Epoch_Buffer\<close>: \<^verbatim>\<open>epoch_transaction_buffer.h\<close>, \<^verbatim>\<open>epoch_txn_queue_manager.h\<close> and \<^verbatim>\<open>cyclic_barrier.cpp\<close> as a step relation: the shared queue is ordered by
    epochs and complete, and the workers do not block each other; early execution and spurious wake-ups break this.
  \<^item> \<open>Consensus_Control\<close>: \<^verbatim>\<open>consensus_control_block.h\<close>: when a server is marked as malicious and when an epoch is finished.
  \<^item> \<open>Transaction_Flow\<close>: \<^verbatim>\<open>comm_controller.cpp\<close> and \<^verbatim>\<open>transaction_manager_impl.cpp\<close>: the manager gets whole epochs, for every timing; transactions are
    accounted for and freed once. The class \<^verbatim>\<open>Comm\<close> is the locale \<open>comm_source\<close>.

  \<^bold>\<open>Blocks\<close> (\<^verbatim>\<open>src/block_server/database\<close>, \<^verbatim>\<open>src/common\<close>).
  \<^item> \<open>Block_Storage\<close>: both storages interpret the locale \<open>block_storage\<close>. \<open>Block_Generator\<close>: the threads of the generator as a step relation. \<open>Block_Chain\<close>: every
    interleaving stores the blocks of a sequential program, servers store the same blocks, and two defects at restart and verification.
  \<^item> \<open>Sha256\<close>, \<open>Mt_Arr_List\<close>, \<open>Merkle_Tree\<close>: the digest equals the one-shot description of the standard, the arrays are used within bounds, and the
    incremental tree has the recursive Merkle root and binds its leaves.
  \<^item> \<open>Base64\<close>, \<open>Lru_Cache\<close>: round trips of the codec, and the cache against a list in order of use.

  \<^bold>\<open>Queues between threads\<close> (\<^verbatim>\<open>include/common/concurrent_queue\<close>).
  \<^item> \<open>Mpmc_Queue\<close>: the lock-free ring, one access to shared memory for each step: first in first out by tickets, no slot is used by two threads or as an object
    when it is none, and the try operations end. \<open>Light_Semaphore\<close>: permits are conserved and no wake-up is lost. \<open>Blocking_Queue\<close>: their composition does not
    deadlock; a bulk dequeue can write past the end of its buffer.

  \<^bold>\<open>Interleavings.\<close> Threads are steps of inductive relations with a program counter for each thread, so a property of all reachable states holds for
  every schedule. Memory is sequentially consistent. A section under a lock is one step. Fields that only record history for the properties are
  named as such where they are declared.

  \<^bold>\<open>Bounds.\<close> Machine words have their width wherever the code can wrap: ids, epochs, nonces, sizes, digests, generators. The ring counts tickets in 64 bits;
  its properties are stated for runs with fewer than \<open>2^63\<close> tickets (\<open>small\<close>), the collector's for fewer than \<open>2^64\<close> transactions in total. Epoch
  buffers and approvals have \<open>MAX_EPOCH\<close> entries as in the code, and an index beyond is \<open>None\<close>. Averages of the size adapter are rationals and clocks are
  integers of nanoseconds, in place of doubles. Loops that could wait for ever return an option; those of the code that end are total functions, so no fuel
  is used, apart from \<open>drain_epochs\<close>, whose loop ends only with the process and which is cut after any number of rounds.

  \<^bold>\<open>Parameters.\<close> Protobuf, RSA, LevelDB, raft and the hash of the standard library are functions given to the definitions. Their laws are named
  predicates (\<open>messages_ok\<close>, \<open>responses_ok\<close>, \<open>env_ok\<close>, \<open>leveldb_ok\<close> and others), and each is shown to hold for a concrete instance.

  \<^bold>\<open>Not modelled.\<close> The vendored moodycamel queue (\<^verbatim>\<open>concurrent_queue.hpp\<close>, \<^verbatim>\<open>blocking_concurrent_queue.hpp\<close>), of which only the order of elements is used; sockets, RPC, raft
  nodes and snapshots, the OpenSSL wrappers and the configuration file, which are calls of libraries; the aggregation broadcaster and the query controller,
  which only move messages; timers and the logging of durations; the entry points, which construct the objects; the benchmark clients, which are
  outside of the servers; test doubles.
\<close>

end
